(* ===== verification/Qotp_Prelude.thy ===== *)
theory Qotp_Prelude
  imports Main "HOL-Library.Word" "HOL-Library.Monad_Syntax"
begin

text \<open>
  Shared vocabulary of the development: the machine integers and byte slices of the Go
  code, the result type of fallible operations, the writing of a value into a sub-slice,
  and the generic facts on lists, words and little-endian byte strings that the component
  theories use.

  Conventions. A Go \<open>uint\<close> of \<open>n\<close> bits is a word of that width, so its arithmetic wraps
  as in Go. A Go \<open>int\<close> is an HOL integer (every value of that type in the program is a
  length, a capacity, a counter or a difference of two lengths). A byte slice is a list of bytes;
  where the code tells a nil slice from an empty one, the slice is an option, \<open>None\<close> for
  nil. An index or slice expression out of range panics in Go: the definitions that can
  panic return an option or a result, and \<open>None\<close> or \<open>Panic\<close> is the panic.
\<close>

unbundle bit_operations_syntax

section \<open>Types\<close>

type_synonym u8 = "8 word"
type_synonym u16 = "16 word"
type_synonym u32 = "32 word"
type_synonym u64 = "64 word"
type_synonym bytes = "u8 list"

datatype go_error = Err string | Panic string

type_synonym 'a result = "go_error + 'a"

section \<open>Collections of facts\<close>

named_theorems codec_simps \<open>equations that evaluate the byte codecs on long enough slices\<close>
named_theorems lm_simps \<open>the effect of the linked map operations on its entries\<close>
named_theorems sm_simps \<open>the effect of the sorted map operations on its entries\<close>

section \<open>Slices\<close>

text \<open>
  \<open>at_slice b off f\<close> runs a writer on the slice \<open>b[off:]\<close>, which shares its array with
  \<open>b\<close>: the bytes before \<open>off\<close> stay, the rest is what the writer leaves. The second
  component is the offset advanced by the number of bytes the writer reports, as in
  \<open>offset += PutUint32(encoded[offset:], v)\<close>.
\<close>

definition at_slice ::
  "bytes \<Rightarrow> nat \<Rightarrow> (bytes \<Rightarrow> (bytes \<times> nat) option) \<Rightarrow> (bytes \<times> nat) option" where
  "at_slice b off f =
     (if length b < off then None
      else case f (drop off b) of
             None \<Rightarrow> None
           | Some (b', n) \<Rightarrow> Some (take off b @ b', off + n))"

text \<open>\<open>copy(dst, src)\<close> of Go: the common prefix is overwritten, its length returned.\<close>

definition go_copy :: "bytes \<Rightarrow> bytes \<Rightarrow> bytes \<times> nat" where
  "go_copy dst src =
     (let n = min (length dst) (length src) in (take n src @ drop n dst, n))"

lemma go_copy_all [simp]:
  "length dst = length src \<Longrightarrow> go_copy dst src = (src, length src)"
  by (simp add: go_copy_def)

lemma take_length_append [simp]: "n = length xs \<Longrightarrow> take n (xs @ ys) = xs"
  by simp

lemma drop_length_append [simp]: "n = length xs \<Longrightarrow> drop n (xs @ ys) = ys"
  by simp

text \<open>\<open>b[off] = x\<close> as a writer of one byte.\<close>

definition put_byte :: "u8 \<Rightarrow> bytes \<Rightarrow> (bytes \<times> nat) option" where
  "put_byte x s = (case s of [] \<Rightarrow> None | _ # r \<Rightarrow> Some (x # r, 1))"

text \<open>A reader applied to the slice \<open>b[off:]\<close>; out of range is a panic.\<close>

definition read_at :: "bytes \<Rightarrow> nat \<Rightarrow> (bytes \<Rightarrow> 'a option) \<Rightarrow> 'a result" where
  "read_at b off get =
     (if length b < off then Inl (Panic ''slice bounds out of range'')
      else case get (drop off b) of
             None \<Rightarrow> Inl (Panic ''index out of range'')
           | Some v \<Rightarrow> Inr v)"

definition get_byte :: "bytes \<Rightarrow> u8 option" where
  "get_byte s = (case s of [] \<Rightarrow> None | x # _ \<Rightarrow> Some x)"

text \<open>
  \<open>zbuf pre n\<close> is a buffer from \<open>make\<close> whose first bytes have been written: \<open>pre\<close>
  followed by \<open>n\<close> zero bytes.
\<close>

definition zbuf :: "bytes \<Rightarrow> nat \<Rightarrow> bytes" where
  "zbuf pre n = pre @ replicate n 0"

lemma zbuf_0 [simp]: "zbuf pre 0 = pre"
  by (simp add: zbuf_def)

lemma at_slice_put_byte [codec_simps]:
  "off = length pre \<Longrightarrow> 1 \<le> n \<Longrightarrow>
   at_slice (zbuf pre n) off (put_byte x) = Some (zbuf (pre @ [x]) (n - 1), off + 1)"
  by (cases n) (auto simp: at_slice_def zbuf_def put_byte_def)

lemma at_slice_go_copy [codec_simps]:
  "off = length pre \<Longrightarrow> n = length d \<Longrightarrow>
   at_slice (zbuf pre n) off (\<lambda>s. Some (go_copy s d)) = Some (pre @ d, off + n)"
  by (simp add: at_slice_def zbuf_def)

lemma read_at_get_byte [codec_simps]:
  "off < length b \<Longrightarrow> read_at b off get_byte = Inr (b ! off)"
  by (simp add: read_at_def get_byte_def Cons_nth_drop_Suc[symmetric])

section \<open>Sequencing of fallible steps\<close>

definition and_then :: "'a result \<Rightarrow> ('a \<Rightarrow> 'b result) \<Rightarrow> 'b result" where
  "and_then r f = (case r of Inl e \<Rightarrow> Inl e | Inr x \<Rightarrow> f x)"

lemma and_then_simps [simp]:
  "and_then (Inl e) f = Inl e"
  "and_then (Inr x) f = f x"
  by (simp_all add: and_then_def)

lemma and_then_eq_Inr:
  "and_then r f = Inr y \<longleftrightarrow> (\<exists>x. r = Inr x \<and> f x = Inr y)"
  by (cases r) auto

lemma and_then_eq_Inl:
  "and_then r f = Inl e \<longleftrightarrow> r = Inl e \<or> (\<exists>x. r = Inr x \<and> f x = Inl e)"
  by (cases r) auto

section \<open>Conversions\<close>

text \<open>The Go conversion \<open>int(x)\<close> of a \<open>uint64\<close> reads it as two's complement.\<close>

definition go_int :: "u64 \<Rightarrow> int" where
  "go_int w = sint w"

lemma go_int_small:
  assumes "unat w < 2 ^ 63"
  shows "go_int w = int (unat w)"
proof -
  have "int (unat w) < int (2 ^ 63)" using assms by (simp only: of_nat_less_iff)
  then have u: "uint w < 2 ^ 63"
    unfolding uint_nat by (simp only: of_nat_power of_nat_numeral)
  have "- (2 ^ 63) \<le> uint w"
    by (rule order.trans[OF _ uint_ge_0]) simp
  from signed_take_bit_int_eq_self[OF this u]
  show ?thesis by (simp add: go_int_def sint_uint)
qed

lemma unat_ucast_up:
  fixes x :: "'a::len word"
  assumes "LENGTH('a) \<le> LENGTH('b::len)"
  shows "unat (ucast x :: 'b word) = unat x"
proof -
  have "unat x < 2 ^ LENGTH('a)" by (rule unsigned_less)
  also have "\<dots> \<le> 2 ^ LENGTH('b)" using assms by (intro power_increasing) auto
  finally show ?thesis by (simp only: unsigned_ucast_eq take_bit_nat_eq_self)
qed

section \<open>Little-endian byte strings\<close>

primrec le_bytes :: "nat \<Rightarrow> 'a::len word \<Rightarrow> bytes" where
  "le_bytes 0 v = []"
| "le_bytes (Suc k) v = ucast v # le_bytes k (drop_bit 8 v)"

primrec le_word :: "bytes \<Rightarrow> 'a::len word" where
  "le_word [] = 0"
| "le_word (b # bs) = ucast b OR push_bit 8 (le_word bs)"

lemma length_le_bytes [simp]: "length (le_bytes k v) = k"
  by (induction k arbitrary: v) auto

lemma bit_low_or_shift:
  fixes x :: "'a::len word"
  shows "ucast (ucast x :: 8 word) OR push_bit 8 (take_bit k (drop_bit 8 x)) =
         take_bit (8 + k) x"
proof (rule bit_word_eqI)
  fix n
  assume n: "n < LENGTH('a)"
  show "bit (ucast (ucast x :: 8 word) OR push_bit 8 (take_bit k (drop_bit 8 x))) n =
        bit (take_bit (8 + k) x) n"
  proof (cases "n < 8")
    case True
    with n show ?thesis by (simp add: bit_simps)
  next
    case False
    then obtain m where "n = 8 + m"
      using le_Suc_ex[of 8 n] by auto
    with n show ?thesis by (auto simp: bit_simps)
  qed
qed

lemma le_word_le_bytes [simp]: "le_word (le_bytes k v) = take_bit (8 * k) v"
  by (induction k arbitrary: v) (simp_all add: bit_low_or_shift)

lemma le_bytes_cong:
  "take_bit (8 * k) u = take_bit (8 * k) (v :: 'a::len word) \<Longrightarrow> le_bytes k u = le_bytes k v"
proof (induction k arbitrary: u v)
  case 0
  then show ?case by simp
next
  case (Suc k)
  have eq: "bit u n = bit v n" if "n < 8 + 8 * k" for n
  proof -
    from Suc.prems have "bit (take_bit (8 * Suc k) u) n = bit (take_bit (8 * Suc k) v) n"
      by simp
    with that show ?thesis by (simp add: bit_take_bit_iff)
  qed
  have "(ucast u :: 8 word) = ucast v"
    by (intro bit_word_eqI) (simp add: bit_simps eq)
  moreover have "le_bytes k (drop_bit 8 u) = le_bytes k (drop_bit 8 v)"
    by (rule Suc.IH, intro bit_word_eqI) (auto simp: bit_simps eq)
  ultimately show ?case by simp
qed

lemma le_bytes_le_word:
  "8 * length bs \<le> LENGTH('a) \<Longrightarrow> le_bytes (length bs) (le_word bs :: 'a::len word) = bs"
proof (induction bs)
  case Nil
  then show ?case by simp
next
  case (Cons b bs)
  let ?w = "le_word bs :: 'a word"
  have len: "8 + 8 * length bs \<le> LENGTH('a)" using Cons.prems by simp
  have b: "ucast (ucast b OR push_bit 8 ?w) = b"
    using len by (intro bit_word_eqI) (auto simp: bit_simps)
  have "take_bit (8 * length bs) (drop_bit 8 (ucast b OR push_bit 8 ?w)) =
        take_bit (8 * length bs) ?w"
    using len by (intro bit_word_eqI) (auto simp: bit_simps dest: bit_imp_le_length)
  then have "le_bytes (length bs) (drop_bit 8 (ucast b OR push_bit 8 ?w)) = le_bytes (length bs) ?w"
    by (rule le_bytes_cong)
  with b Cons show ?case by simp
qed

lemma take_bit_word_eq_self:
  "unat (v :: 'a::len word) < 2 ^ n \<Longrightarrow> take_bit n v = v"
  by (metis unsigned_take_bit_eq take_bit_nat_eq_self word_unat_eq_iff)

section \<open>Word arithmetic without wrap-around\<close>

lemma unat_mult_small: "unat x * unat y < 2 ^ LENGTH('a) \<Longrightarrow> unat (x * y) = unat x * unat y"
  for x y :: "'a::len word"
  by (simp add: unat_mult_lem)

lemma unat_add_small: "unat x + unat y < 2 ^ LENGTH('a) \<Longrightarrow> unat (x + y) = unat x + unat y"
  for x y :: "'a::len word"
  by (simp add: unat_add_lem)

lemma unat_sub_le: "y \<le> x \<Longrightarrow> unat (x - y) = unat x - unat y" for x y :: "'a::len word"
  by (simp add: unat_sub)

lemma unat_of_nat_small: "n < 2 ^ LENGTH('a) \<Longrightarrow> unat (word_of_nat n :: 'a::len word) = n"
  by (simp add: unsigned_of_nat take_bit_nat_eq_self)

section \<open>Sums\<close>

lemma sum_change_one:
  fixes f g :: "'a::finite \<Rightarrow> int"
  assumes "\<And>x. x \<noteq> a \<Longrightarrow> g x = f x"
  shows "(\<Sum>x \<in> UNIV. g x) = (\<Sum>x \<in> UNIV. f x) - f a + g a"
proof -
  have "(\<Sum>x \<in> UNIV - {a}. g x) = (\<Sum>x \<in> UNIV - {a}. f x)" using assms by (intro sum.cong) auto
  then show ?thesis using sum.remove[of UNIV a g] sum.remove[of UNIV a f] by simp
qed

end
