(* ===== verification/Codec.thy ===== *)
theory Codec
  imports Qotp_Prelude
begin

text \<open>
  The fixed-width integer codecs at the end of \<^verbatim>\<open>codec.go\<close>: \<^verbatim>\<open>PutUint16\<close> to
  \<^verbatim>\<open>PutUint64\<close>, their readers, and the 24 or 48 bit offset codec that the payload header
  uses. A writer takes the slice it writes into and returns the changed slice with the
  number of bytes written; on a slice that is too short the Go code panics with an index
  out of range and the model returns \<open>None\<close>. The locale \<open>le_codec\<close> is the contract all of
  them meet, and the interpretations give its lemmas for each width.
\<close>

section \<open>Writers\<close>

definition PutUint16 :: "bytes \<Rightarrow> u16 \<Rightarrow> (bytes \<times> nat) option" where
  "PutUint16 b v =
     (if length b < 2 then None
      else Some (b[0 := ucast v, 1 := ucast (drop_bit 8 v)], 2))"

definition PutUint24 :: "bytes \<Rightarrow> u64 \<Rightarrow> (bytes \<times> nat) option" where
  "PutUint24 b v =
     (if length b < 3 then None
      else Some (b[0 := ucast v, 1 := ucast (drop_bit 8 v), 2 := ucast (drop_bit 16 v)], 3))"

definition PutUint32 :: "bytes \<Rightarrow> u32 \<Rightarrow> (bytes \<times> nat) option" where
  "PutUint32 b v =
     (if length b < 4 then None
      else Some (b[0 := ucast v, 1 := ucast (drop_bit 8 v), 2 := ucast (drop_bit 16 v),
                   3 := ucast (drop_bit 24 v)], 4))"

definition PutUint48 :: "bytes \<Rightarrow> u64 \<Rightarrow> (bytes \<times> nat) option" where
  "PutUint48 b v =
     (if length b < 6 then None
      else Some (b[0 := ucast v, 1 := ucast (drop_bit 8 v), 2 := ucast (drop_bit 16 v),
                   3 := ucast (drop_bit 24 v), 4 := ucast (drop_bit 32 v),
                   5 := ucast (drop_bit 40 v)], 6))"

definition PutUint64 :: "bytes \<Rightarrow> u64 \<Rightarrow> (bytes \<times> nat) option" where
  "PutUint64 b v =
     (if length b < 8 then None
      else Some (b[0 := ucast v, 1 := ucast (drop_bit 8 v), 2 := ucast (drop_bit 16 v),
                   3 := ucast (drop_bit 24 v), 4 := ucast (drop_bit 32 v),
                   5 := ucast (drop_bit 40 v), 6 := ucast (drop_bit 48 v),
                   7 := ucast (drop_bit 56 v)], 8))"

section \<open>Readers\<close>

definition Uint16 :: "bytes \<Rightarrow> u16 option" where
  "Uint16 b =
     (if length b < 2 then None else Some (ucast (b ! 0) OR push_bit 8 (ucast (b ! 1))))"

definition Uint24 :: "bytes \<Rightarrow> u64 option" where
  "Uint24 b =
     (if length b < 3 then None
      else Some (ucast (b ! 0) OR push_bit 8 (ucast (b ! 1)) OR push_bit 16 (ucast (b ! 2))))"

definition Uint32 :: "bytes \<Rightarrow> u32 option" where
  "Uint32 b =
     (if length b < 4 then None
      else Some (ucast (b ! 0) OR push_bit 8 (ucast (b ! 1)) OR push_bit 16 (ucast (b ! 2)) OR
                 push_bit 24 (ucast (b ! 3))))"

definition Uint48 :: "bytes \<Rightarrow> u64 option" where
  "Uint48 b =
     (if length b < 6 then None
      else Some (ucast (b ! 0) OR push_bit 8 (ucast (b ! 1)) OR push_bit 16 (ucast (b ! 2)) OR
                 push_bit 24 (ucast (b ! 3)) OR push_bit 32 (ucast (b ! 4)) OR
                 push_bit 40 (ucast (b ! 5))))"

definition Uint64 :: "bytes \<Rightarrow> u64 option" where
  "Uint64 b =
     (if length b < 8 then None
      else Some (ucast (b ! 0) OR push_bit 8 (ucast (b ! 1)) OR push_bit 16 (ucast (b ! 2)) OR
                 push_bit 24 (ucast (b ! 3)) OR push_bit 32 (ucast (b ! 4)) OR
                 push_bit 40 (ucast (b ! 5)) OR push_bit 48 (ucast (b ! 6)) OR
                 push_bit 56 (ucast (b ! 7))))"

section \<open>The offset codec of the payload header\<close>

definition putOffsetVarint :: "bytes \<Rightarrow> u64 \<Rightarrow> bool \<Rightarrow> (bytes \<times> nat) option" where
  "putOffsetVarint buf off isExtend =
     (if isExtend then PutUint48 buf off else PutUint24 buf off)"

definition offsetVarint :: "bytes \<Rightarrow> bool \<Rightarrow> u64 option" where
  "offsetVarint buf isExtend = (if isExtend then Uint48 buf else Uint24 buf)"

definition offsetSize :: "bool \<Rightarrow> nat" where
  "offsetSize isExtend = (if isExtend then 6 else 3)"

section \<open>The contract of a fixed-width codec\<close>

text \<open>
  \<open>put\<close> writes exactly the first \<open>width\<close> bytes of its slice, little end first, and
  panics exactly when the slice is shorter; \<open>get\<close> reads the same bytes.
\<close>

locale le_codec =
  fixes width :: nat
    and put :: "bytes \<Rightarrow> 'a::len word \<Rightarrow> (bytes \<times> nat) option"
    and get :: "bytes \<Rightarrow> 'a word option"
  assumes put_eq: "put b v =
      (if length b < width then None else Some (le_bytes width v @ drop width b, width))"
    and get_eq: "get b = (if length b < width then None else Some (le_word (take width b)))"
    and width_le: "8 * width \<le> LENGTH('a)"
begin

lemma put_Some [codec_simps]:
  "width \<le> length b \<Longrightarrow> put b v = Some (le_bytes width v @ drop width b, width)"
  by (simp add: put_eq)

lemma get_append [codec_simps]: "get (le_bytes width v @ bs) = Some (take_bit (8 * width) v)"
  by (simp add: get_eq)

lemma get_drop [codec_simps]:
  "width \<le> length b \<Longrightarrow> get b = Some (le_word (take width b))"
  by (simp add: get_eq)

lemma get_exact [codec_simps]: "get (le_bytes width v) = Some (take_bit (8 * width) v)"
  by (simp add: get_eq)

lemma read_at_get [codec_simps]:
  "off + width \<le> length b \<Longrightarrow> read_at b off get = Inr (le_word (take width (drop off b)))"
  by (simp add: read_at_def get_eq)

lemma read_at_append [codec_simps]:
  "off = length pre \<Longrightarrow> read_at (pre @ le_bytes width v @ bs) off get = Inr (take_bit (8 * width) v)"
  by (simp add: read_at_def get_eq)

lemma put_frame: "put b v = Some (b', n) \<Longrightarrow> length b' = length b \<and> n = width \<and> drop n b' = drop n b"
  by (auto simp: put_eq split: if_splits)

lemma get_put: "put b v = Some (b', n) \<Longrightarrow> get b' = Some (take_bit (8 * width) v)"
  by (auto simp: put_eq get_eq split: if_splits)

lemma put_get:
  assumes "get b = Some v"
  shows "put b v = Some (b, width)"
proof -
  have len: "width \<le> length b" and v: "v = le_word (take width b)"
    using assms by (auto simp: get_eq split: if_splits)
  have "le_bytes width v = take width b"
    using le_bytes_le_word[where 'a = 'a, of "take width b"] len width_le v by simp
  with len show ?thesis by (simp add: put_eq)
qed

lemma full_width_inverse:
  assumes "8 * width = LENGTH('a)"
  shows "map_option (get \<circ> fst) (put b v) = (if length b < width then None else Some (Some v))"
    and "Option.bind (get b) (put b) = (if length b < width then None else Some (b, width))"
proof -
  have "take_bit (8 * width) v = v"
    using unsigned_less[of v, where 'a = nat] by (simp add: assms take_bit_word_eq_self)
  then show "map_option (get \<circ> fst) (put b v) = (if length b < width then None else Some (Some v))"
    by (simp add: put_eq get_append)
  show "Option.bind (get b) (put b) = (if length b < width then None else Some (b, width))"
    using put_get by (cases "get b") (auto simp: get_eq split: if_splits)
qed

lemma at_slice_put [codec_simps]:
  assumes "off = length pre" and "width \<le> n"
  shows "at_slice (zbuf pre n) off (\<lambda>s. put s v) =
         Some (zbuf (pre @ le_bytes width v) (n - width), off + width)"
  using assms by (simp add: at_slice_def put_eq zbuf_def)

end

text \<open>The byte positions and shifts of the sources, in terms of little-endian strings.\<close>

lemma le_bytes_numeral [simp]:
  "le_bytes (numeral k) v = ucast v # le_bytes (pred_numeral k) (drop_bit 8 v)"
  by (simp add: numeral_eq_Suc)

lemma list_update_Cons_numeral [simp]:
  "(x # xs)[numeral k := y] = x # xs[pred_numeral k := y]"
  by (simp add: numeral_eq_Suc)

lemma le_word_take_numeral [simp]:
  "le_word (take (numeral k) (x # xs)) =
   ucast x OR push_bit 8 (le_word (take (pred_numeral k) xs))"
  by (simp add: numeral_eq_Suc)

lemma push_bit_or_8:
  "push_bit 8 (a OR b) = push_bit 8 a OR push_bit 8 (b :: 'a::len word)"
  by (rule push_bit_or)

lemma numeral_le_length_iff:
  "numeral k \<le> length b \<longleftrightarrow> (\<exists>x xs. b = x # xs \<and> pred_numeral k \<le> length xs)"
  by (simp add: numeral_eq_Suc Suc_le_length_iff)

lemma short_or_long:
  "(length b < n \<Longrightarrow> P) \<Longrightarrow> (n \<le> length b \<Longrightarrow> P) \<Longrightarrow> P"
  by (cases "length b < n") auto

lemmas codec_unfold = PutUint16_def PutUint24_def PutUint32_def PutUint48_def PutUint64_def
  Uint16_def Uint24_def Uint32_def Uint48_def Uint64_def push_bit_or_8 drop_bit_drop_bit
  numeral_le_length_iff Suc_le_length_iff

interpretation u16c: le_codec 2 PutUint16 Uint16
proof
  fix b :: bytes and v :: u16
  show "PutUint16 b v = (if length b < 2 then None else Some (le_bytes 2 v @ drop 2 b, 2))"
    by (rule short_or_long[of b 2]) (auto simp: codec_unfold)
  show "Uint16 b = (if length b < 2 then None else Some (le_word (take 2 b)))"
    by (rule short_or_long[of b 2]) (auto simp: codec_unfold)
qed simp

interpretation u24c: le_codec 3 PutUint24 Uint24
proof
  fix b :: bytes and v :: u64
  show "PutUint24 b v = (if length b < 3 then None else Some (le_bytes 3 v @ drop 3 b, 3))"
    by (rule short_or_long[of b 3]) (auto simp: codec_unfold)
  show "Uint24 b = (if length b < 3 then None else Some (le_word (take 3 b)))"
    by (rule short_or_long[of b 3]) (auto simp: codec_unfold)
qed simp

interpretation u32c: le_codec 4 PutUint32 Uint32
proof
  fix b :: bytes and v :: u32
  show "PutUint32 b v = (if length b < 4 then None else Some (le_bytes 4 v @ drop 4 b, 4))"
    by (rule short_or_long[of b 4]) (auto simp: codec_unfold)
  show "Uint32 b = (if length b < 4 then None else Some (le_word (take 4 b)))"
    by (rule short_or_long[of b 4]) (auto simp: codec_unfold)
qed simp

interpretation u48c: le_codec 6 PutUint48 Uint48
proof
  fix b :: bytes and v :: u64
  show "PutUint48 b v = (if length b < 6 then None else Some (le_bytes 6 v @ drop 6 b, 6))"
    by (rule short_or_long[of b 6]) (auto simp: codec_unfold)
  show "Uint48 b = (if length b < 6 then None else Some (le_word (take 6 b)))"
    by (rule short_or_long[of b 6]) (auto simp: codec_unfold)
qed simp

interpretation u64c: le_codec 8 PutUint64 Uint64
proof
  fix b :: bytes and v :: u64
  show "PutUint64 b v = (if length b < 8 then None else Some (le_bytes 8 v @ drop 8 b, 8))"
    by (rule short_or_long[of b 8]) (auto simp: codec_unfold)
  show "Uint64 b = (if length b < 8 then None else Some (le_word (take 8 b)))"
    by (rule short_or_long[of b 8]) (auto simp: codec_unfold)
qed simp

interpretation ofc: le_codec "offsetSize e" "\<lambda>b v. putOffsetVarint b v e" "\<lambda>b. offsetVarint b e"
  for e
  by unfold_locales
     (simp_all add: putOffsetVarint_def offsetVarint_def offsetSize_def
        u24c.put_eq u48c.put_eq u24c.get_eq u48c.get_eq)

section \<open>Properties\<close>

text \<open>
  Writing a stream offset as a varint of 3 or 6 bytes and reading it back gives the offset
  reduced to that width, the offset itself when it fits; the writer reports the width and
  leaves every byte after it unchanged.
\<close>
theorem offset_varint_roundtrip:
  assumes "putOffsetVarint buf v isExtend = Some (buf', n)"
  shows "offsetVarint buf' isExtend = Some (take_bit (8 * n) v) \<and> n = offsetSize isExtend \<and>
    length buf' = length buf \<and> drop n buf' = drop n buf \<and>
    (unat v < 2 ^ (8 * n) \<longrightarrow> offsetVarint buf' isExtend = Some v)"
proof -
  have n: "n = offsetSize isExtend" and f: "length buf' = length buf" "drop n buf' = drop n buf"
    using ofc.put_frame[OF assms] by blast+
  have "offsetVarint buf' isExtend = Some (take_bit (8 * n) v)"
    using ofc.get_put[of buf v isExtend buf' n] assms n by simp
  with n f show ?thesis by (simp add: take_bit_word_eq_self)
qed

theorem offset_varint_roundtrip_witness:
  "offsetVarint [0x56, 0x34, 0x12, 9] False = Some 0x123456"
proof -
  have "putOffsetVarint [0, 0, 0, 9] 0x123456 False = Some ([0x56, 0x34, 0x12, 9], 3)"
    by (simp add: putOffsetVarint_def PutUint24_def)
  from offset_varint_roundtrip[OF this] show ?thesis by simp
qed

text \<open>
  The 16-, 32- and 64-bit little-endian writers and readers are inverse on every slice that
  is long enough: reading what was written gives the value, and writing what was read
  leaves the slice as it was. A shorter slice panics on both sides.
\<close>
theorem uint_codecs_inverse:
  fixes v16 :: u16 and v32 :: u32 and v64 :: u64
  shows "map_option (Uint16 \<circ> fst) (PutUint16 b v16) = (if length b < 2 then None else Some (Some v16)) \<and>
    map_option (Uint32 \<circ> fst) (PutUint32 b v32) = (if length b < 4 then None else Some (Some v32)) \<and>
    map_option (Uint64 \<circ> fst) (PutUint64 b v64) = (if length b < 8 then None else Some (Some v64)) \<and>
    Option.bind (Uint16 b) (PutUint16 b) = (if length b < 2 then None else Some (b, 2)) \<and>
    Option.bind (Uint32 b) (PutUint32 b) = (if length b < 4 then None else Some (b, 4)) \<and>
    Option.bind (Uint64 b) (PutUint64 b) = (if length b < 8 then None else Some (b, 8))"
  by (simp add: u16c.full_width_inverse u32c.full_width_inverse u64c.full_width_inverse)

end
