(* ===== verification/Proto.thy ===== *)
theory Proto
  imports Codec
begin

text \<open>
  The transport layer of \<^verbatim>\<open>proto.go\<close>: the 8 bit logarithmic code of the receive window
  and the payload header with its optional acknowledgement. The nil slice and the empty
  slice are different user data here (a nil slice with an acknowledgement is an ack-only
  packet, an empty one a ping), so user data is an option.
\<close>

section \<open>Data\<close>

definition ProtoVersion :: u8 where "ProtoVersion = 0"
definition TypeFlag :: nat where "TypeFlag = 5"
definition Offset24or48Flag :: nat where "Offset24or48Flag = 7"
definition MinProtoSize :: nat where "MinProtoSize = 8"

lemmas proto_consts = ProtoVersion_def TypeFlag_def Offset24or48Flag_def MinProtoSize_def

record Ack =
  ack_streamID :: u32
  ack_offset :: u64
  ack_len :: u16
  ack_rcvWnd :: u64

record PayloadHeader =
  ph_IsClose :: bool
  ph_Ack :: "Ack option"
  ph_StreamID :: u32
  ph_StreamOffset :: u64

section \<open>The receive window code\<close>

text \<open>\<open>bits.Len64\<close>: the number of bits of a value, 0 for 0.\<close>

fun bits_len :: "nat \<Rightarrow> nat" where
  "bits_len n = (if n = 0 then 0 else Suc (bits_len (n div 2)))"

declare bits_len.simps [simp del]

definition bits_Len64 :: "u64 \<Rightarrow> nat" where
  "bits_Len64 w = bits_len (unat w)"

definition EncodeRcvWindow :: "u64 \<Rightarrow> u8" where
  "EncodeRcvWindow actualBytes =
     (if actualBytes = 0 then 0
      else if actualBytes \<le> 255 then 1
      else
        let highBit = bits_Len64 actualBytes - 1;
            lowerBits = drop_bit (highBit - 3) actualBytes AND 7;
            encoded = (int highBit - 8) * 8 + go_int lowerBits + 2
        in if encoded > 255 then 255 else word_of_int encoded)"

definition DecodeRcvWindow :: "u8 \<Rightarrow> u64" where
  "DecodeRcvWindow encoded =
     (if encoded = 0 then 0
      else if encoded = 1 then 128
      else
        let adjusted = encoded - 2;
            highBit = unat (adjusted div 8) + 8;
            subStep = adjusted mod 8;
            base = push_bit highBit (1 :: u64);
            increment = base div 8
        in base + ucast subStep * increment)"

subsection \<open>The code on natural numbers\<close>

lemma bits_len_0 [simp]: "bits_len 0 = 0"
  by (subst bits_len.simps) simp

lemma bits_len_pos: "0 < n \<Longrightarrow> bits_len n = Suc (bits_len (n div 2))"
  by (subst bits_len.simps) simp

lemma bits_len_bounds: "0 < n \<Longrightarrow> 2 ^ (bits_len n - 1) \<le> n \<and> n < 2 ^ bits_len n"
proof (induction n rule: bits_len.induct)
  case (1 n)
  show ?case
  proof (cases "n = 1")
    case True
    then show ?thesis by (simp add: bits_len_pos)
  next
    case False
    with "1.prems" have pos: "0 < n div 2" by simp
    with "1" have IH: "2 ^ (bits_len (n div 2) - 1) \<le> n div 2 \<and> n div 2 < 2 ^ bits_len (n div 2)"
      by simp
    obtain k where k: "bits_len (n div 2) = Suc k"
      using bits_len_pos[OF pos] by blast
    have "bits_len n = Suc (Suc k)"
      using "1.prems" k by (simp add: bits_len_pos)
    with IH k show ?thesis by auto
  qed
qed

lemma bits_len_eqI:
  assumes "2 ^ h \<le> n" and "n < 2 ^ Suc h"
  shows "bits_len n = Suc h"
proof -
  have pos: "0 < n" using assms(1) by (rule less_le_trans[rotated]) simp
  then obtain k where k: "bits_len n = Suc k"
    using bits_len_pos by blast
  have "2 ^ k \<le> n" "n < 2 ^ Suc k"
    using bits_len_bounds[OF pos] k by simp_all
  then have "2 ^ k < (2 :: nat) ^ Suc h" "2 ^ h < (2 :: nat) ^ Suc k"
    using assms by linarith+
  then have "k < Suc h" "h < Suc k"
    by (simp_all only: power_strict_increasing_iff one_less_numeral_iff semiring_norm)
  then show ?thesis using k by simp
qed


text \<open>
  \<open>rwnd_code\<close> and \<open>rwnd_value\<close> are the two functions without machine words. From 256 on a
  window is rounded down to its four most significant bits, the leading one and three
  more: eight steps for each power of two.
\<close>

definition rwnd_code :: "nat \<Rightarrow> nat" where
  "rwnd_code n =
     (if n = 0 then 0 else if n < 256 then 1
      else let h = bits_len n - 1 in min 255 (8 * (h - 8) + (n div 2 ^ (h - 3) - 8) + 2))"

definition rwnd_value :: "nat \<Rightarrow> nat" where
  "rwnd_value c =
     (if c = 0 then 0 else if c = 1 then 128
      else (8 + (c - 2) mod 8) * 2 ^ ((c - 2) div 8 + 5))"

lemma high_bit_ge_8:
  assumes "256 \<le> n"
  obtains h where "bits_len n = Suc h" "8 \<le> h" "2 ^ h \<le> n" "n < 2 ^ Suc h"
proof -
  obtain h where h: "bits_len n = Suc h"
    using assms bits_len_pos[of n] by auto
  have b: "2 ^ h \<le> n" "n < 2 ^ Suc h"
    using bits_len_bounds[of n] assms h by simp_all
  have "(2 :: nat) ^ 8 < 2 ^ Suc h" using b assms by simp
  then have "8 < Suc h"
    by (simp only: power_strict_increasing_iff one_less_numeral_iff semiring_norm)
  with that[OF h _ b] show thesis by simp
qed

lemma top_bits:
  fixes n h :: nat
  assumes "2 ^ h \<le> n" and "n < 2 ^ Suc h" and "8 \<le> h"
  shows "8 \<le> n div 2 ^ (h - 3)" and "n div 2 ^ (h - 3) < 16"
proof -
  have e: "(2 :: nat) ^ h = 8 * 2 ^ (h - 3)" and e': "(2 :: nat) ^ Suc h = 16 * 2 ^ (h - 3)"
    using power_add[of "2 :: nat" "h - 3" 3] assms(3) by simp_all
  show "8 \<le> n div 2 ^ (h - 3)"
    using assms(1) by (simp add: e less_eq_div_iff_mult_less_eq)
  show "n div 2 ^ (h - 3) < 16"
    using assms(2) by (simp only: e' div_less_iff_less_mult zero_less_power zero_less_numeral)
qed

lemma unat_and_7: "unat ((x :: u64) AND 7) = unat x mod 8"
proof -
  have "x AND 7 = take_bit 3 x" by (simp add: take_bit_eq_mask mask_numeral)
  then show ?thesis by (simp only: unsigned_take_bit_eq) (simp add: take_bit_eq_mod)
qed

lemma unat_drop_bit_div: "unat (drop_bit k (x :: u64)) = unat x div 2 ^ k"
proof -
  have "take_bit LENGTH(64) (unat x) = unat x"
    by (rule take_bit_nat_eq_self) (rule unsigned_less)
  then show ?thesis by (subst unsigned_drop_bit_eq) (simp only: drop_bit_eq_div)
qed

lemma unat_word_of_int_8: "k \<le> 255 \<Longrightarrow> unat (word_of_int (int k) :: u8) = k"
  by (simp only: of_int_of_nat_eq unat_of_nat) simp

lemma unat_EncodeRcvWindow: "unat (EncodeRcvWindow w) = rwnd_code (unat w)"
proof -
  consider "w = 0" | "w \<noteq> 0" "unat w < 256" | "256 \<le> unat w" by linarith
  then show ?thesis
  proof cases
    case 1
    then show ?thesis by (simp add: EncodeRcvWindow_def rwnd_code_def)
  next
    case 2
    then have "w \<le> 255" "unat w \<noteq> 0" by (simp_all add: word_le_nat_alt unat_eq_0)
    with 2 show ?thesis by (simp add: EncodeRcvWindow_def rwnd_code_def)
  next
    case 3
    then obtain h where h: "bits_len (unat w) = Suc h" "8 \<le> h" "2 ^ h \<le> unat w" "unat w < 2 ^ Suc h"
      by (rule high_bit_ge_8)
    let ?q = "unat w div 2 ^ (h - 3)"
    have q: "8 \<le> ?q" "?q < 16" using top_bits h(2-4) by blast+
    have nw: "w \<noteq> 0" "\<not> w \<le> 255" using 3 by (auto simp: word_le_nat_alt)
    have low: "unat (drop_bit (h - 3) w AND 7) = ?q - 8"
      using q by (simp add: unat_and_7 unat_drop_bit_div mod_if[of _ 8])
    have "go_int (drop_bit (h - 3) w AND 7) = int (?q - 8)"
      using q by (subst go_int_small) (simp_all add: low)
    then have E: "EncodeRcvWindow w =
        (let e = (int h - 8) * 8 + int (?q - 8) + 2 in if e > 255 then 255 else word_of_int e)"
      using nw h(1) by (simp add: EncodeRcvWindow_def bits_Len64_def Let_def)
    have C: "rwnd_code (unat w) = min 255 (8 * (h - 8) + (?q - 8) + 2)"
      using 3 h(1) by (simp add: rwnd_code_def Let_def)
    have e: "(int h - 8) * 8 + int (?q - 8) + 2 = int (8 * (h - 8) + (?q - 8) + 2)"
      using h(2) by simp
    define k where "k = 8 * (h - 8) + (?q - 8) + 2"
    show ?thesis unfolding E C e Let_def k_def[symmetric]
    proof (cases "k \<le> 255")
      case True
      then show "unat (if 255 < int k then 255 else word_of_int (int k) :: u8) = min 255 k"
        using unat_word_of_int_8[OF True] by (simp del: of_int_of_nat_eq)
    qed auto
  qed
qed

lemma unat_DecodeRcvWindow: "unat (DecodeRcvWindow c) = rwnd_value (unat c)"
proof -
  consider "c = 0" | "c = 1" | "2 \<le> unat c"
    by (metis One_nat_def Suc_1 less_2_cases not_less unat_0 unat_1 word_unat_eq_iff)
  then show ?thesis
  proof cases
    case 3
    let ?a = "unat c - 2"
    have nc: "c \<noteq> 0" "c \<noteq> 1" using 3 by auto
    have a: "unat (c - 2) = ?a"
      using 3 by (simp add: unat_sub word_le_nat_alt)
    have a_le: "?a \<le> 253" using unsigned_less[of c, where 'a = nat] by simp
    define h where "h = ?a div 8 + 8"
    have h: "h \<le> 39" "8 \<le> h" using a_le by (auto simp: h_def)
    define B where "B = push_bit h (1 :: u64)"
    have base: "unat B = 2 ^ h"
    proof -
      have "push_bit h (1 :: nat) < 2 ^ LENGTH(64)"
        using h power_strict_increasing[of h 64 "2 :: nat"] by (simp add: push_bit_eq_mult)
      then have "take_bit LENGTH(64) (push_bit h (1 :: nat)) = 2 ^ h"
        by (simp only: take_bit_nat_eq_self) (simp add: push_bit_eq_mult)
      then show ?thesis by (simp only: B_def unsigned_push_bit_eq unsigned_1)
    qed
    have e: "(2 :: nat) ^ h = 8 * 2 ^ (h - 3)"
      using power_add[of "2 :: nat" "h - 3" 3] h by simp
    define I where "I = B div 8"
    have inc: "unat I = 2 ^ (h - 3)"
      by (simp add: I_def unat_div base e)
    have sub: "unat (ucast ((c - 2) mod 8) :: u64) = ?a mod 8"
      by (subst unat_ucast_up) (simp_all add: unat_mod a)
    have "(2 :: nat) ^ (h - 3) \<le> 2 ^ 36"
      using h by (intro power_increasing) auto
    moreover have "?a mod 8 \<le> 7" by simp
    ultimately have "(?a mod 8) * 2 ^ (h - 3) \<le> 7 * 2 ^ 36" and "(2 :: nat) ^ h \<le> 8 * 2 ^ 36"
      by (auto simp only: e intro: mult_le_mono)
    then have "unat (B + ucast ((c - 2) mod 8) * I) = 2 ^ h + (?a mod 8) * 2 ^ (h - 3)"
      by (simp add: unat_word_ariths base inc sub)
    moreover have "DecodeRcvWindow c = B + ucast ((c - 2) mod 8) * I"
      using nc by (simp add: DecodeRcvWindow_def Let_def unat_div a B_def h_def I_def)
    ultimately show ?thesis
      using nc 3 by (simp only: rwnd_value_def e) (simp add: h_def algebra_simps)
  qed (simp_all add: DecodeRcvWindow_def rwnd_value_def)
qed

subsection \<open>What the code keeps of a window\<close>

text \<open>Window and code from the exponent \<open>h\<close> and the four leading bits \<open>q\<close>.\<close>

lemma rwnd_code_top:
  assumes "2 ^ h \<le> n" and "n < 2 ^ Suc h" and "8 \<le> h"
  shows "rwnd_code n = min 255 (8 * (h - 8) + (n div 2 ^ (h - 3) - 8) + 2)"
proof -
  have "(2 :: nat) ^ 8 \<le> 2 ^ h" using assms(3) by (intro power_increasing) auto
  with assms show ?thesis
    by (simp add: rwnd_code_def bits_len_eqI[OF assms(1,2)] Let_def)
qed

lemma rwnd_value_top:
  assumes "8 \<le> h" and "8 \<le> q" and "q < 16"
  shows "rwnd_value (8 * (h - 8) + (q - 8) + 2) = q * 2 ^ (h - 3)"
proof -
  obtain r where r: "q = 8 + r" "r < 8"
    using assms(2,3) le_Suc_ex[of 8 q] by auto
  then have "(8 * (h - 8) + (q - 8)) div 8 = h - 8" "(8 * (h - 8) + (q - 8)) mod 8 = q - 8"
    by simp_all
  moreover have "h - 8 + 5 = h - 3" using assms(1) by simp
  ultimately show ?thesis using assms(2) by (simp add: rwnd_value_def)
qed

lemma rwnd_saturated_ge:
  assumes "255 \<le> 8 * (h - 8) + (q - 8) + 2" and "8 \<le> q" and "q < 16"
  shows "13 * 2 ^ 36 \<le> q * (2 :: nat) ^ (h - 3)"
proof (cases "h = 39")
  case True
  with assms have "13 \<le> q" by simp
  with True show ?thesis by simp
next
  case False
  with assms have "37 \<le> h - 3" by simp
  then have "(2 :: nat) ^ 37 \<le> 2 ^ (h - 3)" by (intro power_increasing) auto
  with assms(2) have "8 * 2 ^ 37 \<le> q * (2 :: nat) ^ (h - 3)" by (intro mult_le_mono) auto
  then show ?thesis by simp
qed

lemma rwnd_roundtrip_cases:
  assumes "256 \<le> n"
  obtains h q where "q = n div 2 ^ (h - 3)" "8 \<le> h" "8 \<le> q" "q < 16" "q * 2 ^ (h - 3) \<le> n"
    "n < (q + 1) * 2 ^ (h - 3)" "rwnd_code n = min 255 (8 * (h - 8) + (q - 8) + 2)"
proof -
  obtain h where h: "8 \<le> h" "2 ^ h \<le> n" "n < 2 ^ Suc h"
    using assms high_bit_ge_8 by blast
  define q where "q = n div 2 ^ (h - 3)"
  have "q * 2 ^ (h - 3) \<le> n" by (simp add: q_def)
  moreover have "n < (q + 1) * 2 ^ (h - 3)"
    using dividend_less_div_times[of "2 ^ (h - 3)" n] by (simp add: q_def)
  ultimately show thesis
    using that[of q h] h top_bits[of h n] rwnd_code_top[of h n] by (simp add: q_def)
qed

lemma rwnd_value_le: "128 \<le> n \<Longrightarrow> rwnd_value (rwnd_code n) \<le> n"
proof (cases "256 \<le> n")
  case True
  then obtain h q where *: "8 \<le> h" "8 \<le> q" "q < 16" "q * 2 ^ (h - 3) \<le> n"
    "rwnd_code n = min 255 (8 * (h - 8) + (q - 8) + 2)"
    by (rule rwnd_roundtrip_cases)
  show ?thesis
  proof (cases "8 * (h - 8) + (q - 8) + 2 \<le> 255")
    case True
    with * show ?thesis by (simp only: rwnd_value_top min.absorb2)
  next
    case False
    then have "rwnd_value (rwnd_code n) = 13 * 2 ^ 36"
      using * by (simp add: rwnd_value_def)
    with rwnd_saturated_ge[of h q] False * show ?thesis by linarith
  qed
qed (simp add: rwnd_code_def rwnd_value_def)

lemma rwnd_relative_error:
  assumes "256 \<le> n" and "n < 14 * 2 ^ 36"
  shows "8 * (n - rwnd_value (rwnd_code n)) < n"
proof -
  obtain h q where *: "8 \<le> h" "8 \<le> q" "q < 16" "q * 2 ^ (h - 3) \<le> n"
    "n < (q + 1) * 2 ^ (h - 3)" "rwnd_code n = min 255 (8 * (h - 8) + (q - 8) + 2)"
    using assms(1) by (rule rwnd_roundtrip_cases)
  have "8 * (h - 8) + (q - 8) + 2 \<le> 255"
  proof (rule ccontr)
    assume big: "\<not> ?thesis"
    have "14 * 2 ^ 36 \<le> q * (2 :: nat) ^ (h - 3)"
    proof (cases "h = 39")
      case True
      with big * have "14 \<le> q" by simp
      with True show ?thesis by simp
    next
      case False
      with big * have "37 \<le> h - 3" by simp
      then have "(2 :: nat) ^ 37 \<le> 2 ^ (h - 3)" by (intro power_increasing) auto
      with *(2) have "8 * 2 ^ 37 \<le> q * (2 :: nat) ^ (h - 3)" by (intro mult_le_mono) auto
      then show ?thesis by simp
    qed
    with * assms(2) show False by linarith
  qed
  then have "rwnd_value (rwnd_code n) = q * 2 ^ (h - 3)"
    using * by (simp only: rwnd_value_top min.absorb2)
  moreover have "8 * 2 ^ (h - 3) \<le> q * (2 :: nat) ^ (h - 3)" using *(2) by simp
  moreover have "n < q * 2 ^ (h - 3) + 2 ^ (h - 3)" using *(5) by simp
  ultimately show ?thesis using *(4) by linarith
qed

lemma rwnd_code_value: "c \<le> 255 \<Longrightarrow> rwnd_code (rwnd_value c) = c"
proof (cases "2 \<le> c")
  case True
  assume "c \<le> 255"
  define h q where "h = (c - 2) div 8 + 8" and "q = (c - 2) mod 8 + 8"
  have q: "8 \<le> q" "q < 16" by (simp_all add: q_def)
  have h: "8 \<le> h" by (simp add: h_def)
  have c: "c = 8 * (h - 8) + (q - 8) + 2" using True by (simp add: h_def q_def)
  have v: "rwnd_value c = q * 2 ^ (h - 3)" using rwnd_value_top[OF h q] c by simp
  have e: "(2 :: nat) ^ h = 8 * 2 ^ (h - 3)" "(2 :: nat) ^ Suc h = 16 * 2 ^ (h - 3)"
    using power_add[of "2 :: nat" "h - 3" 3] h by simp_all
  have "rwnd_code (q * 2 ^ (h - 3)) = min 255 (8 * (h - 8) + (q * 2 ^ (h - 3) div 2 ^ (h - 3) - 8) + 2)"
    using q h by (intro rwnd_code_top) (simp_all only: e mult_le_mono1 mult_less_mono1 zero_less_power zero_less_numeral)
  then show ?thesis using v c \<open>c \<le> 255\<close> by simp
next
  case False
  then have "c = 0 \<or> c = 1" by linarith
  then show ?thesis by (elim disjE) (simp_all add: rwnd_code_def rwnd_value_def)
qed

lemma rwnd_code_mono:
  assumes "m \<le> n"
  shows "rwnd_code m \<le> rwnd_code n"
proof (cases "256 \<le> m")
  case True
  with assms have "256 \<le> n" by simp
  obtain h where h: "8 \<le> h" "2 ^ h \<le> m" "m < 2 ^ Suc h" using True high_bit_ge_8 by blast
  obtain i where i: "8 \<le> i" "2 ^ i \<le> n" "n < 2 ^ Suc i" using \<open>256 \<le> n\<close> high_bit_ge_8 by blast
  have "(2 :: nat) ^ h < 2 ^ Suc i" using h i assms by linarith
  then have "h < Suc i"
    by (simp only: power_strict_increasing_iff one_less_numeral_iff semiring_norm)
  note codes = rwnd_code_top[OF h(2,3,1)] rwnd_code_top[OF i(2,3,1)]
  show ?thesis
  proof (cases "h = i")
    case True
    have "m div 2 ^ (h - 3) \<le> n div 2 ^ (h - 3)" using assms by (rule div_le_mono)
    then have "m div 2 ^ (h - 3) - 8 \<le> n div 2 ^ (i - 3) - 8" using True by simp
    with True show ?thesis by (simp only: codes min.mono order_refl add_le_mono)
  next
    case False
    with \<open>h < Suc i\<close> have "h - 8 < i - 8" using h(1) by simp
    with top_bits[OF h(2,3,1)] have
      "8 * (h - 8) + (m div 2 ^ (h - 3) - 8) + 2 \<le> 8 * (i - 8) + (n div 2 ^ (i - 3) - 8) + 2"
      by linarith
    then show ?thesis by (simp only: codes min.mono order_refl)
  qed
next
  case False
  show ?thesis
  proof (cases "256 \<le> n")
    case True
    then obtain i where i: "8 \<le> i" "2 ^ i \<le> n" "n < 2 ^ Suc i" using high_bit_ge_8 by blast
    have "1 \<le> rwnd_code n" by (simp add: rwnd_code_top[OF i(2,3,1)])
    moreover have "rwnd_code m \<le> 1" using False by (simp add: rwnd_code_def)
    ultimately show ?thesis by linarith
  next
    case n: False
    with False assms show ?thesis by (simp add: rwnd_code_def)
  qed
qed

section \<open>Payloads\<close>

definition calcProtoOverhead :: "bool \<Rightarrow> bool \<Rightarrow> bool \<Rightarrow> nat" where
  "calcProtoOverhead isAck isExtend isEmptyDataHeader =
     (let overhead = 1;
          extBytes = (if isExtend then 6 else 3);
          overhead = (if \<not> isEmptyDataHeader then overhead + (4 + extBytes) else overhead)
      in if isAck then overhead + (4 + extBytes + 2 + 1) else overhead)"

definition EncodePayload :: "PayloadHeader \<Rightarrow> bytes option \<Rightarrow> (bytes \<times> nat) option" where
  "EncodePayload p userData =
     (let isAck = (ph_Ack p \<noteq> None);
          isEmptyDataHeader = (\<not> ph_IsClose p \<and> isAck \<and> userData = None);
          header = ProtoVersion;
          header =
            (if ph_IsClose p \<and> isAck then header OR push_bit TypeFlag 0b10
             else if ph_IsClose p then header OR push_bit TypeFlag 0b11
             else if isAck then header OR push_bit TypeFlag 0b00
             else header OR push_bit TypeFlag 0b01);
          isExtend = (ph_StreamOffset p > 0xffffff \<or>
            (case ph_Ack p of None \<Rightarrow> False | Some a \<Rightarrow> ack_offset a > 0xffffff));
          header = (if isExtend then header OR push_bit Offset24or48Flag 1 else header);
          overhead = calcProtoOverhead isAck isExtend isEmptyDataHeader;
          data = (case userData of None \<Rightarrow> [] | Some d \<Rightarrow> d);
          userDataLen = length data;
          encoded = replicate (overhead + userDataLen) 0
      in do {
        (encoded, off) \<leftarrow> at_slice encoded 0 (put_byte header);
        (encoded, off) \<leftarrow>
          (case ph_Ack p of
             None \<Rightarrow> Some (encoded, off)
           | Some a \<Rightarrow> do {
               (encoded, off) \<leftarrow> at_slice encoded off (\<lambda>s. PutUint32 s (ack_streamID a));
               (encoded, off) \<leftarrow> at_slice encoded off (\<lambda>s. putOffsetVarint s (ack_offset a) isExtend);
               (encoded, off) \<leftarrow> at_slice encoded off (\<lambda>s. PutUint16 s (ack_len a));
               at_slice encoded off (put_byte (EncodeRcvWindow (ack_rcvWnd a)))
             });
        if isEmptyDataHeader then Some (encoded, off)
        else do {
          (encoded, off) \<leftarrow> at_slice encoded off (\<lambda>s. PutUint32 s (ph_StreamID p));
          (encoded, off) \<leftarrow> at_slice encoded off (\<lambda>s. putOffsetVarint s (ph_StreamOffset p) isExtend);
          if userDataLen > 0 then at_slice encoded off (\<lambda>s. Some (go_copy s data))
          else Some (encoded, off)
        }
      })"

definition DecodePayload :: "bytes \<Rightarrow> (PayloadHeader \<times> bytes option) result" where
  "DecodePayload data =
     (let dataLen = length data in
      if dataLen < MinProtoSize then Inl (Err ''payload Size below minimum of 8 bytes'')
      else and_then (read_at data 0 get_byte) (\<lambda>header.
        let version = header AND 0b11111;
            typeFlag = drop_bit TypeFlag header AND 0b11;
            isExtend = (header AND push_bit Offset24or48Flag 1 \<noteq> 0)
        in if version \<noteq> ProtoVersion then Inl (Err ''unsupported protocol version'')
        else
          let isAck = (typeFlag = 0b00 \<or> typeFlag = 0b10);
              isClose = (typeFlag = 0b10 \<or> typeFlag = 0b11);
              isEmptyDataHeader = (isAck \<and> dataLen < 18);
              off = 1;
              overhead = calcProtoOverhead isAck isExtend isEmptyDataHeader
          in if dataLen < overhead then Inl (Err ''payload size below minimum'')
          else and_then
            (if isAck then
               and_then (read_at data off Uint32) (\<lambda>sid.
               and_then (read_at data (off + 4) (\<lambda>b. offsetVarint b isExtend)) (\<lambda>o1.
               and_then (read_at data (off + 4 + offsetSize isExtend) Uint16) (\<lambda>ln.
               and_then (read_at data (off + 4 + offsetSize isExtend + 2) get_byte) (\<lambda>w.
                 Inr (Some \<lparr>ack_streamID = sid, ack_offset = o1, ack_len = ln,
                            ack_rcvWnd = DecodeRcvWindow w\<rparr>,
                      off + 4 + offsetSize isExtend + 2 + 1)))))
             else Inr (None, off))
            (\<lambda>(ack, off).
              if \<not> isEmptyDataHeader then
                and_then (read_at data off Uint32) (\<lambda>sid.
                and_then (read_at data (off + 4) (\<lambda>b. offsetVarint b isExtend)) (\<lambda>o2.
                  let off = off + 4 + offsetSize isExtend in
                  Inr (\<lparr>ph_IsClose = isClose, ph_Ack = ack, ph_StreamID = sid,
                         ph_StreamOffset = o2\<rparr>,
                       Some (if dataLen > off then drop off data else []))))
              else
                Inr (\<lparr>ph_IsClose = isClose, ph_Ack = ack, ph_StreamID = 0,
                       ph_StreamOffset = 0\<rparr>, None))))"

subsection \<open>The layout of an encoded payload\<close>

definition needsExtend :: "PayloadHeader \<Rightarrow> bool" where
  "needsExtend p \<longleftrightarrow> ph_StreamOffset p > 0xffffff \<or>
     (case ph_Ack p of None \<Rightarrow> False | Some a \<Rightarrow> ack_offset a > 0xffffff)"

definition isAckOnly :: "PayloadHeader \<Rightarrow> bytes option \<Rightarrow> bool" where
  "isAckOnly p userData \<longleftrightarrow> \<not> ph_IsClose p \<and> ph_Ack p \<noteq> None \<and> userData = None"

definition payloadHeaderByte :: "bool \<Rightarrow> bool \<Rightarrow> bool \<Rightarrow> u8" where
  "payloadHeaderByte isClose isAck isExtend =
     (if isClose then (if isAck then 0x40 else 0x60) else (if isAck then 0 else 0x20)) +
     (if isExtend then 0x80 else 0)"

definition ackBytes :: "bool \<Rightarrow> Ack \<Rightarrow> bytes" where
  "ackBytes e a =
     le_bytes 4 (ack_streamID a) @ le_bytes (offsetSize e) (ack_offset a) @
     le_bytes 2 (ack_len a) @ [EncodeRcvWindow (ack_rcvWnd a)]"

definition streamBytes :: "bool \<Rightarrow> PayloadHeader \<Rightarrow> bytes" where
  "streamBytes e p =
     le_bytes 4 (ph_StreamID p) @ le_bytes (offsetSize e) (ph_StreamOffset p)"

definition payloadBytes :: "PayloadHeader \<Rightarrow> bytes option \<Rightarrow> bytes" where
  "payloadBytes p userData =
     payloadHeaderByte (ph_IsClose p) (ph_Ack p \<noteq> None) (needsExtend p) #
     (case ph_Ack p of None \<Rightarrow> [] | Some a \<Rightarrow> ackBytes (needsExtend p) a) @
     (if isAckOnly p userData then []
      else streamBytes (needsExtend p) p @ (case userData of None \<Rightarrow> [] | Some d \<Rightarrow> d))"

lemma calcProtoOverhead_eq:
  "calcProtoOverhead isAck e m =
   1 + (if isAck then 7 + offsetSize e else 0) + (if m then 0 else 4 + offsetSize e)"
  by (simp add: calcProtoOverhead_def offsetSize_def)

lemma EncodePayload_eq:
  "EncodePayload p userData = Some (payloadBytes p userData, length (payloadBytes p userData))"
proof -
  define e where "e = needsExtend p"
  define w where "w = offsetSize e"
  note zero = zbuf_def[of "[]", simplified, symmetric]
  note steps = codec_simps ofc.at_slice_put[of _ _ e, folded w_def] e_def[symmetric] w_def[symmetric]
  have e': "(ph_StreamOffset p > 0xffffff \<or>
    (case ph_Ack p of None \<Rightarrow> False | Some a \<Rightarrow> ack_offset a > 0xffffff)) = e"
    by (simp add: e_def needsExtend_def)
  show ?thesis
    unfolding EncodePayload_def e' Let_def calcProtoOverhead_eq zero
    by (cases "ph_Ack p"; cases userData; cases "ph_IsClose p"; cases e)
       (simp_all add: steps payloadBytes_def isAckOnly_def ackBytes_def streamBytes_def
          payloadHeaderByte_def proto_consts)
qed

subsection \<open>Decoding\<close>

lemma DecodePayload_no_panic: "DecodePayload data \<noteq> Inl (Panic m)"
proof (cases "length data < 8")
  case True
  then show ?thesis by (simp add: DecodePayload_def proto_consts)
next
  case False
  then have "0 < length data" by linarith
  with False show ?thesis
    unfolding DecodePayload_def Let_def calcProtoOverhead_eq
    by (auto simp: codec_simps proto_consts and_then_eq_Inl split: if_splits)
qed

text \<open>What the peer decodes from an encoded payload: the window is rounded to its code, an
  ack-only packet has no stream fields, and a nil slice that is not ack-only arrives as an
  empty one.\<close>

definition transmitted :: "PayloadHeader \<Rightarrow> bytes option \<Rightarrow> PayloadHeader \<times> bytes option" where
  "transmitted p userData =
     (let ack = map_option (\<lambda>a. a\<lparr>ack_rcvWnd := DecodeRcvWindow (EncodeRcvWindow (ack_rcvWnd a))\<rparr>)
                  (ph_Ack p)
      in if isAckOnly p userData
         then (p\<lparr>ph_Ack := ack, ph_StreamID := 0, ph_StreamOffset := 0\<rparr>, None)
         else (p\<lparr>ph_Ack := ack\<rparr>, Some (case userData of None \<Rightarrow> [] | Some d \<Rightarrow> d)))"

definition offsetsFit :: "PayloadHeader \<Rightarrow> bool" where
  "offsetsFit p \<longleftrightarrow> unat (ph_StreamOffset p) < 2 ^ 48 \<and>
     (case ph_Ack p of None \<Rightarrow> True | Some a \<Rightarrow> unat (ack_offset a) < 2 ^ 48)"

lemma offset_fits:
  fixes x :: u64
  shows "\<not> x > 0xffffff \<Longrightarrow> take_bit 24 x = x" and "unat x < 2 ^ 48 \<Longrightarrow> take_bit 48 x = x"
  by (rule take_bit_word_eq_self, simp add: word_less_nat_alt) (rule take_bit_word_eq_self)

lemma DecodePayload_payloadBytes:
  assumes "offsetsFit p"
  shows "DecodePayload (payloadBytes p userData) = Inr (transmitted p userData)"
proof -
  define e where "e = needsExtend p"
  have fit: "take_bit (8 * offsetSize e) (ph_StreamOffset p) = ph_StreamOffset p"
    "ph_Ack p = Some a \<Longrightarrow> take_bit (8 * offsetSize e) (ack_offset a) = ack_offset a" for a
    using assms by (auto simp: e_def offsetSize_def needsExtend_def offsetsFit_def offset_fits)
  have sizes: "\<not> offsetSize x < 3" "take_bit 32 (u :: u32) = u" "take_bit 16 (v :: u16) = v" for x u v
    using unsigned_less[of u, where 'a = nat] unsigned_less[of v, where 'a = nat]
    by (simp_all add: offsetSize_def take_bit_word_eq_self)
  have flags: "payloadHeaderByte c a x AND 0b11111 = 0"
    "(payloadHeaderByte c a x AND 128 = 0) = (\<not> x)"
    "drop_bit 5 (payloadHeaderByte c a x) AND 0b11 =
      (if c then (if a then 0b10 else 0b11) else (if a then 0 else 0b01))" for c a x
    by (auto simp: payloadHeaderByte_def)
  show ?thesis
    unfolding payloadBytes_def e_def[symmetric]
    using fit
    by (cases e; cases p; cases "ph_Ack p"; cases userData; cases "ph_IsClose p")
       (simp_all add: DecodePayload_def Let_def transmitted_def calcProtoOverhead_eq proto_consts
          flags sizes offsetSize_def offsetVarint_def isAckOnly_def ackBytes_def streamBytes_def read_at_def get_byte_def
          codec_simps del: le_bytes_numeral)
qed

section \<open>Properties\<close>

text \<open>
  C14: Encoding a payload whose offsets fit 48 bits and decoding it gives back its flags, its
  stream id and offset, its acknowledgement and its data; the window arrives as its code, an
  acknowledgement without data has no stream fields, and a missing data slice arrives empty.
\<close>
theorem payload_roundtrip:
  assumes "offsetsFit p"
  shows "\<exists>encoded. EncodePayload p userData = Some (encoded, length encoded) \<and>
    DecodePayload encoded = Inr (transmitted p userData)"
  using EncodePayload_eq DecodePayload_payloadBytes[OF assms] by blast

theorem payload_roundtrip_witness:
  "\<exists>encoded. EncodePayload \<lparr>ph_IsClose = True, ph_Ack = None, ph_StreamID = 7, ph_StreamOffset = 0x1000000\<rparr>
      (Some [1, 2]) = Some (encoded, 13) \<and>
    DecodePayload encoded =
      Inr (\<lparr>ph_IsClose = True, ph_Ack = None, ph_StreamID = 7, ph_StreamOffset = 0x1000000\<rparr>, Some [1, 2])"
  using payload_roundtrip[of "\<lparr>ph_IsClose = True, ph_Ack = None, ph_StreamID = 7, ph_StreamOffset = 0x1000000\<rparr>" "Some [1, 2]"]
  by (auto simp: offsetsFit_def transmitted_def isAckOnly_def EncodePayload_eq payloadBytes_def
      streamBytes_def needsExtend_def offsetSize_def)

lemma DecodePayload_accepts:
  assumes "8 \<le> length data" and "hd data AND 0b11111 = 0"
    and "isAck \<longleftrightarrow> drop_bit 5 (hd data) AND 0b11 \<in> {0b00, 0b10}"
    and "isExtend \<longleftrightarrow> hd data AND 0x80 \<noteq> 0"
  shows "(\<exists>r. DecodePayload data = Inr r) \<longleftrightarrow>
    calcProtoOverhead isAck isExtend (isAck \<and> length data < 18) \<le> length data"
proof -
  have h: "read_at data 0 get_byte = Inr (hd data)"
    using assms(1) by (cases data) (auto simp: read_at_def get_byte_def)
  show ?thesis
    unfolding DecodePayload_def Let_def calcProtoOverhead_eq h assms(3,4)
    using assms(1,2) by (auto simp: codec_simps proto_consts and_then_simps offsetSize_def split: if_splits)
qed

lemma DecodePayload_rejects:
  assumes "length data < 8 \<or> hd data AND 0b11111 \<noteq> 0"
  shows "\<not> (\<exists>r. DecodePayload data = Inr r)"
proof (cases "length data < 8")
  case False
  then have "read_at data 0 get_byte = Inr (hd data)"
    by (cases data) (auto simp: read_at_def get_byte_def)
  then show ?thesis
    using assms False by (simp add: DecodePayload_def proto_consts and_then_simps Let_def)
qed (simp add: DecodePayload_def proto_consts)

text \<open>
  C25: Decoding is total on arbitrary bytes from the network: it never panics, and it accepts
  exactly the slices of at least eight bytes with version zero whose length covers the
  overhead that their own type and extension flags announce.
\<close>
theorem payload_decode_total:
  "(\<forall>m. DecodePayload data \<noteq> Inl (Panic m)) \<and>
   ((\<exists>r. DecodePayload data = Inr r) \<longleftrightarrow>
      8 \<le> length data \<and> hd data AND 0b11111 = 0 \<and>
      (let isAck = (drop_bit 5 (hd data) AND 0b11 \<in> {0b00, 0b10});
           isExtend = (hd data AND 0x80 \<noteq> 0)
       in calcProtoOverhead isAck isExtend (isAck \<and> length data < 18) \<le> length data))"
proof (cases "length data < 8 \<or> hd data AND 0b11111 \<noteq> 0")
  case True
  then show ?thesis using DecodePayload_no_panic DecodePayload_rejects[OF True] by auto
next
  case False
  then have "8 \<le> length data" "hd data AND 0b11111 = 0" by auto
  from DecodePayload_accepts[OF this refl refl] this show ?thesis
    using DecodePayload_no_panic by (simp add: Let_def)
qed

text \<open>
  The size arithmetic agrees with the encoder: the encoded payload is exactly the computed
  overhead plus the user data, for every combination of flags.
\<close>
theorem payload_length:
  "EncodePayload p userData = Some (encoded, n) \<Longrightarrow>
   n = length encoded \<and>
   length encoded = calcProtoOverhead (ph_Ack p \<noteq> None) (needsExtend p) (isAckOnly p userData) +
     (case userData of None \<Rightarrow> 0 | Some d \<Rightarrow> length d)"
  by (auto simp: EncodePayload_eq payloadBytes_def calcProtoOverhead_eq ackBytes_def streamBytes_def
      isAckOnly_def split: option.splits)

theorem payload_length_witness:
  "\<exists>encoded n. EncodePayload \<lparr>ph_IsClose = False, ph_Ack = None, ph_StreamID = 1, ph_StreamOffset = 0\<rparr>
     (Some [1, 2, 3]) = Some (encoded, n) \<and> length encoded = 11"
  using payload_length[of "\<lparr>ph_IsClose = False, ph_Ack = None, ph_StreamID = 1, ph_StreamOffset = 0\<rparr>" "Some [1, 2, 3]"]
  by (simp add: EncodePayload_eq calcProtoOverhead_def needsExtend_def isAckOnly_def)

text \<open>
  C26: The receive window a peer decodes is never larger than the one encoded, from 128 bytes
  on. Below 256 bytes it is 128 bytes, and from 256 bytes up to 896 GB it is smaller by less
  than an eighth.
\<close>
theorem rcv_window_sound:
  assumes "128 \<le> unat w"
  shows "DecodeRcvWindow (EncodeRcvWindow w) \<le> w \<and>
    (unat w < 256 \<longrightarrow> DecodeRcvWindow (EncodeRcvWindow w) = 128) \<and>
    (256 \<le> unat w \<and> unat w < 14 * 2 ^ 36 \<longrightarrow> 8 * (unat w - unat (DecodeRcvWindow (EncodeRcvWindow w))) < unat w)"
proof (intro conjI)
  show "unat w < 256 \<longrightarrow> DecodeRcvWindow (EncodeRcvWindow w) = 128"
    using assms by (auto simp: EncodeRcvWindow_def DecodeRcvWindow_def word_le_nat_alt)
qed (use rwnd_value_le[OF assms] rwnd_relative_error[of "unat w"] in
    \<open>simp_all add: word_le_nat_alt unat_EncodeRcvWindow unat_DecodeRcvWindow\<close>)

theorem rcv_window_sound_witness:
  "8 * (unat (1000 :: u64) - unat (DecodeRcvWindow (EncodeRcvWindow 1000))) < unat (1000 :: u64) \<and>
   DecodeRcvWindow (EncodeRcvWindow 255) = 128"
  using rcv_window_sound[of 1000] rcv_window_sound[of 255] by simp

text \<open>
  C27: The window code is canonical and monotone: encoding what a code decodes to gives the
  code again, so all 256 codes are used, and a larger window never gets a smaller code.
\<close>
theorem rcv_window_code:
  "EncodeRcvWindow (DecodeRcvWindow c) = c \<and> (w \<le> w' \<longrightarrow> EncodeRcvWindow w \<le> EncodeRcvWindow w')"
proof -
  have "unat c \<le> 255" using unsigned_less[of c, where 'a = nat] by simp
  then have "unat (EncodeRcvWindow (DecodeRcvWindow c)) = unat c"
    by (simp add: unat_EncodeRcvWindow unat_DecodeRcvWindow rwnd_code_value)
  then have "EncodeRcvWindow (DecodeRcvWindow c) = c" by (rule unsigned_word_eqI)
  moreover have "EncodeRcvWindow w \<le> EncodeRcvWindow w'" if "w \<le> w'"
    using rwnd_code_mono[of "unat w" "unat w'"] that by (simp add: word_le_nat_alt unat_EncodeRcvWindow)
  ultimately show ?thesis by blast
qed

theorem rcv_window_code_witness: "EncodeRcvWindow (DecodeRcvWindow 200) = 200 \<and> EncodeRcvWindow 5000 \<le> EncodeRcvWindow 6000"
  using rcv_window_code[of 200 5000 6000] by simp

text \<open>A window below 128 bytes is advertised as 128, and the largest code stands for 832 GB.\<close>

lemma small_window_over_advertised:
  assumes "0 < unat w" and "unat w < 128"
  shows "DecodeRcvWindow (EncodeRcvWindow w) > w"
proof -
  have "rwnd_value (rwnd_code (unat w)) = 128"
    using assms by (simp add: rwnd_code_def rwnd_value_def)
  then show ?thesis using assms by (simp add: word_less_nat_alt unat_EncodeRcvWindow unat_DecodeRcvWindow)
qed

lemma largest_window: "unat (DecodeRcvWindow 255) = 832 * 2 ^ 30"
  by (simp add: unat_DecodeRcvWindow rwnd_value_def)

end
