(* ===== verification/Indexed_Chain.thy ===== *)
theory Indexed_Chain
  imports Qotp_Prelude
begin

text \<open>
  What the two maps of the program have in common: a doubly linked chain of nodes between
  two sentinels, and an index from keys to the nodes of the chain. The links are read as
  functions from addresses to optional addresses, so that a store of any node type can be
  seen through them, and a pointer update is a function update. The lemmas are the shape
  facts the map theories need: finding a node and its neighbours, linking a node in,
  unlinking one, overwriting what one holds.
\<close>

type_synonym addr = nat

type_synonym links = "addr \<Rightarrow> addr option"

type_synonym ('k, 'v) contents = "addr \<Rightarrow> ('k \<times> 'v option) option"

section \<open>Chains\<close>

fun dll :: "links \<Rightarrow> links \<Rightarrow> addr list \<Rightarrow> bool" where
  "dll nx pv (a # b # xs) = (nx a = Some b \<and> pv b = Some a \<and> dll nx pv (b # xs))"
| "dll nx pv _ = True"

lemma dll_append: "dll nx pv (xs @ a # ys) \<longleftrightarrow> dll nx pv (xs @ [a]) \<and> dll nx pv (a # ys)"
  by (induction xs rule: induct_list012) simp_all

lemma dll_cong:
  assumes "\<And>a. a \<in> set (butlast L) \<Longrightarrow> nx' a = nx a"
    and "\<And>a. a \<in> set (tl L) \<Longrightarrow> pv' a = pv a"
  shows "dll nx' pv' L = dll nx pv L"
  using assms
proof (induction L rule: induct_list012)
  case (3 x y zs)
  have "dll nx' pv' (y # zs) = dll nx pv (y # zs)"
    using "3.prems" by (intro "3.IH"(2)) (auto split: if_splits dest: in_set_butlastD)
  then show ?case using "3.prems" by (simp split: if_splits)
qed simp_all

lemma dll_pieces:
  assumes "dll nx pv (zs @ p # q # qs)"
  shows "dll nx pv (zs @ [p])" "nx p = Some q" "pv q = Some p" "dll nx pv (q # qs)"
  using assms dll_append[of nx pv zs p "q # qs"] by simp_all

lemma dll_keep:
  assumes "distinct (zs @ p # q # qs)"
  shows "dll nx pv (zs @ [p]) \<Longrightarrow> x \<notin> set zs \<Longrightarrow> y \<notin> set (zs @ [p]) \<Longrightarrow>
           dll (nx(x := u)) (pv(y := v)) (zs @ [p])"
    and "dll nx pv (q # qs) \<Longrightarrow> x \<notin> set (q # qs) \<Longrightarrow> y \<notin> set qs \<Longrightarrow>
           dll (nx(x := u)) (pv(y := v)) (q # qs)"
  by (subst dll_cong[where nx = nx and pv = pv];
      auto simp: tl_append split: list.splits if_splits dest: in_set_butlastD)+

lemma dll_link:
  assumes "dll nx pv (zs @ p # q # qs)" and "distinct (zs @ p # q # qs)"
    and "a \<notin> set (zs @ p # q # qs)"
  shows "dll (nx(a := Some q, p := Some a)) (pv(a := Some p, q := Some a)) (zs @ p # a # q # qs)"
proof -
  note d = dll_pieces[OF assms(1)]
  let ?nx = "nx(a := Some q, p := Some a)" and ?pv = "pv(a := Some p, q := Some a)"
  have "dll ?nx ?pv (zs @ [p])" "dll ?nx ?pv (q # qs)"
    using assms(2,3) d by (intro dll_keep[OF assms(2)]; auto)+
  then show ?thesis
    using assms(2,3) by (subst dll_append) auto
qed

lemma dll_unlink:
  assumes "dll nx pv (zs @ p # a # q # qs)" and "distinct (zs @ p # a # q # qs)"
  shows "dll (nx(p := Some q)) (pv(q := Some p)) (zs @ p # q # qs)"
proof -
  have d: "dll nx pv (zs @ [p])" "dll nx pv (q # qs)"
    using assms(1) dll_pieces[of nx pv zs p a "q # qs"] by simp_all
  have pq: "distinct (zs @ p # q # qs)" using assms(2) by auto
  have "dll (nx(p := Some q)) (pv(q := Some p)) (zs @ [p])" "dll (nx(p := Some q)) (pv(q := Some p)) (q # qs)"
    using assms(2) d by (intro dll_keep[OF pq]; auto)+
  then show ?thesis
    using assms(2) by (subst dll_append) auto
qed

section \<open>The index\<close>

lemma map_of_mid:
  "k \<notin> fst ` set A \<Longrightarrow> map_of (A @ (k, a) # B) = (map_of (A @ B))(k \<mapsto> a)"
  by (induction A) (auto simp: fun_upd_twist)

lemma index_split:
  assumes len: "length xs = length us" and d: "distinct (map fst (us @ (k, v) # ws))"
  shows "(map_of (zip (map fst (us @ (k, v) # ws)) (xs @ a # ys)))(k := None) =
         map_of (zip (map fst (us @ ws)) (xs @ ys))" (is "?lhs = map_of (zip _ _)")
proof -
  let ?A = "zip (map fst us) xs" and ?B = "zip (map fst ws) ys"
  have z: "zip (map fst (us @ (k, v) # ws)) (xs @ a # ys) = ?A @ (k, a) # ?B"
    "zip (map fst (us @ ws)) (xs @ ys) = ?A @ ?B"
    using len by simp_all
  have k: "k \<notin> fst ` set ?A" "k \<notin> fst ` set ?B" using d by (auto dest: set_zip_leftD)
  then have none: "map_of (?A @ ?B) k = None" by (simp add: map_of_eq_None_iff image_Un)
  show ?thesis
    by (simp only: z map_of_mid[OF k(1)] fun_upd_upd none[symmetric] fun_upd_triv)
qed

lemma index_insert:
  assumes len: "length xs = length us" and k: "k \<notin> fst ` set us"
  shows "map_of (zip (map fst (us @ (k, v) # ws)) (xs @ a # ys)) =
         (map_of (zip (map fst (us @ ws)) (xs @ ys)))(k \<mapsto> a)"
proof -
  let ?A = "zip (map fst us) xs" and ?B = "zip (map fst ws) ys"
  have z: "zip (map fst (us @ (k, v) # ws)) (xs @ a # ys) = ?A @ (k, a) # ?B"
    "zip (map fst (us @ ws)) (xs @ ys) = ?A @ ?B"
    using len by simp_all
  have "k \<notin> fst ` set ?A" using k by (auto dest: set_zip_leftD)
  from map_of_mid[OF this] show ?thesis by (simp only: z)
qed

section \<open>Indexed chains\<close>

definition holds :: "('k, 'v) contents \<Rightarrow> addr \<Rightarrow> 'k \<times> 'v \<Rightarrow> bool" where
  "holds ct a e \<longleftrightarrow> ct a = Some (fst e, Some (snd e))"

definition chain ::
  "links \<Rightarrow> links \<Rightarrow> ('k, 'v) contents \<Rightarrow> ('k \<rightharpoonup> addr) \<Rightarrow> addr \<Rightarrow> addr \<Rightarrow>
   addr list \<Rightarrow> ('k \<times> 'v) list \<Rightarrow> bool" where
  "chain nx pv ct idx h t as es \<longleftrightarrow>
     dll nx pv (h # as @ [t]) \<and> distinct (h # as @ [t]) \<and> list_all2 (holds ct) as es \<and>
     distinct (map fst es) \<and> idx = map_of (zip (map fst es) as)"

lemma holds_frame:
  "list_all2 (holds ct) as es \<Longrightarrow> (\<And>a. a \<in> set as \<Longrightarrow> ct' a = ct a) \<Longrightarrow> list_all2 (holds ct') as es"
  by (auto simp: list_all2_conv_all_nth holds_def)

lemma chain_length: "chain nx pv ct idx h t as es \<Longrightarrow> length as = length es"
  by (auto simp: chain_def list_all2_lengthD)

lemma chain_index_None: "chain nx pv ct idx h t as es \<Longrightarrow> idx k = None \<longleftrightarrow> k \<notin> fst ` set es"
  using chain_length[of nx pv ct idx h t as es]
  by (auto simp: chain_def map_of_zip_is_None)

lemma chain_lookup:
  assumes c: "chain nx pv ct idx h t as es" and k: "idx k = Some a"
  obtains xs ys us ws v where "as = xs @ a # ys" "es = us @ (k, v) # ws" "length xs = length us"
    "list_all2 (holds ct) xs us" "holds ct a (k, v)" "list_all2 (holds ct) ys ws"
proof -
  note len = chain_length[OF c]
  have hold: "list_all2 (holds ct) as es" and "map_of (zip (map fst es) as) k = Some a"
    using c k by (auto simp: chain_def)
  then have "(k, a) \<in> set (zip (map fst es) as)" by (auto dest: map_of_SomeD)
  then obtain i where i: "i < length es" "fst (es ! i) = k" "as ! i = a"
    using len by (auto simp: set_zip)
  then obtain v where v: "es ! i = (k, v)" by (cases "es ! i") auto
  have as: "as = take i as @ a # drop (Suc i) as" using i len by (metis id_take_nth_drop)
  have es: "es = take i es @ (k, v) # drop (Suc i) es" using i v by (metis id_take_nth_drop)
  have "list_all2 (holds ct) (take i as @ a # drop (Suc i) as) (take i es @ (k, v) # drop (Suc i) es)"
    using hold as es by simp
  then have "list_all2 (holds ct) (take i as) (take i es)" "holds ct a (k, v)"
    "list_all2 (holds ct) (drop (Suc i) as) (drop (Suc i) es)"
    using len by (simp_all add: list_all2_append)
  with that[OF as es] i len show thesis by simp
qed

text \<open>The two neighbours of a position: the sentinels at the ends.\<close>

lemma chain_ends:
  obtains zs p q qs where "h # xs = zs @ [p]" "ys @ [t] = q # qs"
    "\<And>m. h # (xs @ m @ ys) @ [t] = zs @ p # m @ q # qs"
proof -
  obtain zs p where zp: "h # xs = zs @ [p]" by (metis append_butlast_last_id list.distinct(1))
  obtain q qs where q: "ys @ [t] = q # qs" by (cases "ys @ [t]") auto
  have "h # (xs @ m @ ys) @ [t] = zs @ p # m @ q # qs" for m
    using arg_cong[OF zp, of "\<lambda>l. l @ m @ q # qs"] q by simp
  then show thesis by (rule that[OF zp q])
qed

lemma chain_gap:
  assumes "chain nx pv ct idx h t (xs @ ys) es" and "h # xs = zs @ [p]" and "ys @ [t] = q # qs"
  shows "nx p = Some q" "pv q = Some p" "p \<noteq> q"
proof -
  have e: "h # (xs @ ys) @ [t] = zs @ p # q # qs"
    using arg_cong[OF assms(2), of "\<lambda>l. l @ q # qs"] assms(3) by simp
  have "dll nx pv (zs @ p # q # qs)" "distinct (zs @ p # q # qs)"
    using assms(1) unfolding chain_def e by blast+
  then show "nx p = Some q" "pv q = Some p" "p \<noteq> q" by (auto dest: dll_pieces)
qed

lemma chain_neighbours:
  assumes "chain nx pv ct idx h t (xs @ a # ys) es"
  obtains zs p q qs where "h # xs = zs @ [p]" "ys @ [t] = q # qs" "pv a = Some p" "nx a = Some q"
    "nx p = Some a" "pv q = Some a" "distinct (zs @ p # a # q # qs)"
    "dll nx pv (zs @ p # a # q # qs)" "h # (xs @ a # ys) @ [t] = zs @ p # a # q # qs"
proof -
  obtain zs p q qs where e: "h # xs = zs @ [p]" "ys @ [t] = q # qs"
    "\<And>m. h # (xs @ m @ ys) @ [t] = zs @ p # m @ q # qs"
    using chain_ends[of h xs ys t] by metis
  have e': "h # (xs @ a # ys) @ [t] = zs @ p # a # q # qs" using e(3)[of "[a]"] by simp
  have d: "dll nx pv (zs @ p # a # q # qs)" "distinct (zs @ p # a # q # qs)"
    using assms unfolding chain_def e' by blast+
  note l = dll_pieces[OF d(1)]
  have "nx a = Some q" "pv q = Some a" using l(4) by simp_all
  with that[OF e(1,2) l(3) _ l(2) _ d(2,1) e'] show thesis by blast
qed

section \<open>Changes of an indexed chain\<close>

lemma chain_insert:
  assumes c: "chain nx pv ct idx h t (xs @ ys) (us @ ws)" and len: "length xs = length us"
    and e: "h # xs = zs @ [p]" "ys @ [t] = q # qs"
    and a: "a \<notin> set (h # (xs @ ys) @ [t])" and k: "k \<notin> fst ` set (us @ ws)"
    and ct: "ct' a = Some (k, Some v)" "\<And>b. b \<in> set (xs @ ys) \<Longrightarrow> ct' b = ct b"
  shows "chain (nx(a := Some q, p := Some a)) (pv(a := Some p, q := Some a)) ct' (idx(k \<mapsto> a)) h t
           (xs @ a # ys) (us @ (k, v) # ws)"
proof -
  have full: "h # (xs @ m @ ys) @ [t] = zs @ p # m @ q # qs" for m
    using arg_cong[OF e(1), of "\<lambda>l. l @ m @ q # qs"] e(2) by simp
  note full0 = full[of "[]", simplified append_Nil] and full1 = full[of "[a]", simplified append_Cons append_Nil]
  have d: "dll nx pv (zs @ p # q # qs)" "distinct (zs @ p # q # qs)"
    using c unfolding chain_def full0 by blast+
  have a': "a \<notin> set (zs @ p # q # qs)" using a unfolding full0 .
  have "list_all2 (holds ct) (xs @ ys) (us @ ws)" using c by (simp add: chain_def)
  then have "list_all2 (holds ct') (xs @ ys) (us @ ws)" using ct(2) by (rule holds_frame)
  then have h: "list_all2 (holds ct') (xs @ a # ys) (us @ (k, v) # ws)"
    using len ct(1) by (simp add: list_all2_append holds_def)
  have "distinct (zs @ p # a # q # qs)" using d(2) a' by auto
  moreover have "distinct (map fst (us @ (k, v) # ws))" using c k by (auto simp: chain_def)
  moreover have "idx(k \<mapsto> a) = map_of (zip (map fst (us @ (k, v) # ws)) (xs @ a # ys))"
    using c k by (subst index_insert[OF len]) (auto simp: chain_def)
  ultimately show ?thesis
    using dll_link[OF d a'] h unfolding chain_def full1 by blast
qed

lemma chain_remove:
  assumes c: "chain nx pv ct idx h t (xs @ a # ys) (us @ (k, v) # ws)" and len: "length xs = length us"
    and e: "h # xs = zs @ [p]" "ys @ [t] = q # qs"
    and ct: "\<And>b. b \<in> set (xs @ ys) \<Longrightarrow> ct' b = ct b"
  shows "chain (nx(p := Some q)) (pv(q := Some p)) ct' (idx(k := None)) h t (xs @ ys) (us @ ws)"
proof -
  have full: "h # (xs @ m @ ys) @ [t] = zs @ p # m @ q # qs" for m
    using arg_cong[OF e(1), of "\<lambda>l. l @ m @ q # qs"] e(2) by simp
  note full0 = full[of "[]", simplified append_Nil] and full1 = full[of "[a]", simplified append_Cons append_Nil]
  have d: "dll nx pv (zs @ p # a # q # qs)" "distinct (zs @ p # a # q # qs)"
    and keys: "distinct (map fst (us @ (k, v) # ws))"
    using c unfolding chain_def full1 by blast+
  have "list_all2 (holds ct) (xs @ ys) (us @ ws)"
    using c len by (auto simp: chain_def list_all2_append)
  then have "list_all2 (holds ct') (xs @ ys) (us @ ws)" using ct by (rule holds_frame)
  moreover have "idx(k := None) = map_of (zip (map fst (us @ ws)) (xs @ ys))"
    using c by (simp only: chain_def index_split[OF len keys])
  moreover have "distinct (zs @ p # q # qs)" "distinct (map fst (us @ ws))"
    using d(2) keys by auto
  ultimately show ?thesis
    using dll_unlink[OF d] unfolding chain_def full0 by blast
qed

lemma chain_overwrite:
  assumes c: "chain nx pv ct idx h t (xs @ a # ys) (us @ (k, v) # ws)" and len: "length xs = length us"
    and k': "k' = k \<or> k' \<notin> fst ` set (us @ (k, v) # ws)"
    and ct: "ct' a = Some (k', Some v')" "\<And>b. b \<in> set (xs @ ys) \<Longrightarrow> ct' b = ct b"
  shows "chain nx pv ct' (idx(k := None, k' \<mapsto> a)) h t (xs @ a # ys) (us @ (k', v') # ws)"
proof -
  have keys: "distinct (map fst (us @ (k, v) # ws))" using c by (simp add: chain_def)
  have h: "list_all2 (holds ct) xs us" "list_all2 (holds ct) ys ws"
    using c len by (auto simp: chain_def list_all2_append)
  have "list_all2 (holds ct') xs us" "list_all2 (holds ct') ys ws"
    using ct(2) by (auto intro: holds_frame[OF h(1)] holds_frame[OF h(2)])
  then have "list_all2 (holds ct') (xs @ a # ys) (us @ (k', v') # ws)"
    using len ct(1) by (simp add: list_all2_append holds_def)
  moreover have "k' \<notin> fst ` set us" using keys k' by auto
  then have "idx(k := None, k' \<mapsto> a) = map_of (zip (map fst (us @ (k', v') # ws)) (xs @ a # ys))"
    using c by (simp only: chain_def index_split[OF len keys] index_insert[OF len, of k' v' ws a ys] not_False_eq_True)
  moreover have "distinct (map fst (us @ (k', v') # ws))" using keys k' by auto
  ultimately show ?thesis using c by (simp add: chain_def)
qed

end
