(* ===== verification/Map_Interface.thy ===== *)
theory Map_Interface
  imports Qotp_Prelude
begin

text \<open>
  What the buffers rely on of the two maps: the entries of a map, at most one for a key, and
  what put, get and remove do to them. The lemmas for clients are about lookups and about a
  total over the entries, as in the byte counters of the buffers. The linked map and the
  sorted map are the two interpretations.
\<close>

text \<open>How the code reports an optional entry: zero key, nil value and false for none.\<close>

definition entry_result :: "('k::zero \<times> 'v) option \<Rightarrow> 'k \<times> 'v option \<times> bool" where
  "entry_result e = (case e of None \<Rightarrow> (0, None, False) | Some (k, v) \<Rightarrow> (k, Some v, True))"

locale keyed_map =
  fixes entries :: "'m \<Rightarrow> ('k \<times> 'v) list"
    and put :: "'m \<Rightarrow> 'k \<Rightarrow> 'v \<Rightarrow> 'm"
    and remove :: "'m \<Rightarrow> 'k \<Rightarrow> 'm"
    and get :: "'m \<Rightarrow> 'k \<Rightarrow> 'v option"
  assumes distinct_entries: "distinct (map fst (entries m))"
    and get_entries: "get m k = map_of (entries m) k"
    and set_put: "set (entries (put m k v)) = insert (k, v) {e \<in> set (entries m). fst e \<noteq> k}"
    and set_remove: "set (entries (remove m k)) = {e \<in> set (entries m). fst e \<noteq> k}"
begin

lemma get_iff: "get m k = Some v \<longleftrightarrow> (k, v) \<in> set (entries m)"
  using distinct_entries[of m] by (simp add: get_entries)

lemma get_put: "get (put m k v) k' = (if k' = k then Some v else get m k')"
proof -
  have "get (put m k v) k' = Some w \<longleftrightarrow> (if k' = k then Some v else get m k') = Some w" for w
    by (auto simp: get_iff set_put)
  then show ?thesis by (metis not_Some_eq)
qed

lemma get_remove: "get (remove m k) k' = (if k' = k then None else get m k')"
proof -
  have "get (remove m k) k' = Some w \<longleftrightarrow> (if k' = k then None else get m k') = Some w" for w
    by (auto simp: get_iff set_remove)
  then show ?thesis by (metis not_Some_eq)
qed

text \<open>Totals: the entry of the key is taken out, the new one is added.\<close>

lemma total_set: "(\<Sum>e \<leftarrow> entries m. f e) = sum f (set (entries m))" for f :: "'k \<times> 'v \<Rightarrow> nat"
  using distinct_entries[of m] by (simp add: sum_list_distinct_conv_sum_set distinct_map)

lemma total_split:
  fixes f :: "'k \<times> 'v \<Rightarrow> nat"
  shows "(\<Sum>e \<leftarrow> entries m. f e) =
    sum f {e \<in> set (entries m). fst e \<noteq> k} + (case get m k of None \<Rightarrow> 0 | Some v \<Rightarrow> f (k, v))"
proof -
  have "set (entries m) = {e \<in> set (entries m). fst e \<noteq> k} \<union>
      (case get m k of None \<Rightarrow> {} | Some v \<Rightarrow> {(k, v)})"
    by (auto simp: get_iff split: option.splits) (metis get_iff option.distinct(1) option.inject)+
  then have "sum f (set (entries m)) = sum f ({e \<in> set (entries m). fst e \<noteq> k} \<union>
      (case get m k of None \<Rightarrow> {} | Some v \<Rightarrow> {(k, v)}))" by (rule arg_cong)
  also have "\<dots> = sum f {e \<in> set (entries m). fst e \<noteq> k} +
      (case get m k of None \<Rightarrow> 0 | Some v \<Rightarrow> f (k, v))"
    by (subst sum.union_disjoint) (auto split: option.splits)
  finally show ?thesis by (simp only: total_set)
qed

lemma total_put:
  fixes f :: "'k \<times> 'v \<Rightarrow> nat"
  shows "(\<Sum>e \<leftarrow> entries (put m k v). f e) + (case get m k of None \<Rightarrow> 0 | Some w \<Rightarrow> f (k, w)) =
    (\<Sum>e \<leftarrow> entries m. f e) + f (k, v)"
proof -
  have "{e \<in> set (entries (put m k v)). fst e \<noteq> k} = {e \<in> set (entries m). fst e \<noteq> k}"
    by (auto simp: set_put)
  then show ?thesis by (simp add: total_split[of f _ k] get_put)
qed

lemma total_remove:
  fixes f :: "'k \<times> 'v \<Rightarrow> nat"
  shows "(\<Sum>e \<leftarrow> entries (remove m k). f e) + (case get m k of None \<Rightarrow> 0 | Some w \<Rightarrow> f (k, w)) =
    (\<Sum>e \<leftarrow> entries m. f e)"
proof -
  have "{e \<in> set (entries (remove m k)). fst e \<noteq> k} = {e \<in> set (entries m). fst e \<noteq> k}"
    by (auto simp: set_remove)
  then show ?thesis by (simp add: total_split[of f _ k] get_remove)
qed

end

text \<open>
  A map with its entries in key order and searches for the neighbours of a key, which need
  not be in the map.
\<close>

lemma find_first:
  assumes "sorted_wrt R es" and "find Q es = Some e"
  shows "e \<in> set es \<and> Q e \<and> (\<forall>e' \<in> set es. Q e' \<longrightarrow> e' = e \<or> R e e')"
  using assms by (induction es) (auto split: if_splits)

locale sorted_keyed_map = keyed_map entries put remove get
  for entries :: "'m \<Rightarrow> ('k::{zero, linorder} \<times> 'v) list"
    and put :: "'m \<Rightarrow> 'k \<Rightarrow> 'v \<Rightarrow> 'm"
    and remove :: "'m \<Rightarrow> 'k \<Rightarrow> 'm"
    and get :: "'m \<Rightarrow> 'k \<Rightarrow> 'v option" +
  fixes next_key :: "'m \<Rightarrow> 'k \<Rightarrow> 'k \<times> 'v option \<times> bool"
    and prev_key :: "'m \<Rightarrow> 'k \<Rightarrow> 'k \<times> 'v option \<times> bool"
    and min_key :: "'m \<Rightarrow> 'k \<times> 'v option \<times> bool"
  assumes sorted_entries: "sorted_wrt (<) (map fst (entries m))"
    and next_entries: "next_key m k = entry_result (find (\<lambda>e. k < fst e) (entries m))"
    and prev_entries: "prev_key m k = entry_result (find (\<lambda>e. fst e < k) (rev (entries m)))"
    and min_entries: "min_key m = entry_result (case entries m of [] \<Rightarrow> None | e # _ \<Rightarrow> Some e)"
begin

lemma next_least:
  assumes "next_key m k = (k', v, True)"
  shows "\<exists>w. v = Some w \<and> get m k' = Some w \<and> k < k' \<and> (\<forall>e \<in> set (entries m). k < fst e \<longrightarrow> k' \<le> fst e)"
proof -
  obtain w where f: "find (\<lambda>e. k < fst e) (entries m) = Some (k', w)" "v = Some w"
    using assms by (auto simp: next_entries entry_result_def split: option.splits)
  have "sorted_wrt (\<lambda>x y. fst x < fst y) (entries m)"
    using sorted_entries[of m] by (simp add: sorted_wrt_map)
  from find_first[OF this f(1)] show ?thesis using f(2) by (auto simp: get_iff)
qed

lemma prev_greatest:
  assumes "prev_key m k = (k', v, True)"
  shows "\<exists>w. v = Some w \<and> get m k' = Some w \<and> k' < k \<and> (\<forall>e \<in> set (entries m). fst e < k \<longrightarrow> fst e \<le> k')"
proof -
  obtain w where f: "find (\<lambda>e. fst e < k) (rev (entries m)) = Some (k', w)" "v = Some w"
    using assms by (auto simp: prev_entries entry_result_def split: option.splits)
  have "sorted_wrt (\<lambda>x y. fst y < fst x) (rev (entries m))"
    using sorted_entries[of m] by (simp add: sorted_wrt_map sorted_wrt_rev)
  from find_first[OF this f(1)] show ?thesis using f(2) by (auto simp: get_iff)
qed

lemma no_next: "next_key m k = (k', v, False) \<Longrightarrow> \<forall>e \<in> set (entries m). fst e \<le> k"
  by (auto simp: next_entries entry_result_def find_None_iff not_less split: option.splits)

lemma no_prev: "prev_key m k = (k', v, False) \<Longrightarrow> \<forall>e \<in> set (entries m). k \<le> fst e"
  by (auto simp: prev_entries entry_result_def find_None_iff not_less split: option.splits)

lemma min_least:
  assumes "min_key m = (k', v, True)"
  shows "\<exists>w. v = Some w \<and> get m k' = Some w \<and> (\<forall>e \<in> set (entries m). k' \<le> fst e)"
  using assms sorted_entries[of m]
  by (auto simp: min_entries entry_result_def get_iff order_le_less split: list.splits)

end

end
