(* ===== verification/Linked_Map.thy ===== *)
theory Linked_Map
  imports Indexed_Chain Map_Interface
begin

text \<open>
  \<^verbatim>\<open>linkedmap.go\<close>: a hash map whose nodes form a doubly linked list in insertion order,
  between two sentinel nodes. The nodes live in a store from addresses to node records, so
  the pointer updates of \<^verbatim>\<open>Put\<close>, \<^verbatim>\<open>Remove\<close> and \<^verbatim>\<open>Replace\<close> are updates of that store;
  a nil pointer is \<open>None\<close> and following it is a panic, the result \<open>None\<close> of an operation.

  A value type of the code is a pointer type at every instance of the map, its zero value
  nil: the field \<open>value\<close> of a node is an option, \<open>None\<close> in the sentinels and \<open>Some\<close> of
  what \<^verbatim>\<open>Put\<close> stored elsewhere. Keys are numbers; the zero key is \<open>0\<close>.

  The second half shows that every operation refines the obvious one on the list of entries
  in insertion order, packs the well-formed maps into a type \<open>linked_map\<close>, and shows that
  it meets the contract of its clients, the locale \<open>keyed_map\<close>.
\<close>

section \<open>The data structure\<close>

record ('k, 'v) lmNode =
  key :: 'k
  "value" :: "'v option"
  "next" :: "addr option"
  prev :: "addr option"

record ('k, 'v) LinkedMap =
  store :: "addr \<rightharpoonup> ('k, 'v) lmNode"
  alloc :: addr \<comment> \<open>the next unused address\<close>
  items :: "'k \<rightharpoonup> addr"
  head :: addr
  tail :: addr
  lsize :: int

section \<open>Operations\<close>

definition NewLinkedMap :: "('k::zero, 'v) LinkedMap" where
  "NewLinkedMap =
     \<lparr>store = [0 \<mapsto> \<lparr>key = 0, value = None, next = Some 1, prev = None\<rparr>,
               1 \<mapsto> \<lparr>key = 0, value = None, next = None, prev = Some 0\<rparr>],
      alloc = 2, items = Map.empty, head = 0, tail = 1, lsize = 0\<rparr>"

definition LinkedMap_Size :: "('k, 'v) LinkedMap \<Rightarrow> int" where
  "LinkedMap_Size m = lsize m"

text \<open>\<open>p.next = x\<close> and \<open>p.prev = x\<close>.\<close>

definition set_next :: "('k, 'v) LinkedMap \<Rightarrow> addr option \<Rightarrow> addr option \<Rightarrow> ('k, 'v) LinkedMap option" where
  "set_next m p x = do {
     a \<leftarrow> p;
     n \<leftarrow> store m a;
     Some (m\<lparr>store := (store m)(a \<mapsto> n\<lparr>next := x\<rparr>)\<rparr>)
   }"

definition set_prev :: "('k, 'v) LinkedMap \<Rightarrow> addr option \<Rightarrow> addr option \<Rightarrow> ('k, 'v) LinkedMap option" where
  "set_prev m p x = do {
     a \<leftarrow> p;
     n \<leftarrow> store m a;
     Some (m\<lparr>store := (store m)(a \<mapsto> n\<lparr>prev := x\<rparr>)\<rparr>)
   }"

definition LinkedMap_Put :: "('k, 'v) LinkedMap \<Rightarrow> 'k \<Rightarrow> 'v \<Rightarrow> ('k, 'v) LinkedMap option" where
  "LinkedMap_Put m k v =
     (case items m k of
        Some existing \<Rightarrow> do {
          n \<leftarrow> store m existing;
          Some (m\<lparr>store := (store m)(existing \<mapsto> n\<lparr>value := Some v\<rparr>)\<rparr>)
        }
      | None \<Rightarrow> do {
          t \<leftarrow> store m (tail m);
          let predecessor = prev t;
          let newNode = alloc m;
          let m = m\<lparr>store := (store m)(newNode \<mapsto>
                      \<lparr>key = k, value = Some v, next = Some (tail m), prev = predecessor\<rparr>),
                    alloc := Suc newNode\<rparr>;
          m \<leftarrow> set_next m predecessor (Some newNode);
          m \<leftarrow> set_prev m (Some (tail m)) (Some newNode);
          Some (m\<lparr>items := (items m)(k \<mapsto> newNode), lsize := lsize m + 1\<rparr>)
        })"

definition LinkedMap_Get :: "('k, 'v) LinkedMap \<Rightarrow> 'k \<Rightarrow> 'v option option" where
  "LinkedMap_Get m k =
     (case items m k of
        Some a \<Rightarrow> do { n \<leftarrow> store m a; Some (value n) }
      | None \<Rightarrow> Some None)"

definition LinkedMap_Contains :: "('k, 'v) LinkedMap \<Rightarrow> 'k \<Rightarrow> bool" where
  "LinkedMap_Contains m k = (items m k \<noteq> None)"

definition LinkedMap_Remove ::
  "('k, 'v) LinkedMap \<Rightarrow> 'k \<Rightarrow> (('k, 'v) LinkedMap \<times> 'v option \<times> bool) option" where
  "LinkedMap_Remove m k =
     (case items m k of
        None \<Rightarrow> Some (m, None, False)
      | Some node \<Rightarrow> do {
          n \<leftarrow> store m node;
          m \<leftarrow> set_next m (prev n) (next n);
          n \<leftarrow> store m node;
          m \<leftarrow> set_prev m (next n) (prev n);
          Some (m\<lparr>items := (items m)(k := None), lsize := lsize m - 1\<rparr>, value n, True)
        })"

definition node_at :: "('k, 'v) LinkedMap \<Rightarrow> addr option \<Rightarrow> ('k \<times> 'v option \<times> bool) option" where
  "node_at m p = do { a \<leftarrow> p; n \<leftarrow> store m a; Some (key n, value n, True) }"

definition LinkedMap_First :: "('k::zero, 'v) LinkedMap \<Rightarrow> ('k \<times> 'v option \<times> bool) option" where
  "LinkedMap_First m = do {
     h \<leftarrow> store m (head m);
     if next h \<noteq> Some (tail m) then node_at m (next h) else Some (0, None, False)
   }"

definition LinkedMap_Next :: "('k::zero, 'v) LinkedMap \<Rightarrow> 'k \<Rightarrow> ('k \<times> 'v option \<times> bool) option" where
  "LinkedMap_Next m k =
     (case items m k of
        Some a \<Rightarrow> do {
          n \<leftarrow> store m a;
          if next n \<noteq> Some (tail m) then node_at m (next n) else Some (0, None, False)
        }
      | None \<Rightarrow> Some (0, None, False))"

definition LinkedMap_Previous :: "('k::zero, 'v) LinkedMap \<Rightarrow> 'k \<Rightarrow> ('k \<times> 'v option \<times> bool) option" where
  "LinkedMap_Previous m k =
     (case items m k of
        Some a \<Rightarrow> do {
          n \<leftarrow> store m a;
          if prev n \<noteq> Some (head m) then node_at m (prev n) else Some (0, None, False)
        }
      | None \<Rightarrow> Some (0, None, False))"

definition LinkedMap_Replace ::
  "('k, 'v) LinkedMap \<Rightarrow> 'k \<Rightarrow> 'k \<Rightarrow> 'v \<Rightarrow> (('k, 'v) LinkedMap \<times> bool) option" where
  "LinkedMap_Replace m oldKey newKey v =
     (case items m oldKey of
        None \<Rightarrow> Some (m, False)
      | Some oldNode \<Rightarrow> do {
          n \<leftarrow> store m oldNode;
          if oldKey = newKey then
            Some (m\<lparr>store := (store m)(oldNode \<mapsto> n\<lparr>value := Some v\<rparr>)\<rparr>, True)
          else if items m newKey \<noteq> None then Some (m, False)
          else
            Some (m\<lparr>store := (store m)(oldNode \<mapsto> n\<lparr>key := newKey, value := Some v\<rparr>),
                    items := ((items m)(oldKey := None))(newKey \<mapsto> oldNode)\<rparr>, True)
        })"

text \<open>
  The loop of \<^verbatim>\<open>Iterator\<close>, \<open>for node := startNode; node != m.tail; node = node.next\<close>, as
  the list of the pairs it yields when the consumer never stops it. \<open>None\<close> stands for a
  panic and for a loop that never reaches the tail; a consumer that stops early sees a
  prefix of this list.
\<close>

partial_function (option) walk ::
  "('k, 'v) LinkedMap \<Rightarrow> addr option \<Rightarrow> ('k \<times> 'v option) list option" where
  "walk m p =
     (if p = Some (tail m) then Some []
      else do {
        a \<leftarrow> p;
        n \<leftarrow> store m a;
        rest \<leftarrow> walk m (next n);
        Some ((key n, value n) # rest)
      })"

definition LinkedMap_Iterator ::
  "('k, 'v) LinkedMap \<Rightarrow> 'k option \<Rightarrow> ('k \<times> 'v option) list option" where
  "LinkedMap_Iterator m startKey = do {
     h \<leftarrow> store m (head m);
     startNode \<leftarrow>
       (case startKey of
          None \<Rightarrow> Some (next h)
        | Some sk \<Rightarrow>
            (case items m sk of
               None \<Rightarrow> Some (next h)
             | Some a \<Rightarrow> do {
                 n \<leftarrow> store m a;
                 Some (if next n \<noteq> Some (tail m) then next n else next h)
               }));
     walk m startNode
   }"

text \<open>
  \<^verbatim>\<open>NestedIterator\<close>: the inner start key holds for the first outer entry only. The list is
  what a consumer that does not change the maps sees.
\<close>

fun nested_walk ::
  "('v1 option \<Rightarrow> ('k2, 'v2) LinkedMap) \<Rightarrow> 'k2 option \<Rightarrow> ('k1 \<times> 'v1 option) list \<Rightarrow>
   ('v1 option \<times> 'v2 option) list option" where
  "nested_walk getInnerMap startKey2 [] = Some []"
| "nested_walk getInnerMap startKey2 ((_, outerVal) # rest) = do {
     inner \<leftarrow> LinkedMap_Iterator (getInnerMap outerVal) startKey2;
     pairs \<leftarrow> nested_walk getInnerMap None rest;
     Some (map (\<lambda>(_, innerVal). (outerVal, innerVal)) inner @ pairs)
   }"

definition NestedIterator ::
  "('k1, 'v1) LinkedMap \<Rightarrow> ('v1 option \<Rightarrow> ('k2, 'v2) LinkedMap) \<Rightarrow> 'k1 option \<Rightarrow> 'k2 option \<Rightarrow>
   ('v1 option \<times> 'v2 option) list option" where
  "NestedIterator outerMap getInnerMap startKey1 startKey2 = do {
     outer \<leftarrow> LinkedMap_Iterator outerMap startKey1;
     nested_walk getInnerMap startKey2 outer
   }"

section \<open>Well-formed maps and their entries\<close>

text \<open>
  A map with entries \<open>es\<close> has a chain from the head sentinel over nodes that hold \<open>es\<close> in
  this order to the tail sentinel, its index finds exactly those nodes, and its size counts
  them. The store is seen through its links and contents.
\<close>

definition nxt :: "(addr \<rightharpoonup> ('k, 'v) lmNode) \<Rightarrow> links" where
  "nxt s a = Option.bind (s a) next"

definition prv :: "(addr \<rightharpoonup> ('k, 'v) lmNode) \<Rightarrow> links" where
  "prv s a = Option.bind (s a) prev"

definition content :: "(addr \<rightharpoonup> ('k, 'v) lmNode) \<Rightarrow> ('k, 'v) contents" where
  "content s a = map_option (\<lambda>n. (key n, value n)) (s a)"

lemma view_upd [simp]:
  "nxt (s(a \<mapsto> n)) = (nxt s)(a := next n)"
  "prv (s(a \<mapsto> n)) = (prv s)(a := prev n)"
  "content (s(a \<mapsto> n)) = (content s)(a \<mapsto> (key n, value n))"
  by (auto simp: nxt_def prv_def content_def)

lemma view_Some:
  "s a = Some n \<Longrightarrow> nxt s a = next n"
  "s a = Some n \<Longrightarrow> prv s a = prev n"
  "s a = Some n \<Longrightarrow> content s a = Some (key n, value n)"
  by (simp_all add: nxt_def prv_def content_def)

lemma view_SomeD: "nxt s a = Some b \<Longrightarrow> \<exists>n. s a = Some n \<and> next n = Some b"
  "prv s a = Some b \<Longrightarrow> \<exists>n. s a = Some n \<and> prev n = Some b"
  by (auto simp: nxt_def prv_def bind_eq_Some_conv)

lemma holds_store:
  "holds (content s) a e \<longleftrightarrow> (\<exists>n. s a = Some n \<and> key n = fst e \<and> value n = Some (snd e))"
  by (auto simp: holds_def content_def)

definition lm_rep :: "('k, 'v) LinkedMap \<Rightarrow> addr list \<Rightarrow> ('k \<times> 'v) list \<Rightarrow> bool" where
  "lm_rep m as es \<longleftrightarrow>
     chain (nxt (store m)) (prv (store m)) (content (store m)) (items m) (head m) (tail m) as es \<and>
     {head m, tail m} \<subseteq> dom (store m) \<and> dom (store m) \<subseteq> {..<alloc m} \<and>
     lsize m = int (length es)"

definition lm_wf :: "('k, 'v) LinkedMap \<Rightarrow> bool" where
  "lm_wf m \<longleftrightarrow> (\<exists>as es. lm_rep m as es)"

lemma lm_rep_chain: "lm_rep m as es \<Longrightarrow>
    chain (nxt (store m)) (prv (store m)) (content (store m)) (items m) (head m) (tail m) as es"
  by (simp add: lm_rep_def)

lemmas lm_rep_lookup = chain_lookup[OF lm_rep_chain]
lemmas lm_rep_items_None = chain_index_None[OF lm_rep_chain]

section \<open>Reference operations on entry lists\<close>

definition al_put :: "'k \<Rightarrow> 'v \<Rightarrow> ('k \<times> 'v) list \<Rightarrow> ('k \<times> 'v) list" where
  "al_put k v es =
     (if k \<in> fst ` set es then map (\<lambda>e. if fst e = k then (k, v) else e) es else es @ [(k, v)])"

definition al_remove :: "'k \<Rightarrow> ('k \<times> 'v) list \<Rightarrow> ('k \<times> 'v) list" where
  "al_remove k es = filter (\<lambda>e. fst e \<noteq> k) es"

definition al_replace :: "'k \<Rightarrow> 'k \<Rightarrow> 'v \<Rightarrow> ('k \<times> 'v) list \<Rightarrow> ('k \<times> 'v) list" where
  "al_replace k k' v es =
     (if k' \<in> fst ` set es \<and> k' \<noteq> k then es
      else map (\<lambda>e. if fst e = k then (k', v) else e) es)"

fun al_next :: "'k \<Rightarrow> ('k \<times> 'v) list \<Rightarrow> ('k \<times> 'v) option" where
  "al_next k (e # f # es) = (if fst e = k then Some f else al_next k (f # es))"
| "al_next k _ = None"

definition al_prev :: "'k \<Rightarrow> ('k \<times> 'v) list \<Rightarrow> ('k \<times> 'v) option" where
  "al_prev k es = al_next k (rev es)"

lemma map_upd_split:
  assumes "distinct (map fst (us @ (k, v) # ws))"
  shows "map (\<lambda>e. if fst e = k then x else e) (us @ (k, v) # ws) = us @ x # ws"
    and "filter (\<lambda>e. fst e \<noteq> k) (us @ (k, v) # ws) = us @ ws"
proof -
  have k: "\<forall>e \<in> set us. fst e \<noteq> k" "\<forall>e \<in> set ws. fst e \<noteq> k"
    using assms by auto
  from k show "filter (\<lambda>e. fst e \<noteq> k) (us @ (k, v) # ws) = us @ ws"
    by (simp add: filter_True)
  from k show "map (\<lambda>e. if fst e = k then x else e) (us @ (k, v) # ws) = us @ x # ws"
    by (simp add: map_idI)
qed

section \<open>Refinement\<close>

lemma set_next_Some:
  "store m a = Some n \<Longrightarrow>
   set_next m (Some a) x = Some (m\<lparr>store := (store m)(a \<mapsto> n\<lparr>next := x\<rparr>)\<rparr>)"
  by (simp add: set_next_def)

lemma set_prev_Some:
  "store m a = Some n \<Longrightarrow>
   set_prev m (Some a) x = Some (m\<lparr>store := (store m)(a \<mapsto> n\<lparr>prev := x\<rparr>)\<rparr>)"
  by (simp add: set_prev_def)

lemma lm_rep_chain_dom:
  assumes "lm_rep m as es" and "a \<in> set (head m # as @ [tail m])"
  shows "a < alloc m"
proof -
  have "list_all2 (holds (content (store m))) as es"
    using assms(1) by (simp add: lm_rep_def chain_def)
  then have "b \<in> dom (store m)" if "b \<in> set as" for b
    using that by (auto simp: list_all2_conv_all_nth in_set_conv_nth holds_store)
  then show "a < alloc m" using assms by (auto simp: lm_rep_def)
qed

lemma lm_rep_new: "lm_rep NewLinkedMap [] []"
  by (auto simp: lm_rep_def chain_def NewLinkedMap_def nxt_def prv_def split: if_splits)

lemma lm_rep_neighbours:
  assumes r: "lm_rep m (xs @ a # ys) es"
  obtains zs p q qs n where "head m # xs = zs @ [p]" "ys @ [tail m] = q # qs" "store m a = Some n"
    "prev n = Some p" "next n = Some q" "distinct (zs @ p # a # q # qs)"
    "dll (nxt (store m)) (prv (store m)) (zs @ p # a # q # qs)"
    "p \<in> dom (store m)" "q \<in> dom (store m)"
proof -
  obtain zs p q qs where c: "head m # xs = zs @ [p]" "ys @ [tail m] = q # qs"
    "prv (store m) a = Some p" "nxt (store m) a = Some q" "nxt (store m) p = Some a"
    "prv (store m) q = Some a" "distinct (zs @ p # a # q # qs)"
    "dll (nxt (store m)) (prv (store m)) (zs @ p # a # q # qs)"
    by (rule chain_neighbours[OF lm_rep_chain[OF r]])
  then obtain n where n: "store m a = Some n" by (auto dest: view_SomeD)
  show thesis
    using c by (intro that[OF c(1,2) n _ _ c(7,8)]) (use n in \<open>auto simp: view_Some dest: view_SomeD\<close>)
qed

text \<open>Overwriting the value, and possibly the key, of one node.\<close>

lemma lm_rep_update_node:
  assumes r: "lm_rep m (xs @ a # ys) (us @ (k, v) # ws)" and len: "length xs = length us"
    and n: "store m a = Some n"
    and k': "k' = k \<or> k' \<notin> fst ` set (us @ (k, v) # ws)"
    and it: "items m' = ((items m)(k := None))(k' \<mapsto> a)"
    and m': "store m' = (store m)(a \<mapsto> n\<lparr>key := k', value := Some v'\<rparr>)"
      "alloc m' = alloc m" "head m' = head m" "tail m' = tail m" "lsize m' = lsize m"
  shows "lm_rep m' (xs @ a # ys) (us @ (k', v') # ws)"
proof -
  note c = lm_rep_chain[OF r]
  have "chain (nxt (store m)) (prv (store m)) (content (store m')) (items m') (head m) (tail m)
          (xs @ a # ys) (us @ (k', v') # ws)"
    unfolding it using c by (intro chain_overwrite[OF c len k']) (auto simp: m'(1) chain_def)
  moreover have "nxt (store m') = nxt (store m)" "prv (store m') = prv (store m)"
    using n by (simp_all add: m'(1) fun_upd_idem view_Some)
  ultimately show ?thesis using r m' n by (auto simp: lm_rep_def)
qed

lemma LinkedMap_Put_existing:
  assumes r: "lm_rep m as es" and a: "items m k = Some a"
  shows "\<exists>m'. LinkedMap_Put m k v = Some m' \<and> lm_rep m' as (al_put k v es)"
proof -
  obtain xs ys us ws v0 where s: "as = xs @ a # ys" "es = us @ (k, v0) # ws" "length xs = length us"
    "holds (content (store m)) a (k, v0)"
    using lm_rep_lookup[OF r a] by metis
  obtain n where n: "store m a = Some n" "key n = k" using s(4) by (auto simp: holds_store)
  let ?m = "m\<lparr>store := (store m)(a \<mapsto> n\<lparr>value := Some v\<rparr>)\<rparr>"
  have "store ?m = (store m)(a \<mapsto> n\<lparr>key := k, value := Some v\<rparr>)" using n(2) by (cases n) simp
  moreover have "items ?m = (items m)(k := None, k \<mapsto> a)" using a by (simp add: fun_upd_idem)
  ultimately have "lm_rep ?m (xs @ a # ys) (us @ (k, v) # ws)"
    by (intro lm_rep_update_node[OF r[unfolded s(1,2)] s(3) n(1)]) simp_all
  moreover have "al_put k v es = us @ (k, v) # ws"
    using r s map_upd_split(1)[of us k v0 ws "(k, v)"] by (auto simp: al_put_def lm_rep_def chain_def)
  ultimately show ?thesis using a n s(1) by (simp add: LinkedMap_Put_def)
qed

lemma LinkedMap_Put_new:
  assumes r: "lm_rep m as es" and k: "items m k = None"
  shows "\<exists>m'. LinkedMap_Put m k v = Some m' \<and> lm_rep m' (as @ [alloc m]) (al_put k v es)"
proof -
  let ?s = "store m" and ?a = "alloc m" and ?t = "tail m"
  obtain zs p where zp: "head m # as = zs @ [p]"
    by (metis append_butlast_last_id list.distinct(1))
  have full: "head m # as @ [?t] = zs @ p # [?t]" using zp by simp
  have dist: "distinct (zs @ [p, ?t])" and dll: "dll (nxt ?s) (prv ?s) (zs @ [p, ?t])"
    using r unfolding lm_rep_def chain_def full by blast+
  obtain n t where n: "?s p = Some n" and t: "?s ?t = Some t" "prev t = Some p"
    using dll_pieces(2,3)[OF dll] by (auto dest!: view_SomeD)
  have fresh: "?a \<notin> set (head m # as @ [?t])" using lm_rep_chain_dom[OF r, of ?a] by blast
  then have fresh': "?a \<noteq> p" "?a \<noteq> ?t" "p \<noteq> ?t" using dist unfolding full by auto
  define new where "new = \<lparr>key = k, value = Some v, next = Some ?t, prev = Some p\<rparr>"
  define s' where "s' = ?s(?a \<mapsto> new, p \<mapsto> n\<lparr>next := Some ?a\<rparr>, ?t \<mapsto> t\<lparr>prev := Some ?a\<rparr>)"
  define m' where "m' = m\<lparr>store := s', alloc := Suc ?a, items := (items m)(k \<mapsto> ?a), lsize := lsize m + 1\<rparr>"
  have "LinkedMap_Put m k v = Some m'"
    using k n t fresh'
    by (simp add: LinkedMap_Put_def Let_def set_next_Some set_prev_Some m'_def s'_def new_def)
  moreover have "chain ((nxt ?s)(?a := Some ?t, p := Some ?a)) ((prv ?s)(?a := Some p, ?t := Some ?a))
      (content s') ((items m)(k \<mapsto> ?a)) (head m) ?t (as @ ?a # []) (es @ (k, v) # [])"
  proof (rule chain_insert[where qs = "[]"])
    show "chain (nxt ?s) (prv ?s) (content ?s) (items m) (head m) ?t (as @ []) (es @ [])"
      using lm_rep_chain[OF r] by simp
    show "length as = length es" using chain_length[OF lm_rep_chain[OF r]] .
    show "k \<notin> fst ` set (es @ [])" using lm_rep_items_None[OF r] k by simp
    show "content s' ?a = Some (k, Some v)" using fresh' by (simp add: s'_def new_def)
    show "content s' b = content ?s b" if "b \<in> set (as @ [])" for b
      using that fresh n t(1) by (auto simp: s'_def view_Some)
  qed (use zp fresh in auto)
  moreover have "nxt s' = (nxt ?s)(?a := Some ?t, p := Some ?a)"
    "prv s' = (prv ?s)(?a := Some p, ?t := Some ?a)"
    using fresh' n t by (auto simp: s'_def new_def view_Some fun_eq_iff)
  moreover have "al_put k v es = es @ [(k, v)]"
    using lm_rep_items_None[OF r] k by (simp add: al_put_def)
  moreover have "{head m, ?t} \<subseteq> dom s'" "dom s' \<subseteq> {..<Suc ?a}"
    using r n t(1) by (auto simp: s'_def lm_rep_def less_Suc_eq)
  ultimately show ?thesis using r by (simp add: lm_rep_def m'_def)
qed

theorem LinkedMap_Put_refines:
  assumes "lm_rep m as es"
  shows "\<exists>m' as'. LinkedMap_Put m k v = Some m' \<and> lm_rep m' as' (al_put k v es)"
  using LinkedMap_Put_existing[OF assms] LinkedMap_Put_new[OF assms] by (cases "items m k") blast+

theorem LinkedMap_Remove_refines:
  assumes r: "lm_rep m as es"
  shows "\<exists>m' as'. LinkedMap_Remove m k = Some (m', map_of es k, k \<in> fst ` set es) \<and>
           lm_rep m' as' (al_remove k es)"
proof (cases "items m k")
  case None
  then have k: "k \<notin> fst ` set es" using lm_rep_items_None[OF r] by simp
  then have "al_remove k es = es" by (auto simp: al_remove_def filter_id_conv)
  moreover have "map_of es k = None" using k by (simp add: map_of_eq_None_iff)
  ultimately show ?thesis using None r k by (auto simp: LinkedMap_Remove_def)
next
  case (Some a)
  let ?s = "store m"
  obtain xs ys us ws v where s: "as = xs @ a # ys" "es = us @ (k, v) # ws" "length xs = length us"
    "holds (content ?s) a (k, v)"
    using lm_rep_lookup[OF r Some] by metis
  obtain zs p q qs n where c: "head m # xs = zs @ [p]" "ys @ [tail m] = q # qs" "?s a = Some n"
    "prev n = Some p" "next n = Some q" "distinct (zs @ p # a # q # qs)" "p \<in> dom ?s" "q \<in> dom ?s"
    using lm_rep_neighbours[OF r[unfolded s(1)]] by metis
  obtain np nq where n: "?s p = Some np" "?s q = Some nq" using c(7,8) by blast
  define s' where "s' = ?s(p \<mapsto> np\<lparr>next := Some q\<rparr>, q \<mapsto> nq\<lparr>prev := Some p\<rparr>)"
  define m' where "m' = m\<lparr>store := s', items := (items m)(k := None), lsize := lsize m - 1\<rparr>"
  have run: "LinkedMap_Remove m k = Some (m', Some v, True)"
    using Some c n s(4)
    by (simp add: LinkedMap_Remove_def set_next_Some set_prev_Some m'_def s'_def holds_store)
  have same: "content s' = content ?s" using n c(6) by (auto simp: s'_def view_Some fun_eq_iff)
  have "nxt s' = (nxt ?s)(p := Some q)" "prv s' = (prv ?s)(q := Some p)"
    using n c(6) by (auto simp: s'_def view_Some fun_eq_iff)
  moreover have "chain ((nxt ?s)(p := Some q)) ((prv ?s)(q := Some p)) (content s')
      ((items m)(k := None)) (head m) (tail m) (xs @ ys) (us @ ws)"
    using lm_rep_chain[OF r] unfolding s(1,2) same by (rule chain_remove[OF _ s(3) c(1,2)]) simp
  ultimately have "lm_rep m' (xs @ ys) (us @ ws)"
    using r n by (auto simp: lm_rep_def m'_def s'_def s(2))
  moreover have keys: "distinct (map fst (us @ (k, v) # ws))"
    using r s(2) by (simp add: lm_rep_def chain_def)
  then have "al_remove k es = us @ ws"
    using map_upd_split(2) by (simp add: al_remove_def s(2))
  moreover have "map_of es k = Some v"
    using keys unfolding s(2) by (rule map_of_is_SomeI) simp
  moreover have "k \<in> fst ` set es" by (simp add: s(2))
  ultimately show ?thesis using run by auto
qed

theorem LinkedMap_Replace_refines:
  assumes r: "lm_rep m as es"
  shows "\<exists>m' as'. LinkedMap_Replace m k k' v =
           Some (m', k \<in> fst ` set es \<and> (k' = k \<or> k' \<notin> fst ` set es)) \<and>
           lm_rep m' as' (al_replace k k' v es)"
proof (cases "items m k")
  case None
  then have k: "k \<notin> fst ` set es" using lm_rep_items_None[OF r] by simp
  then have "map (\<lambda>e. if fst e = k then (k', v) else e) es = es" by (induction es) auto
  then have "al_replace k k' v es = es" by (simp add: al_replace_def)
  with None r k show ?thesis by (auto simp: LinkedMap_Replace_def)
next
  case (Some a)
  obtain xs ys us ws v0 where s: "as = xs @ a # ys" "es = us @ (k, v0) # ws" "length xs = length us"
    "holds (content (store m)) a (k, v0)"
    using lm_rep_lookup[OF r Some] by metis
  obtain n where n: "store m a = Some n" "key n = k" using s(4) by (auto simp: holds_store)
  have keys: "distinct (map fst (us @ (k, v0) # ws))" using r s(2) by (simp add: lm_rep_def chain_def)
  have k: "k \<in> fst ` set es" by (simp add: s(2))
  show ?thesis
  proof (cases "k' \<noteq> k \<and> items m k' \<noteq> None")
    case True
    then have "k' \<in> fst ` set es" using lm_rep_items_None[OF r] by simp
    with True Some n r show ?thesis by (auto simp: LinkedMap_Replace_def al_replace_def)
  next
    case False
    then have k': "k' = k \<or> k' \<notin> fst ` set es" using lm_rep_items_None[OF r, of k'] by auto
    define m' where "m' = m\<lparr>store := (store m)(a \<mapsto> n\<lparr>key := k', value := Some v\<rparr>),
                            items := ((items m)(k := None))(k' \<mapsto> a)\<rparr>"
    have "LinkedMap_Replace m k k' v = Some (m', True)"
      using Some n False by (cases n) (auto simp: LinkedMap_Replace_def m'_def fun_upd_idem)
    moreover have "lm_rep m' (xs @ a # ys) (us @ (k', v) # ws)"
      using k' unfolding s(2)
      by (intro lm_rep_update_node[OF r[unfolded s(1,2)] s(3) n(1)]) (simp_all add: m'_def)
    moreover have "al_replace k k' v es = us @ (k', v) # ws"
      using k' map_upd_split(1)[OF keys, of "(k', v)"] by (auto simp: al_replace_def s(2))
    ultimately show ?thesis using k k' by auto
  qed
qed

lemma LinkedMap_Get_refines:
  assumes r: "lm_rep m as es"
  shows "LinkedMap_Get m k = Some (map_of es k)"
proof (cases "items m k")
  case None
  then have "map_of es k = None" using lm_rep_items_None[OF r] by (simp add: map_of_eq_None_iff)
  with None show ?thesis by (simp add: LinkedMap_Get_def)
next
  case (Some a)
  obtain us ws v where s: "es = us @ (k, v) # ws" "holds (content (store m)) a (k, v)"
    using lm_rep_lookup[OF r Some] by metis
  have "distinct (map fst es)" using r by (simp add: lm_rep_def chain_def)
  then have "map_of es k = Some v" by (rule map_of_is_SomeI) (simp add: s(1))
  with Some s(2) show ?thesis by (auto simp: LinkedMap_Get_def holds_store)
qed

lemma LinkedMap_Contains_refines: "lm_rep m as es \<Longrightarrow> LinkedMap_Contains m k = (k \<in> fst ` set es)"
  using lm_rep_items_None[of m as es k] by (auto simp: LinkedMap_Contains_def)

lemma LinkedMap_Size_refines: "lm_rep m as es \<Longrightarrow> LinkedMap_Size m = int (length es)"
  by (simp add: LinkedMap_Size_def lm_rep_def)

lemma node_at_holds: "holds (content (store m)) a (k, v) \<Longrightarrow> node_at m (Some a) = Some (k, Some v, True)"
  by (auto simp: node_at_def holds_store)

lemma LinkedMap_First_refines:
  assumes r: "lm_rep m as es"
  shows "LinkedMap_First m = Some (entry_result (case es of [] \<Rightarrow> None | e # _ \<Rightarrow> Some e))"
proof -
  have d: "dll (nxt (store m)) (prv (store m)) (head m # as @ [tail m])" "distinct (head m # as @ [tail m])"
    and h: "list_all2 (holds (content (store m))) as es"
    using r by (auto simp: lm_rep_def chain_def)
  show ?thesis
  proof (cases es)
    case Nil
    with h d show ?thesis
      by (auto simp: LinkedMap_First_def entry_result_def nxt_def bind_eq_Some_conv)
  next
    case (Cons e es')
    with h obtain a as' where "as = a # as'" "holds (content (store m)) a e" by (cases as) auto
    with d Cons show ?thesis
      by (cases e)
         (auto simp: LinkedMap_First_def entry_result_def nxt_def bind_eq_Some_conv node_at_holds)
  qed
qed

lemma al_next_append: "k \<notin> fst ` set us \<Longrightarrow> al_next k (us @ (k, v) # ws) =
   (case ws of [] \<Rightarrow> None | e # _ \<Rightarrow> Some e)"
proof (induction us)
  case Nil
  then show ?case by (cases ws) auto
next
  case (Cons u us)
  then show ?case by (cases us) (auto split: list.splits)
qed

lemma al_next_None: "k \<notin> fst ` set es \<Longrightarrow> al_next k es = None"
  by (induction es rule: induct_list012) auto

lemma LinkedMap_Next_refines:
  assumes r: "lm_rep m as es"
  shows "LinkedMap_Next m k = Some (entry_result (al_next k es))"
proof (cases "items m k")
  case None
  then have "al_next k es = None"
    using lm_rep_items_None[OF r] by (intro al_next_None) simp
  with None show ?thesis by (simp add: LinkedMap_Next_def entry_result_def)
next
  case (Some a)
  obtain xs ys us ws v where s: "as = xs @ a # ys" "es = us @ (k, v) # ws"
    "list_all2 (holds (content (store m))) ys ws"
    using lm_rep_lookup[OF r Some] by metis
  obtain zs p q qs n where c: "ys @ [tail m] = q # qs" "store m a = Some n" "next n = Some q"
    "distinct (zs @ p # a # q # qs)"
    using lm_rep_neighbours[OF r[unfolded s(1)]] by metis
  have "k \<notin> fst ` set us" using r by (simp add: lm_rep_def chain_def s(2))
  then have e: "al_next k es = (case ws of [] \<Rightarrow> None | e # _ \<Rightarrow> Some e)"
    by (simp add: s(2) al_next_append)
  show ?thesis
  proof (cases ws)
    case Nil
    with s(3) c e Some show ?thesis by (auto simp: LinkedMap_Next_def entry_result_def)
  next
    case (Cons w ws')
    with s(3) obtain b ys' where "ys = b # ys'" "holds (content (store m)) b w" by (cases ys) auto
    with c e Some Cons show ?thesis
      by (cases w) (auto simp: LinkedMap_Next_def entry_result_def node_at_holds)
  qed
qed

lemma LinkedMap_Previous_refines:
  assumes r: "lm_rep m as es"
  shows "LinkedMap_Previous m k = Some (entry_result (al_prev k es))"
proof (cases "items m k")
  case None
  then have "al_next k (rev es) = None"
    using lm_rep_items_None[OF r] by (intro al_next_None) simp
  with None show ?thesis by (simp add: LinkedMap_Previous_def entry_result_def al_prev_def)
next
  case (Some a)
  obtain xs ys us ws v where s: "as = xs @ a # ys" "es = us @ (k, v) # ws"
    "list_all2 (holds (content (store m))) xs us"
    using lm_rep_lookup[OF r Some] by metis
  obtain zs p q qs n where c: "head m # xs = zs @ [p]" "store m a = Some n" "prev n = Some p"
    "distinct (zs @ p # a # q # qs)"
    using lm_rep_neighbours[OF r[unfolded s(1)]] by metis
  have "k \<notin> fst ` set (rev ws)" using r by (simp add: lm_rep_def chain_def s(2))
  then have e: "al_prev k es = (case rev us of [] \<Rightarrow> None | e # _ \<Rightarrow> Some e)"
    by (simp add: s(2) al_prev_def al_next_append)
  show ?thesis
  proof (cases us rule: rev_cases)
    case Nil
    with s(3) c e Some show ?thesis by (auto simp: LinkedMap_Previous_def entry_result_def)
  next
    case (snoc us' u)
    with s(3) obtain xs' b where x: "xs = xs' @ [b]" "holds (content (store m)) b u"
      by (auto simp: list_all2_append2 list_all2_Cons2)
    then have "p = b" "b \<noteq> head m" using c(1,4) by (cases zs; auto)+
    with x c e Some snoc show ?thesis
      by (cases u) (auto simp: LinkedMap_Previous_def entry_result_def node_at_holds)
  qed
qed

lemma walk_refines:
  assumes "dll (nxt (store m)) (prv (store m)) (ys @ [tail m])" and "distinct (ys @ [tail m])"
    and "list_all2 (holds (content (store m))) ys ws" and "p = Some (hd (ys @ [tail m]))"
  shows "walk m p = Some (map (\<lambda>(k, v). (k, Some v)) ws)"
  using assms
proof (induction ys arbitrary: ws p)
  case Nil
  then show ?case by (simp add: walk.simps)
next
  case (Cons y ys)
  then obtain w ws' where w: "ws = w # ws'" "holds (content (store m)) y w" "list_all2 (holds (content (store m))) ys ws'"
    by (auto simp: list_all2_Cons1)
  then obtain n where n: "store m y = Some n" "key n = fst w" "value n = Some (snd w)"
    by (auto simp: holds_store)
  have nx: "next n = Some (hd (ys @ [tail m]))"
    using Cons.prems(1) n(1) by (cases "ys @ [tail m]") (auto simp: nxt_def)
  have "dll (nxt (store m)) (prv (store m)) (ys @ [tail m])"
    using Cons.prems(1) by (cases "ys @ [tail m]") auto
  then have "walk m (next n) = Some (map (\<lambda>(k, v). (k, Some v)) ws')"
    using Cons.prems(2) w(3) nx by (intro Cons.IH) auto
  then show ?case
    using Cons.prems(2,4) n w(1) by (subst walk.simps) (auto simp: split_beta)
qed

text \<open>
  The entries an iteration visits: all of them, or those after the start key when it is in
  the map and not last.
\<close>

definition al_iterate :: "'k option \<Rightarrow> ('k \<times> 'v) list \<Rightarrow> ('k \<times> 'v) list" where
  "al_iterate startKey es =
     (case startKey of
        None \<Rightarrow> es
      | Some sk \<Rightarrow> (case dropWhile (\<lambda>e. fst e \<noteq> sk) es of
                      _ # f # fs \<Rightarrow> f # fs
                    | _ \<Rightarrow> es))"

lemma LinkedMap_Iterator_refines:
  assumes r: "lm_rep m as es"
  shows "LinkedMap_Iterator m startKey =
         Some (map (\<lambda>(k, v). (k, Some v)) (al_iterate startKey es))"
proof -
  have d: "dll (nxt (store m)) (prv (store m)) (head m # as @ [tail m])" "distinct (head m # as @ [tail m])"
    and h: "list_all2 (holds (content (store m))) as es"
    using r by (auto simp: lm_rep_def chain_def)
  obtain hn where hn: "store m (head m) = Some hn" "next hn = Some (hd (as @ [tail m]))"
    using d(1) by (cases as) (auto simp: nxt_def bind_eq_Some_conv)
  have all: "walk m (next hn) = Some (map (\<lambda>(k, v). (k, Some v)) es)"
  proof (rule walk_refines[OF _ _ h hn(2)])
    show "dll (nxt (store m)) (prv (store m)) (as @ [tail m])" using d(1) by (cases as) auto
    show "distinct (as @ [tail m])" using d(2) by simp
  qed
  show ?thesis
  proof (cases "Option.bind startKey (items m)")
    case None
    then have "al_iterate startKey es = es"
    proof (cases startKey)
      case sk: (Some k)
      with None have "\<forall>e \<in> set es. fst e \<noteq> k"
        using lm_rep_items_None[OF r, of k] by auto
      then have "dropWhile (\<lambda>e. fst e \<noteq> k) es = []" by simp
      then show ?thesis by (simp only: al_iterate_def sk option.case list.case)
    qed (simp add: al_iterate_def)
    with None hn all show ?thesis
      by (auto simp: LinkedMap_Iterator_def split: option.splits)
  next
    case (Some a)
    then obtain k where k: "startKey = Some k" "items m k = Some a"
      by (auto simp: bind_eq_Some_conv)
    obtain xs ys us ws v where s: "as = xs @ a # ys" "es = us @ (k, v) # ws"
      "list_all2 (holds (content (store m))) ys ws"
      using lm_rep_lookup[OF r k(2)] by metis
    obtain zs p q qs n where c: "ys @ [tail m] = q # qs" "store m a = Some n" "next n = Some q"
      "distinct (zs @ p # a # q # qs)" "dll (nxt (store m)) (prv (store m)) (zs @ p # a # q # qs)"
      using lm_rep_neighbours[OF r[unfolded s(1)]] by metis
    have "k \<notin> fst ` set us" using r by (simp add: lm_rep_def chain_def s(2))
    then have "dropWhile (\<lambda>e. fst e \<noteq> k) es = (k, v) # ws"
      unfolding s(2) by (subst dropWhile_append2) (auto simp: image_iff)
    then have it: "al_iterate startKey es = (if ws = [] then es else ws)"
      by (simp add: al_iterate_def k(1) split: list.splits)
    have "dll (nxt (store m)) (prv (store m)) (ys @ [tail m])"
      using c(1,5) dll_append[of "nxt (store m)" "prv (store m)" "zs @ [p, a]" q qs] by (cases qs) auto
    then have "walk m (Some q) = Some (map (\<lambda>(k, v). (k, Some v)) ws)"
      using c(1,4) s(3) by (intro walk_refines) auto
    with it all k c hn s(3) show ?thesis
      by (cases ys) (auto simp: LinkedMap_Iterator_def list_all2_Cons1)
  qed
qed

section \<open>Well-formed maps as a type\<close>

text \<open>
  Every map in the program comes from \<^verbatim>\<open>NewLinkedMap\<close> and is changed by these operations
  only, so it is well-formed, and on well-formed maps no operation panics and every
  iteration ends. The type \<open>linked_map\<close> is the type of well-formed maps; its operations
  are the ones above without the panic.
\<close>

lemma lm_wf_new: "lm_wf NewLinkedMap"
  using lm_rep_new by (auto simp: lm_wf_def)

lemma lm_wf_ops:
  assumes "lm_wf m"
  shows "\<exists>m'. LinkedMap_Put m k v = Some m' \<and> lm_wf m'"
    and "\<exists>m' x b. LinkedMap_Remove m k = Some (m', x, b) \<and> lm_wf m'"
    and "\<exists>m' b. LinkedMap_Replace m k k' v = Some (m', b) \<and> lm_wf m'"
proof -
  obtain as es where r: "lm_rep m as es" using assms by (auto simp: lm_wf_def)
  show "\<exists>m'. LinkedMap_Put m k v = Some m' \<and> lm_wf m'"
    using LinkedMap_Put_refines[OF r, of k v] by (auto simp: lm_wf_def)
  show "\<exists>m' x b. LinkedMap_Remove m k = Some (m', x, b) \<and> lm_wf m'"
    using LinkedMap_Remove_refines[OF r, of k] by (auto simp: lm_wf_def)
  show "\<exists>m' b. LinkedMap_Replace m k k' v = Some (m', b) \<and> lm_wf m'"
    using LinkedMap_Replace_refines[OF r, of k k' v] by (auto simp: lm_wf_def)
qed

typedef (overloaded) ('k::zero, 'v) linked_map = "{m :: ('k, 'v) LinkedMap. lm_wf m}"
  using lm_wf_new by blast

setup_lifting type_definition_linked_map

lift_definition lm_new :: "('k::zero, 'v) linked_map" is NewLinkedMap
  by (rule lm_wf_new)

lift_definition lm_put :: "('k::zero, 'v) linked_map \<Rightarrow> 'k \<Rightarrow> 'v \<Rightarrow> ('k, 'v) linked_map"
  is "\<lambda>m k v. the (LinkedMap_Put m k v)"
  subgoal for m k v using lm_wf_ops(1)[of m k v] by auto done

lift_definition lm_remove :: "('k::zero, 'v) linked_map \<Rightarrow> 'k \<Rightarrow> ('k, 'v) linked_map"
  is "\<lambda>m k. fst (the (LinkedMap_Remove m k))"
  subgoal for m k using lm_wf_ops(2)[of m k] by auto done

lift_definition lm_replace ::
  "('k::zero, 'v) linked_map \<Rightarrow> 'k \<Rightarrow> 'k \<Rightarrow> 'v \<Rightarrow> ('k, 'v) linked_map"
  is "\<lambda>m k k' v. fst (the (LinkedMap_Replace m k k' v))"
  subgoal for m k k' v using lm_wf_ops(3)[of m k k' v] by auto done

lift_definition lm_get :: "('k::zero, 'v) linked_map \<Rightarrow> 'k \<Rightarrow> 'v option"
  is "\<lambda>m k. the (LinkedMap_Get m k)" .

lift_definition lm_size :: "('k::zero, 'v) linked_map \<Rightarrow> int"
  is LinkedMap_Size .

lift_definition lm_first :: "('k::zero, 'v) linked_map \<Rightarrow> 'k \<times> 'v option \<times> bool"
  is "\<lambda>m. the (LinkedMap_First m)" .

lift_definition lm_next :: "('k::zero, 'v) linked_map \<Rightarrow> 'k \<Rightarrow> 'k \<times> 'v option \<times> bool"
  is "\<lambda>m k. the (LinkedMap_Next m k)" .

lift_definition lm_iterator :: "('k::zero, 'v) linked_map \<Rightarrow> 'k option \<Rightarrow> ('k \<times> 'v option) list"
  is "\<lambda>m sk. the (LinkedMap_Iterator m sk)" .

text \<open>The entries in insertion order, read off by the iterator.\<close>

definition lm_entries :: "('k::zero, 'v) linked_map \<Rightarrow> ('k \<times> 'v) list" where
  "lm_entries m = map (\<lambda>(k, v). (k, the v)) (lm_iterator m None)"

lemma map_the_Some [simp]: "map (\<lambda>(k, v). (k, the v)) (map (\<lambda>(k, v). (k, Some v)) es) = es"
  by (induction es) auto

lemma lm_entries_rep:
  assumes "lm_rep (Rep_linked_map m) as es"
  shows "lm_entries m = es"
  using LinkedMap_Iterator_refines[OF assms, of None]
  by (simp add: lm_entries_def lm_iterator.rep_eq al_iterate_def del: map_map)

lemma lm_repE:
  obtains as where "lm_rep (Rep_linked_map m) as (lm_entries m)"
  using Rep_linked_map[of m] lm_entries_rep[of m] by (auto simp: lm_wf_def)

lemma lm_entries_new [simp, lm_simps]: "lm_entries lm_new = []"
  by (rule lm_entries_rep[where as = "[]"]) (simp add: lm_new.rep_eq lm_rep_new)

lemma lm_entries_put [simp, lm_simps]: "lm_entries (lm_put m k v) = al_put k v (lm_entries m)"
proof -
  obtain as where "lm_rep (Rep_linked_map m) as (lm_entries m)" by (rule lm_repE)
  from LinkedMap_Put_refines[OF this, of k v] show ?thesis
    by (auto simp: lm_put.rep_eq intro: lm_entries_rep)
qed

lemma lm_entries_remove [simp, lm_simps]: "lm_entries (lm_remove m k) = al_remove k (lm_entries m)"
proof -
  obtain as where "lm_rep (Rep_linked_map m) as (lm_entries m)" by (rule lm_repE)
  from LinkedMap_Remove_refines[OF this, of k] show ?thesis
    by (auto simp: lm_remove.rep_eq intro: lm_entries_rep)
qed

lemma lm_entries_replace [simp, lm_simps]:
  "lm_entries (lm_replace m k k' v) = al_replace k k' v (lm_entries m)"
proof -
  obtain as where "lm_rep (Rep_linked_map m) as (lm_entries m)" by (rule lm_repE)
  from LinkedMap_Replace_refines[OF this, of k k' v] show ?thesis
    by (auto simp: lm_replace.rep_eq intro: lm_entries_rep)
qed

lemma lm_reads [simp, lm_simps]:
  "lm_get m k = map_of (lm_entries m) k"
  "lm_size m = int (length (lm_entries m))"
  "lm_first m = entry_result (case lm_entries m of [] \<Rightarrow> None | e # _ \<Rightarrow> Some e)"
  "lm_next m k = entry_result (al_next k (lm_entries m))"
  "lm_iterator m sk = map (\<lambda>(k, v). (k, Some v)) (al_iterate sk (lm_entries m))"
proof -
  obtain as where r: "lm_rep (Rep_linked_map m) as (lm_entries m)" by (rule lm_repE)
  show "lm_get m k = map_of (lm_entries m) k"
    by (simp add: lm_get.rep_eq LinkedMap_Get_refines[OF r])
  show "lm_size m = int (length (lm_entries m))"
    by (simp add: lm_size.rep_eq LinkedMap_Size_refines[OF r])
  show "lm_first m = entry_result (case lm_entries m of [] \<Rightarrow> None | e # _ \<Rightarrow> Some e)"
    by (simp add: lm_first.rep_eq LinkedMap_First_refines[OF r])
  show "lm_next m k = entry_result (al_next k (lm_entries m))"
    by (simp add: lm_next.rep_eq LinkedMap_Next_refines[OF r])
  show "lm_iterator m sk = map (\<lambda>(k, v). (k, Some v)) (al_iterate sk (lm_entries m))"
    by (simp add: lm_iterator.rep_eq LinkedMap_Iterator_refines[OF r])
qed

lemma lm_distinct [simp]: "distinct (map fst (lm_entries m))"
proof -
  obtain as where "lm_rep (Rep_linked_map m) as (lm_entries m)" by (rule lm_repE)
  then show ?thesis by (simp add: lm_rep_def chain_def)
qed

section \<open>The contract of the clients\<close>

lemma set_al_put: "set (al_put k v es) = insert (k, v) {e \<in> set es. fst e \<noteq> k}"
  by (force simp: al_put_def)

lemma set_al_remove: "set (al_remove k es) = {e \<in> set es. fst e \<noteq> k}"
  by (auto simp: al_remove_def)

interpretation lmc: keyed_map lm_entries lm_put lm_remove lm_get
  by unfold_locales (simp_all add: set_al_put set_al_remove)

section \<open>Runs of operations\<close>

datatype ('k, 'v) lm_op = Put_op 'k 'v | Remove_op 'k | Replace_op 'k 'k 'v

fun lm_step :: "('k, 'v) LinkedMap \<Rightarrow> ('k, 'v) lm_op \<Rightarrow> ('k, 'v) LinkedMap option" where
  "lm_step m (Put_op k v) = LinkedMap_Put m k v"
| "lm_step m (Remove_op k) = map_option fst (LinkedMap_Remove m k)"
| "lm_step m (Replace_op k k' v) = map_option fst (LinkedMap_Replace m k k' v)"

fun lm_run :: "('k, 'v) LinkedMap \<Rightarrow> ('k, 'v) lm_op list \<Rightarrow> ('k, 'v) LinkedMap option" where
  "lm_run m [] = Some m"
| "lm_run m (x # xs) = do { m' \<leftarrow> lm_step m x; lm_run m' xs }"

fun al_step :: "('k \<times> 'v) list \<Rightarrow> ('k, 'v) lm_op \<Rightarrow> ('k \<times> 'v) list" where
  "al_step es (Put_op k v) = al_put k v es"
| "al_step es (Remove_op k) = al_remove k es"
| "al_step es (Replace_op k k' v) = al_replace k k' v es"

lemma lm_step_refines:
  assumes "lm_rep m as es"
  shows "\<exists>m' as'. lm_step m x = Some m' \<and> lm_rep m' as' (al_step es x)"
  using LinkedMap_Put_refines[OF assms] LinkedMap_Remove_refines[OF assms]
    LinkedMap_Replace_refines[OF assms]
  by (cases x) fastforce+

lemma lm_run_refines:
  "lm_rep m as es \<Longrightarrow> \<exists>m' as'. lm_run m xs = Some m' \<and> lm_rep m' as' (foldl al_step es xs)"
proof (induction xs arbitrary: m as es)
  case (Cons x xs)
  obtain m' as' where "lm_step m x = Some m'" "lm_rep m' as' (al_step es x)"
    using lm_step_refines[OF Cons.prems] by blast
  with Cons.IH show ?case by simp
qed auto

text \<open>
  What one outer entry contributes to a nested iteration, and the whole of it: the start key
  cuts the entries of the first inner map only.
\<close>

definition inner_pairs :: "('v1 \<Rightarrow> ('k2::zero, 'v2) linked_map) \<Rightarrow> 'k2 option \<Rightarrow> 'v1 \<Rightarrow> ('v1 option \<times> 'v2 option) list" where
  "inner_pairs inner sk v = map (\<lambda>e. (Some v, Some (snd e))) (al_iterate sk (lm_entries (inner v)))"

lemma inner_Iterator:
  assumes "g (Some v) = Rep_linked_map (inner v)"
  shows "LinkedMap_Iterator (g (Some v)) sk = Some (map (\<lambda>(k, v). (k, Some v)) (al_iterate sk (lm_entries (inner v))))"
  using lm_repE[of "inner v"] LinkedMap_Iterator_refines by (metis assms)

lemma nested_walk_refines:
  assumes g: "\<And>v. g (Some v) = Rep_linked_map (inner v)"
  shows "nested_walk g sk2 (map (\<lambda>(k, v). (k, Some v)) es) =
    Some (case es of [] \<Rightarrow> [] | e # es' \<Rightarrow>
      inner_pairs inner sk2 (snd e) @ concat (map (\<lambda>e. inner_pairs inner None (snd e)) es'))"
proof -
  have pairs: "map (\<lambda>(_, w). (Some v, w)) (map (\<lambda>(k, v). (k, Some v)) (al_iterate s (lm_entries (inner v)))) = inner_pairs inner s v" for v s
    by (auto simp: inner_pairs_def)
  have it: "LinkedMap_Iterator (g (Some v)) s = Some (map (\<lambda>(k, v). (k, Some v)) (al_iterate s (lm_entries (inner v))))" for v s
    using inner_Iterator[where g = g and inner = inner] g by blast
  have later: "nested_walk g None (map (\<lambda>(k, v). (k, Some v)) es) = Some (concat (map (\<lambda>e. inner_pairs inner None (snd e)) es))" for es
    by (induction es) (auto simp: it pairs simp del: map_map)
  show ?thesis
    by (cases es) (auto simp: it pairs later simp del: map_map)
qed

section \<open>Properties\<close>

text \<open>
  C16: Any sequence of \<^verbatim>\<open>Put\<close>, \<^verbatim>\<open>Remove\<close> and \<^verbatim>\<open>Replace\<close> calls on a new linked map runs without a nil
  dereference and refines the list of entries in insertion order: lookups, the size and the
  oldest entry are those of the list, where a put on a present key keeps its position and a
  replace renames an entry in place.
\<close>
theorem linked_map_refines_entries:
  "\<exists>m. lm_run NewLinkedMap ops = Some m \<and>
     (\<forall>k. LinkedMap_Get m k = Some (map_of (foldl al_step [] ops) k)) \<and>
     LinkedMap_Size m = int (length (foldl al_step [] ops)) \<and>
     LinkedMap_First m =
       Some (entry_result (case foldl al_step [] ops of [] \<Rightarrow> None | e # _ \<Rightarrow> Some e)) \<and>
     (\<forall>k. LinkedMap_Next m k = Some (entry_result (al_next k (foldl al_step [] ops)))) \<and>
     (\<forall>k. LinkedMap_Previous m k = Some (entry_result (al_prev k (foldl al_step [] ops))))"
proof -
  obtain m as where m: "lm_run NewLinkedMap ops = Some m" and r: "lm_rep m as (foldl al_step [] ops)"
    using lm_run_refines[OF lm_rep_new] by blast
  show ?thesis
    using m LinkedMap_Get_refines[OF r] LinkedMap_Size_refines[OF r] LinkedMap_First_refines[OF r]
      LinkedMap_Next_refines[OF r] LinkedMap_Previous_refines[OF r] by blast
qed

text \<open>
  C21: An iteration over a linked map ends, and yields the entries in insertion order: all of
  them, or those after the start key when it is in the map and is not the last.
\<close>
theorem linked_map_iteration:
  "\<exists>m. lm_run NewLinkedMap ops = Some m \<and>
     (\<forall>startKey. LinkedMap_Iterator m startKey =
        Some (map (\<lambda>(k, v). (k, Some v)) (al_iterate startKey (foldl al_step [] ops))))"
proof -
  obtain m as where m: "lm_run NewLinkedMap ops = Some m" and r: "lm_rep m as (foldl al_step [] ops)"
    using lm_run_refines[OF lm_rep_new] by blast
  with LinkedMap_Iterator_refines[OF r] show ?thesis by blast
qed

end
