(* ===== verification/Sorted_Map.thy ===== *)
theory Sorted_Map
  imports Indexed_Chain Map_Interface
begin

text \<open>
  \<^verbatim>\<open>sortedmap.go\<close>: a skip list. The nodes between two sentinels form a doubly linked chain in
  key order (\<^verbatim>\<open>after\<close>, \<^verbatim>\<open>prev\<close>), and every node carries forward pointers for the levels
  below its height (\<^verbatim>\<open>next\<close>); a search runs down from the top level. As for the linked map,
  nodes live in a store, a nil pointer is \<open>None\<close>, and \<open>None\<close> as the result of an operation
  is a nil dereference, an index out of range, or a loop that does not end.

  Every operation refines the one on the sorted list of entries; the well-formed maps form
  the type \<open>sorted_map\<close>, which meets the contract \<open>keyed_map\<close> and, for the neighbour
  searches, \<open>sorted_keyed_map\<close>.
\<close>

section \<open>The data structure\<close>

text \<open>
  \<open>slevel\<close> and \<open>ssize\<close> are natural numbers: the level stays between 1 and \<open>maxLevel\<close>, and
  the size, the number of nodes, is decremented only when a node is removed.
\<close>

definition maxLevel :: nat where "maxLevel = 32"

definition nodesPerLevel :: nat where "nodesPerLevel = 4"

record ('k, 'v) smNode =
  skey :: 'k
  svalue :: "'v option"
  snext :: "addr option list"
  safter :: "addr option"
  sprev :: "addr option"

record ('k, 'v) SortedMap =
  sstore :: "addr \<rightharpoonup> ('k, 'v) smNode"
  salloc :: addr \<comment> \<open>the next unused address\<close>
  sitems :: "'k \<rightharpoonup> addr"
  shead :: addr
  stail :: addr
  slevel :: nat
  ssize :: nat

section \<open>Operations\<close>

definition NewSortedMap :: "('k::zero, 'v) SortedMap" where
  "NewSortedMap =
     \<lparr>sstore = [0 \<mapsto> \<lparr>skey = 0, svalue = None, snext = replicate maxLevel None,
                      safter = Some 1, sprev = None\<rparr>,
                1 \<mapsto> \<lparr>skey = 0, svalue = None, snext = [], safter = None, sprev = Some 0\<rparr>],
      salloc = 2, sitems = Map.empty, shead = 0, stail = 1, slevel = 1, ssize = 0\<rparr>"

text \<open>The loop of \<^verbatim>\<open>getNodeLevel\<close> runs forever at position 0.\<close>

partial_function (option) level_loop :: "nat \<Rightarrow> nat \<Rightarrow> nat option" where
  "level_loop pos level =
     (if pos mod nodesPerLevel = 0 then level_loop (pos div nodesPerLevel) (level + 1)
      else Some level)"

definition getNodeLevel :: "('k, 'v) SortedMap \<Rightarrow> nat option" where
  "getNodeLevel m = do {
     level \<leftarrow> level_loop (ssize m + 1) 1;
     Some (if level > maxLevel then maxLevel else level)
   }"

definition SortedMap_Size :: "('k, 'v) SortedMap \<Rightarrow> nat" where
  "SortedMap_Size m = ssize m"

text \<open>\<open>p.next[i]\<close>, and the updates of a node through a pointer.\<close>

definition next_at :: "('k, 'v) SortedMap \<Rightarrow> addr \<Rightarrow> nat \<Rightarrow> addr option option" where
  "next_at m a i = do {
     n \<leftarrow> sstore m a;
     if i < length (snext n) then Some (snext n ! i) else None
   }"

definition upd_node ::
  "('k, 'v) SortedMap \<Rightarrow> addr option \<Rightarrow> (('k, 'v) smNode \<Rightarrow> ('k, 'v) smNode) \<Rightarrow> ('k, 'v) SortedMap option" where
  "upd_node m p f = do {
     a \<leftarrow> p;
     n \<leftarrow> sstore m a;
     Some (m\<lparr>sstore := (sstore m)(a \<mapsto> f n)\<rparr>)
   }"

definition set_next_at :: "('k, 'v) SortedMap \<Rightarrow> addr \<Rightarrow> nat \<Rightarrow> addr option \<Rightarrow> ('k, 'v) SortedMap option" where
  "set_next_at m a i x = do {
     n \<leftarrow> sstore m a;
     if i < length (snext n) then upd_node m (Some a) (\<lambda>n. n\<lparr>snext := (snext n)[i := x]\<rparr>) else None
   }"

text \<open>
  The search loops: along one level while the next key satisfies the condition, then one
  level down. \<^verbatim>\<open>Put\<close> and \<^verbatim>\<open>Remove\<close> record where each level stopped in \<open>update\<close>.
\<close>

partial_function (option) sm_advance ::
  "('k, 'v) SortedMap \<Rightarrow> ('k \<Rightarrow> bool) \<Rightarrow> nat \<Rightarrow> addr \<Rightarrow> addr option" where
  "sm_advance m P i current = do {
     nx \<leftarrow> next_at m current i;
     (case nx of
        None \<Rightarrow> Some current
      | Some b \<Rightarrow>
          if b = stail m then Some current
          else do {
            n \<leftarrow> sstore m b;
            if P (skey n) then sm_advance m P i b else Some current
          })
   }"

fun sm_search ::
  "('k, 'v) SortedMap \<Rightarrow> ('k \<Rightarrow> bool) \<Rightarrow> nat \<Rightarrow> addr \<Rightarrow> addr option list \<Rightarrow>
   (addr \<times> addr option list) option" where
  "sm_search m P 0 current update = Some (current, update)"
| "sm_search m P (Suc i) current update = do {
     current \<leftarrow> sm_advance m P i current;
     sm_search m P i current (update[i := Some current])
   }"

fun sm_descend :: "('k, 'v) SortedMap \<Rightarrow> ('k \<Rightarrow> bool) \<Rightarrow> nat \<Rightarrow> addr \<Rightarrow> addr option" where
  "sm_descend m P 0 current = Some current"
| "sm_descend m P (Suc i) current = do {
     current \<leftarrow> sm_advance m P i current;
     sm_descend m P i current
   }"

text \<open>The insertion loop of \<^verbatim>\<open>Put\<close> and the unlinking loop of \<^verbatim>\<open>Remove\<close>, over the level indices.\<close>

fun sm_link :: "('k, 'v) SortedMap \<Rightarrow> addr option list \<Rightarrow> addr \<Rightarrow> nat list \<Rightarrow> ('k, 'v) SortedMap option" where
  "sm_link m update newNode [] = Some m"
| "sm_link m update newNode (i # is) = do {
     u \<leftarrow> update ! i;
     nx \<leftarrow> next_at m u i;
     m \<leftarrow> set_next_at m newNode i nx;
     m \<leftarrow> set_next_at m u i (Some newNode);
     sm_link m update newNode is
   }"

fun sm_unlink :: "('k, 'v) SortedMap \<Rightarrow> addr option list \<Rightarrow> addr \<Rightarrow> nat list \<Rightarrow> ('k, 'v) SortedMap option" where
  "sm_unlink m update targetNode [] = Some m"
| "sm_unlink m update targetNode (i # is) = do {
     u \<leftarrow> update ! i;
     nx \<leftarrow> next_at m u i;
     (if nx \<noteq> Some targetNode then sm_unlink m update targetNode is
      else do {
        tn \<leftarrow> next_at m targetNode i;
        m \<leftarrow> set_next_at m u i tn;
        sm_unlink m update targetNode is
      })
   }"

fun lower_level :: "('k, 'v) SortedMap \<Rightarrow> nat \<Rightarrow> nat option" where
  "lower_level m 0 = Some 0"
| "lower_level m (Suc l) =
     (if Suc l > 1 then do {
        nx \<leftarrow> next_at m (shead m) l;
        if nx = None then lower_level m l else Some (Suc l)
      }
      else Some (Suc l))"

definition SortedMap_Put :: "('k::linorder, 'v) SortedMap \<Rightarrow> 'k \<Rightarrow> 'v \<Rightarrow> ('k, 'v) SortedMap option" where
  "SortedMap_Put m k v =
     (case sitems m k of
        Some existing \<Rightarrow> upd_node m (Some existing) (\<lambda>n. n\<lparr>svalue := Some v\<rparr>)
      | None \<Rightarrow> do {
          (current, update) \<leftarrow>
            sm_search m (\<lambda>k'. k' < k) (slevel m) (shead m) (replicate maxLevel None);
          level \<leftarrow> getNodeLevel m;
          let (update, m) =
            (if level > slevel m
             then (take (slevel m) update @ replicate (level - slevel m) (Some (shead m)) @ drop level update,
                   m\<lparr>slevel := level\<rparr>)
             else (update, m));
          let newNode = salloc m;
          let m = m\<lparr>sstore := (sstore m)(newNode \<mapsto>
                      \<lparr>skey = k, svalue = Some v, snext = replicate level None, safter = None, sprev = None\<rparr>),
                    salloc := Suc newNode\<rparr>;
          m \<leftarrow> sm_link m update newNode [0..<level];
          predecessor \<leftarrow> update ! 0;
          p \<leftarrow> sstore m predecessor;
          let successor = safter p;
          m \<leftarrow> upd_node m (Some newNode) (\<lambda>n. n\<lparr>safter := successor, sprev := Some predecessor\<rparr>);
          m \<leftarrow> upd_node m (Some predecessor) (\<lambda>n. n\<lparr>safter := Some newNode\<rparr>);
          m \<leftarrow> upd_node m successor (\<lambda>n. n\<lparr>sprev := Some newNode\<rparr>);
          Some (m\<lparr>sitems := (sitems m)(k \<mapsto> newNode), ssize := ssize m + 1\<rparr>)
        })"

definition SortedMap_Get :: "('k, 'v) SortedMap \<Rightarrow> 'k \<Rightarrow> 'v option option" where
  "SortedMap_Get m k =
     (case sitems m k of
        Some a \<Rightarrow> do { n \<leftarrow> sstore m a; Some (svalue n) }
      | None \<Rightarrow> Some None)"

definition SortedMap_Contains :: "('k, 'v) SortedMap \<Rightarrow> 'k \<Rightarrow> bool" where
  "SortedMap_Contains m k = (sitems m k \<noteq> None)"

text \<open>The key and value of the node a pointer leads to, unless it is the given sentinel.\<close>

definition sm_entry_at ::
  "('k::zero, 'v) SortedMap \<Rightarrow> addr \<Rightarrow> addr option \<Rightarrow> ('k \<times> 'v option \<times> bool) option" where
  "sm_entry_at m sentinel p =
     (if p \<noteq> Some sentinel then do { a \<leftarrow> p; n \<leftarrow> sstore m a; Some (skey n, svalue n, True) }
      else Some (0, None, False))"

definition SortedMap_Next ::
  "('k::{zero, linorder}, 'v) SortedMap \<Rightarrow> 'k \<Rightarrow> ('k \<times> 'v option \<times> bool) option" where
  "SortedMap_Next m k =
     (case sitems m k of
        Some a \<Rightarrow> do { n \<leftarrow> sstore m a; sm_entry_at m (stail m) (safter n) }
      | None \<Rightarrow> do {
          current \<leftarrow> sm_descend m (\<lambda>k'. k \<ge> k') (slevel m) (shead m);
          n \<leftarrow> sstore m current;
          sm_entry_at m (stail m) (safter n)
        })"

definition SortedMap_Prev ::
  "('k::{zero, linorder}, 'v) SortedMap \<Rightarrow> 'k \<Rightarrow> ('k \<times> 'v option \<times> bool) option" where
  "SortedMap_Prev m k =
     (case sitems m k of
        Some a \<Rightarrow> do { n \<leftarrow> sstore m a; sm_entry_at m (shead m) (sprev n) }
      | None \<Rightarrow> do {
          current \<leftarrow> sm_descend m (\<lambda>k'. k' < k) (slevel m) (shead m);
          sm_entry_at m (shead m) (Some current)
        })"

definition SortedMap_Min :: "('k::zero, 'v) SortedMap \<Rightarrow> ('k \<times> 'v option \<times> bool) option" where
  "SortedMap_Min m = do { h \<leftarrow> sstore m (shead m); sm_entry_at m (stail m) (safter h) }"

definition SortedMap_Remove ::
  "('k::linorder, 'v) SortedMap \<Rightarrow> 'k \<Rightarrow> (('k, 'v) SortedMap \<times> 'v option \<times> bool) option" where
  "SortedMap_Remove m k =
     (case sitems m k of
        None \<Rightarrow> Some (m, None, False)
      | Some targetNode \<Rightarrow> do {
          (current, update) \<leftarrow>
            sm_search m (\<lambda>k'. k' < k) (slevel m) (shead m) (replicate maxLevel None);
          nx \<leftarrow> next_at m current 0;
          m \<leftarrow> (if nx = Some targetNode then sm_unlink m update targetNode [0..<slevel m] else Some m);
          t \<leftarrow> sstore m targetNode;
          m \<leftarrow> upd_node m (sprev t) (\<lambda>n. n\<lparr>safter := safter t\<rparr>);
          t \<leftarrow> sstore m targetNode;
          m \<leftarrow> upd_node m (safter t) (\<lambda>n. n\<lparr>sprev := sprev t\<rparr>);
          level \<leftarrow> lower_level m (slevel m);
          Some (m\<lparr>slevel := level, sitems := (sitems m)(k := None), ssize := ssize m - 1\<rparr>, svalue t, True)
        })"

section \<open>Levels\<close>

text \<open>
  \<open>lch l a bs\<close>: following the level links \<open>l\<close> from \<open>a\<close> visits \<open>bs\<close> and ends in nil.
\<close>

fun lch :: "links \<Rightarrow> addr \<Rightarrow> addr list \<Rightarrow> bool" where
  "lch l a [] = (l a = None)"
| "lch l a (b # bs) = (l a = Some b \<and> lch l b bs)"

lemma lch_suffix: "h # F = us @ c # bs \<Longrightarrow> lch l h (F @ G) \<Longrightarrow> lch l c (bs @ G)"
proof (induction us arbitrary: h F)
  case (Cons u us)
  then obtain f F' where "F = f # F'" by (cases F) auto
  moreover from this have "lch l f (F' @ G)" using Cons.prems(2) by simp
  ultimately show ?case using Cons.prems(1) by (intro Cons.IH[of f F']) simp_all
qed simp

lemma lch_last: "lch l h (F @ G) \<Longrightarrow> l (last (h # F)) = (case G of [] \<Rightarrow> None | g # _ \<Rightarrow> Some g)"
proof -
  assume "lch l h (F @ G)"
  with lch_suffix[of h F "butlast (h # F)" "last (h # F)" "[]" l G]
  have "lch l (last (h # F)) G" by (metis append_Nil append_butlast_last_id list.distinct(1))
  then show ?thesis by (cases G) auto
qed

lemma lch_None: "lch l h F \<Longrightarrow> l h = None \<Longrightarrow> F = []"
  by (cases F) auto

lemma lch_cong: "(\<And>a. a \<in> set (h # F) \<Longrightarrow> l' a = l a) \<Longrightarrow> lch l' h F = lch l h F"
  by (induction F arbitrary: h) auto

lemma lch_insert:
  assumes "lch l h (F @ G)" and "distinct (h # F @ G)" and "a \<notin> set (h # F @ G)"
  shows "lch (l(a := l (last (h # F)), last (h # F) := Some a)) h (F @ a # G)"
  using assms
proof (induction F arbitrary: h)
  case Nil
  then have "lch (l(a := l h, h := Some a)) a G"
  proof (cases G)
    case (Cons g G')
    have "lch (l(a := l h, h := Some a)) g G' = lch l g G'"
      using Nil.prems Cons by (intro lch_cong) auto
    then show ?thesis using Nil.prems Cons by simp
  qed auto
  then show ?case using Nil.prems by (simp add: fun_upd_def)
next
  case (Cons f F)
  have "lch (l(a := l (last (f # F)), last (f # F) := Some a)) f (F @ a # G)"
    using Cons.prems by (intro Cons.IH) auto
  moreover have "last (f # F) \<noteq> h" using Cons.prems(2) last_in_set[of "f # F"] by auto
  ultimately show ?case using Cons.prems by (auto simp: fun_upd_def)
qed

lemma lch_remove:
  assumes "lch l h (F @ a # G)" and "distinct (h # F @ a # G)"
  shows "lch (l(last (h # F) := l a)) h (F @ G)"
  using assms
proof (induction F arbitrary: h)
  case Nil
  show ?case
  proof (cases G)
    case (Cons g G')
    have "lch (l(h := Some g)) g G' = lch l g G'" using Nil.prems Cons by (intro lch_cong) auto
    then show ?thesis using Nil.prems Cons by (simp add: fun_upd_def)
  qed (use Nil in auto)
next
  case (Cons f F)
  have "lch (l(last (f # F) := l a)) f (F @ G)" using Cons.prems by (intro Cons.IH) auto
  moreover have "last (f # F) \<noteq> h" using Cons.prems(2) last_in_set[of "f # F"] by auto
  ultimately show ?case using Cons.prems by (auto simp: fun_upd_def)
qed

section \<open>Views of the store\<close>

definition aft :: "(addr \<rightharpoonup> ('k, 'v) smNode) \<Rightarrow> links" where
  "aft s a = Option.bind (s a) safter"

definition bef :: "(addr \<rightharpoonup> ('k, 'v) smNode) \<Rightarrow> links" where
  "bef s a = Option.bind (s a) sprev"

definition scontent :: "(addr \<rightharpoonup> ('k, 'v) smNode) \<Rightarrow> ('k, 'v) contents" where
  "scontent s a = map_option (\<lambda>n. (skey n, svalue n)) (s a)"

definition ht :: "(addr \<rightharpoonup> ('k, 'v) smNode) \<Rightarrow> addr \<Rightarrow> nat" where
  "ht s a = (case s a of None \<Rightarrow> 0 | Some n \<Rightarrow> length (snext n))"

definition lv :: "(addr \<rightharpoonup> ('k, 'v) smNode) \<Rightarrow> nat \<Rightarrow> links" where
  "lv s i a = (case s a of None \<Rightarrow> None | Some n \<Rightarrow> if i < length (snext n) then snext n ! i else None)"

lemma sview_upd:
  "aft (s(a \<mapsto> n)) = (aft s)(a := safter n)"
  "bef (s(a \<mapsto> n)) = (bef s)(a := sprev n)"
  "scontent (s(a \<mapsto> n)) = (scontent s)(a \<mapsto> (skey n, svalue n))"
  "ht (s(a \<mapsto> n)) = (ht s)(a := length (snext n))"
  "lv (s(a \<mapsto> n)) i = (lv s i)(a := (if i < length (snext n) then snext n ! i else None))"
  by (auto simp: aft_def bef_def scontent_def ht_def lv_def)

lemma sview_Some:
  assumes "s a = Some n"
  shows "aft s a = safter n" "bef s a = sprev n" "scontent s a = Some (skey n, svalue n)"
    "ht s a = length (snext n)" "lv s i a = (if i < length (snext n) then snext n ! i else None)"
  using assms by (simp_all add: aft_def bef_def scontent_def ht_def lv_def)

lemma sview_SomeD: "aft s a = Some b \<Longrightarrow> \<exists>n. s a = Some n \<and> safter n = Some b"
  "bef s a = Some b \<Longrightarrow> \<exists>n. s a = Some n \<and> sprev n = Some b"
  by (auto simp: aft_def bef_def bind_eq_Some_conv)

lemma sholds_store:
  "holds (scontent s) a e \<longleftrightarrow> (\<exists>n. s a = Some n \<and> skey n = fst e \<and> svalue n = Some (snd e))"
  by (auto simp: holds_def scontent_def)

text \<open>The four views that the level updates leave alone.\<close>

definition same_chain :: "('k, 'v) SortedMap \<Rightarrow> ('k, 'v) SortedMap \<Rightarrow> bool" where
  "same_chain m m' \<longleftrightarrow>
     aft (sstore m') = aft (sstore m) \<and> bef (sstore m') = bef (sstore m) \<and>
     scontent (sstore m') = scontent (sstore m) \<and> ht (sstore m') = ht (sstore m) \<and>
     dom (sstore m') = dom (sstore m) \<and> m'\<lparr>sstore := sstore m\<rparr> = m"

lemma same_chain_refl [simp]: "same_chain m m"
  by (simp add: same_chain_def)

lemma same_chain_trans [trans]: "same_chain m m' \<Longrightarrow> same_chain m' m'' \<Longrightarrow> same_chain m m''"
  by (cases m; cases m'; cases m'') (simp add: same_chain_def)

lemma next_at_view: "i < ht (sstore m) a \<Longrightarrow> next_at m a i = Some (lv (sstore m) i a)"
  by (auto simp: next_at_def ht_def lv_def split: option.splits)

lemma set_next_at_view:
  assumes "i < ht (sstore m) a"
  shows "\<exists>m'. set_next_at m a i x = Some m' \<and> same_chain m m' \<and>
     (\<forall>j. lv (sstore m') j = (if j = i then (lv (sstore m) i)(a := x) else lv (sstore m) j))"
proof -
  obtain n where n: "sstore m a = Some n" "i < length (snext n)"
    using assms by (auto simp: ht_def split: option.splits)
  let ?m = "m\<lparr>sstore := (sstore m)(a \<mapsto> n\<lparr>snext := (snext n)[i := x]\<rparr>)\<rparr>"
  have "same_chain m ?m"
    using n by (auto simp: same_chain_def sview_upd sview_Some fun_upd_idem)
  moreover have "lv (sstore ?m) j = (if j = i then (lv (sstore m) i)(a := x) else lv (sstore m) j)" for j
    using n by (auto simp: sview_upd sview_Some fun_eq_iff)
  moreover have "set_next_at m a i x = Some ?m"
    using n by (simp add: set_next_at_def upd_node_def)
  ultimately show ?thesis by blast
qed

section \<open>Well-formed skip lists\<close>

definition sm_rep :: "('k::linorder, 'v) SortedMap \<Rightarrow> addr list \<Rightarrow> ('k \<times> 'v) list \<Rightarrow> bool" where
  "sm_rep m as es \<longleftrightarrow>
     chain (aft (sstore m)) (bef (sstore m)) (scontent (sstore m)) (sitems m) (shead m) (stail m) as es \<and>
     sorted_wrt (<) (map fst es) \<and>
     (\<forall>i < maxLevel. lch (lv (sstore m) i) (shead m) (filter (\<lambda>a. i < ht (sstore m) a) as)) \<and>
     ht (sstore m) (shead m) = maxLevel \<and>
     (\<forall>a \<in> set as. 1 \<le> ht (sstore m) a \<and> ht (sstore m) a \<le> slevel m) \<and>
     1 \<le> slevel m \<and> slevel m \<le> maxLevel \<and>
     {shead m, stail m} \<subseteq> dom (sstore m) \<and> dom (sstore m) \<subseteq> {..<salloc m} \<and>
     ssize m = length es"

definition sm_wf :: "('k::linorder, 'v) SortedMap \<Rightarrow> bool" where
  "sm_wf m \<longleftrightarrow> (\<exists>as es. sm_rep m as es)"

lemma sm_rep_chain: "sm_rep m as es \<Longrightarrow>
    chain (aft (sstore m)) (bef (sstore m)) (scontent (sstore m)) (sitems m) (shead m) (stail m) as es"
  by (simp add: sm_rep_def)

lemmas sm_rep_lookup = chain_lookup[OF sm_rep_chain]
lemmas sm_rep_items_None = chain_index_None[OF sm_rep_chain]

lemma sm_rep_new: "sm_rep NewSortedMap [] []"
  by (auto simp: sm_rep_def chain_def NewSortedMap_def aft_def bef_def ht_def lv_def maxLevel_def
      split: if_splits)

text \<open>
  A downward closed condition on keys cuts the chain into a front part, where it holds, and
  a back part. The search on level \<open>i\<close> stops at the last front node higher than \<open>i\<close>.
\<close>

definition cut :: "('k::linorder, 'v) SortedMap \<Rightarrow> ('k \<Rightarrow> bool) \<Rightarrow> addr list \<Rightarrow> addr list \<Rightarrow>
    ('k \<times> 'v) list \<Rightarrow> ('k \<times> 'v) list \<Rightarrow> bool" where
  "cut m P xs ys us ws \<longleftrightarrow>
     sm_rep m (xs @ ys) (us @ ws) \<and> length xs = length us \<and>
     list_all2 (holds (scontent (sstore m))) xs us \<and> list_all2 (holds (scontent (sstore m))) ys ws \<and>
     (\<forall>e \<in> set us. P (fst e)) \<and> (\<forall>e \<in> set ws. \<not> P (fst e))"

definition pred_at :: "('k, 'v) SortedMap \<Rightarrow> addr list \<Rightarrow> nat \<Rightarrow> addr" where
  "pred_at m xs i = last (shead m # filter (\<lambda>a. i < ht (sstore m) a) xs)"

lemma sorted_cut:
  assumes "sorted_wrt (<) (map fst es)" and "\<And>a b. P b \<Longrightarrow> a < b \<Longrightarrow> P (a :: 'k::linorder)"
  shows "e \<in> set (dropWhile (P \<circ> fst) es) \<Longrightarrow> \<not> P (fst e)"
  using assms(1)
proof (induction es)
  case (Cons x es)
  show ?case
  proof (cases "P (fst x)")
    case False
    then show ?thesis using Cons.prems assms(2) by (auto simp: sorted_wrt_map)
  qed (use Cons in auto)
qed simp

lemma sm_cut:
  assumes r: "sm_rep m as es" and P: "\<And>a b. P b \<Longrightarrow> a < b \<Longrightarrow> P a"
  obtains xs ys where "as = xs @ ys"
    "cut m P xs ys (takeWhile (P \<circ> fst) es) (dropWhile (P \<circ> fst) es)"
proof -
  let ?us = "takeWhile (P \<circ> fst) es" and ?ws = "dropWhile (P \<circ> fst) es"
  let ?n = "length ?us"
  have len: "length as = length es" using chain_length[OF sm_rep_chain[OF r]] .
  have n: "?n \<le> length es" by (rule length_takeWhile_le)
  have "list_all2 (holds (scontent (sstore m))) as es"
    using r by (simp add: sm_rep_def chain_def)
  then have "list_all2 (holds (scontent (sstore m))) (take ?n as) (take ?n es)"
    "list_all2 (holds (scontent (sstore m))) (drop ?n as) (drop ?n es)"
    by (simp_all add: list_all2_takeI list_all2_dropI)
  then have "list_all2 (holds (scontent (sstore m))) (take ?n as) ?us"
    "list_all2 (holds (scontent (sstore m))) (drop ?n as) ?ws"
    by (simp_all only: takeWhile_eq_take[symmetric] dropWhile_eq_drop[symmetric])
  moreover have "\<forall>e \<in> set ?us. P (fst e)" by (auto dest: set_takeWhileD)
  moreover have "\<forall>e \<in> set ?ws. \<not> P (fst e)"
    using sorted_cut[of es P, OF _ P] r by (auto simp: sm_rep_def)
  ultimately show thesis using r len n by (intro that[of "take ?n as" "drop ?n as"]) (auto simp: cut_def)
qed

section \<open>The search\<close>

lemma advance_lch:
  assumes "lch (lv (sstore m) i) c (bs @ ds)" and "i < ht (sstore m) c"
    and "\<forall>b \<in> set bs. i < ht (sstore m) b"
    and "\<forall>b \<in> set bs. b \<noteq> stail m \<and> (\<exists>n. sstore m b = Some n \<and> P (skey n))"
    and "\<forall>d \<in> set ds. \<exists>n. sstore m d = Some n \<and> \<not> P (skey n)"
  shows "sm_advance m P i c = Some (last (c # bs))"
  using assms
proof (induction bs arbitrary: c)
  case Nil
  then show ?case
    by (subst sm_advance.simps) (cases ds; auto simp: next_at_view)
next
  case (Cons b bs)
  have "sm_advance m P i b = Some (last (b # bs))" using Cons.prems by (intro Cons.IH) auto
  then show ?case using Cons.prems by (subst sm_advance.simps) (auto simp: next_at_view)
qed

lemma cut_nodes:
  assumes "cut m P xs ys us ws"
  shows "\<forall>b \<in> set xs. b \<noteq> stail m \<and> (\<exists>n. sstore m b = Some n \<and> P (skey n))"
    and "\<forall>b \<in> set ys. \<exists>n. sstore m b = Some n \<and> \<not> P (skey n)"
  using assms
  by (auto simp: cut_def sm_rep_def chain_def list_all2_conv_all_nth in_set_conv_nth sholds_store)
     (metis nth_mem)+

lemma advance_cut:
  assumes c: "cut m P xs ys us ws" and i: "i < slevel m"
    and cur: "cur \<in> set (shead m # filter (\<lambda>a. i < ht (sstore m) a) xs)"
  shows "sm_advance m P i cur = Some (pred_at m xs i)"
proof -
  let ?F = "filter (\<lambda>a. i < ht (sstore m) a)"
  obtain us' bs where s: "shead m # ?F xs = us' @ cur # bs" using cur by (metis split_list)
  have r: "sm_rep m (xs @ ys) (us @ ws)" using c by (simp add: cut_def)
  have "lch (lv (sstore m) i) (shead m) (?F xs @ ?F ys)" using r i by (simp add: sm_rep_def)
  then have l: "lch (lv (sstore m) i) cur (bs @ ?F ys)" by (rule lch_suffix[OF s])
  have sub: "set bs \<subseteq> set (?F xs)"
  proof (cases us')
    case Nil
    then show ?thesis using s by auto
  next
    case (Cons u us'')
    then have "?F xs = us'' @ cur # bs" using s by simp
    then show ?thesis by (metis list.set_intros(2) set_append subsetI Un_iff)
  qed
  have "i < ht (sstore m) cur" using cur r i by (auto simp: sm_rep_def)
  moreover have "\<forall>b \<in> set bs. i < ht (sstore m) b" "\<forall>b \<in> set bs. b \<noteq> stail m \<and> (\<exists>n. sstore m b = Some n \<and> P (skey n))"
    using sub cut_nodes(1)[OF c] by auto
  moreover have "\<forall>d \<in> set (?F ys). \<exists>n. sstore m d = Some n \<and> \<not> P (skey n)"
    using cut_nodes(2)[OF c] by auto
  ultimately have "sm_advance m P i cur = Some (last (cur # bs))" using l by (intro advance_lch)
  moreover have "last (cur # bs) = pred_at m xs i"
    unfolding pred_at_def s by simp
  ultimately show ?thesis by simp
qed

lemma pred_at_mem: "pred_at m xs i \<in> set (shead m # filter (\<lambda>a. i < ht (sstore m) a) xs)"
  unfolding pred_at_def by (rule last_in_set) simp

lemma search_cut:
  assumes "cut m P xs ys us ws" and "n \<le> slevel m" and "n \<le> length update"
    and "cur \<in> set (shead m # filter (\<lambda>a. n \<le> ht (sstore m) a) xs)"
  shows "sm_search m P n cur update =
     Some (if n = 0 then cur else pred_at m xs 0,
       map (\<lambda>i. if i < n then Some (pred_at m xs i) else update ! i) [0..<length update])"
  using assms(2-)
proof (induction n arbitrary: cur update)
  case 0
  then show ?case by (simp add: map_nth)
next
  case (Suc n)
  have a: "sm_advance m P n cur = Some (pred_at m xs n)"
    using Suc.prems by (intro advance_cut[OF assms(1)]) (auto simp: Suc_le_eq)
  have "pred_at m xs n \<in> set (shead m # filter (\<lambda>a. n \<le> ht (sstore m) a) xs)"
    using pred_at_mem[of m xs n] by auto
  then show ?case
    using Suc.prems by (auto simp: a Suc.IH nth_list_update less_Suc_eq)
qed

lemma descend_search: "sm_descend m P n cur = map_option fst (sm_search m P n cur update)"
  by (induction n arbitrary: cur update) (auto simp: bind_eq_Some_conv map_option_bind
      split: Option.bind_split)

lemma pred_at_0:
  assumes "cut m P xs ys us ws"
  shows "pred_at m xs 0 = last (shead m # xs)"
proof -
  have "filter (\<lambda>a. 0 < ht (sstore m) a) xs = xs"
    using assms by (auto simp: cut_def sm_rep_def filter_id_conv Suc_le_eq)
  then show ?thesis by (simp only: pred_at_def)
qed

lemma search_head:
  assumes c: "cut m P xs ys us ws"
  shows "sm_search m P (slevel m) (shead m) (replicate maxLevel None) =
    Some (last (shead m # xs),
      map (\<lambda>i. if i < slevel m then Some (pred_at m xs i) else None) [0..<maxLevel])"
proof -
  have "1 \<le> slevel m" "slevel m \<le> maxLevel" using c by (auto simp: cut_def sm_rep_def)
  then show ?thesis by (auto simp: search_cut[OF c] pred_at_0[OF c])
qed

lemma descend_head:
  "cut m P xs ys us ws \<Longrightarrow> sm_descend m P (slevel m) (shead m) = Some (last (shead m # xs))"
  by (simp add: descend_search[where update = "replicate maxLevel None"] search_head)

section \<open>Linking a node in\<close>

lemma level_loop_Some: "0 < pos \<Longrightarrow> \<exists>l. level_loop pos level = Some l \<and> level \<le> l"
proof (induction pos arbitrary: level rule: less_induct)
  case (less pos)
  show ?case
  proof (cases "pos mod nodesPerLevel = 0")
    case True
    then have "0 < pos div nodesPerLevel" "pos div nodesPerLevel < pos"
      using less.prems by (auto simp: nodesPerLevel_def)
    from less.IH[OF this(2,1), of "level + 1"] obtain l
      where "level_loop (pos div nodesPerLevel) (level + 1) = Some l" "level + 1 \<le> l" by blast
    with True show ?thesis by (subst level_loop.simps) auto
  qed (subst level_loop.simps, auto)
qed

lemma getNodeLevel_Some: "\<exists>l. getNodeLevel m = Some l \<and> 1 \<le> l \<and> l \<le> maxLevel"
  using level_loop_Some[of "ssize m + 1" 1] by (auto simp: getNodeLevel_def maxLevel_def)

lemma sm_link_view:
  assumes "distinct is"
    and "\<forall>i \<in> set is. update ! i = Some (u i) \<and> u i \<noteq> new \<and> i < ht (sstore m) (u i) \<and> i < ht (sstore m) new"
  shows "\<exists>m'. sm_link m update new is = Some m' \<and> same_chain m m' \<and>
    (\<forall>j. lv (sstore m') j =
      (if j \<in> set is then (lv (sstore m) j)(new := lv (sstore m) j (u j), u j := Some new)
       else lv (sstore m) j))"
  using assms
proof (induction "is" arbitrary: m)
  case (Cons i "is")
  have i: "update ! i = Some (u i)" "u i \<noteq> new" "i < ht (sstore m) (u i)" "i < ht (sstore m) new"
    using Cons.prems(2) by simp_all
  obtain m1 where m1: "set_next_at m new i (lv (sstore m) i (u i)) = Some m1" "same_chain m m1"
    "\<forall>j. lv (sstore m1) j = (if j = i then (lv (sstore m) i)(new := lv (sstore m) i (u i)) else lv (sstore m) j)"
    using set_next_at_view[OF i(4)] by blast
  have "i < ht (sstore m1) (u i)" using i(3) m1(2) by (simp add: same_chain_def)
  then obtain m2 where m2: "set_next_at m1 (u i) i (Some new) = Some m2" "same_chain m1 m2"
    "\<forall>j. lv (sstore m2) j = (if j = i then (lv (sstore m1) i)(u i := Some new) else lv (sstore m1) j)"
    using set_next_at_view by blast
  have s: "same_chain m m2" using m1(2) m2(2) by (rule same_chain_trans)
  then have h: "ht (sstore m2) = ht (sstore m)" by (simp add: same_chain_def)
  obtain m' where m': "sm_link m2 update new is = Some m'" "same_chain m2 m'"
    "\<forall>j. lv (sstore m') j =
      (if j \<in> set is then (lv (sstore m2) j)(new := lv (sstore m2) j (u j), u j := Some new)
       else lv (sstore m2) j)"
    using Cons.IH[of m2] Cons.prems h by auto
  have "sm_link m update new (i # is) = Some m'"
    using i m1(1) m2(1) m'(1) by (simp add: next_at_view)
  moreover have "same_chain m m'" using s m'(2) by (rule same_chain_trans)
  moreover have "i \<notin> set is" using Cons.prems(1) by simp
  ultimately show ?case using m1(3) m2(3) m'(3) by auto
qed simp

lemma cut_fresh:
  assumes c: "cut m P xs ys us ws"
  shows "salloc m \<notin> set (shead m # (xs @ ys) @ [stail m])"
proof -
  have "set (shead m # (xs @ ys) @ [stail m]) \<subseteq> dom (sstore m)"
    using c cut_nodes[OF c] by (auto simp: cut_def sm_rep_def)
  moreover have "dom (sstore m) \<subseteq> {..<salloc m}" using c by (simp add: cut_def sm_rep_def)
  ultimately show ?thesis using less_irrefl by blast
qed

text \<open>
  A well-formed map after one node is linked in, said of the views of the store.
\<close>

lemma sm_rep_insert:
  assumes c: "cut m (\<lambda>k'. k' < k) xs ys us ws" and k: "sitems m k = None"
    and e: "shead m # xs = zs @ [p]" "ys @ [stail m] = q # qs"
    and a: "a = salloc m" and l: "1 \<le> level" "level \<le> maxLevel"
    and v: "aft s' = (aft (sstore m))(a := Some q, p := Some a)"
      "bef s' = (bef (sstore m))(a := Some p, q := Some a)"
      "scontent s' = (scontent (sstore m))(a \<mapsto> (k, Some v))"
      "ht s' = (ht (sstore m))(a := level)"
      "\<And>i. lv s' i = (if i < level then (lv (sstore m) i)
         (a := lv (sstore m) i (pred_at m xs i), pred_at m xs i := Some a) else lv (sstore m) i)"
      "dom s' = insert a (dom (sstore m))"
    and m': "m' = \<lparr>sstore = s', salloc = Suc a, sitems = (sitems m)(k \<mapsto> a), shead = shead m,
      stail = stail m, slevel = max level (slevel m), ssize = ssize m + 1\<rparr>"
  shows "sm_rep m' (xs @ a # ys) (us @ (k, v) # ws)"
proof -
  note r = c[unfolded cut_def, THEN conjunct1]
  note ch = sm_rep_chain[OF r]
  have fresh: "a \<notin> set (shead m # (xs @ ys) @ [stail m])" unfolding a by (rule cut_fresh[OF c])
  have dist: "distinct (shead m # xs @ ys)" using ch by (simp add: chain_def)
  have kn: "k \<notin> fst ` set (us @ ws)" using sm_rep_items_None[OF r] k by simp
  have "chain (aft s') (bef s') (scontent s') ((sitems m)(k \<mapsto> a)) (shead m) (stail m)
      (xs @ a # ys) (us @ (k, v) # ws)"
    unfolding v(1,2) using c fresh v(3)
    by (intro chain_insert[OF ch _ e fresh kn]) (auto simp: cut_def)
  moreover have "sorted_wrt (<) (map fst (us @ (k, v) # ws))"
    using r c kn by (auto simp: sm_rep_def cut_def sorted_wrt_append linorder_not_less order_le_less)
  moreover have "lch (lv s' i) (shead m) (filter (\<lambda>b. i < ht s' b) (xs @ a # ys))" if i: "i < maxLevel" for i
  proof -
    let ?F = "filter (\<lambda>b. i < ht (sstore m) b)"
    have F: "filter (\<lambda>b. i < ht s' b) xs = ?F xs" "filter (\<lambda>b. i < ht s' b) ys = ?F ys"
      using fresh by (auto simp: v(4) intro: filter_cong)
    have lc: "lch (lv (sstore m) i) (shead m) (?F xs @ ?F ys)" using r i by (simp add: sm_rep_def)
    show ?thesis
    proof (cases "i < level")
      case True
      have "lch (lv s' i) (shead m) (?F xs @ a # ?F ys)"
        unfolding v(5) pred_at_def using True fresh dist
        by (simp only: if_True) (intro lch_insert lc; auto)
      then show ?thesis using True F by (simp add: v(4))
    qed (use lc F in \<open>simp add: v(4,5)\<close>)
  qed
  moreover have "\<forall>b \<in> set (xs @ a # ys). 1 \<le> ht s' b \<and> ht s' b \<le> max level (slevel m)"
    using r l by (auto simp: v(4) sm_rep_def le_max_iff_disj)
  moreover have "ht s' (shead m) = maxLevel" "1 \<le> max level (slevel m)" "max level (slevel m) \<le> maxLevel"
    "{shead m, stail m} \<subseteq> dom s'" "dom s' \<subseteq> {..<Suc a}" "ssize m + 1 = length (us @ (k, v) # ws)"
    using r l fresh by (auto simp: v(4,6) sm_rep_def a less_Suc_eq)
  ultimately show ?thesis by (simp add: sm_rep_def m' del: filter_append filter.simps)
qed

lemma upd_node_Some:
  "sstore m a = Some n \<Longrightarrow> upd_node m (Some a) f = Some (m\<lparr>sstore := (sstore m)(a \<mapsto> f n)\<rparr>)"
  by (simp add: upd_node_def)

section \<open>Refinement\<close>

text \<open>The operations on sorted entry lists.\<close>

definition sl_put :: "'k::linorder \<Rightarrow> 'v \<Rightarrow> ('k \<times> 'v) list \<Rightarrow> ('k \<times> 'v) list" where
  "sl_put k v es = takeWhile ((\<lambda>k'. k' < k) \<circ> fst) es @ (k, v) # dropWhile ((\<lambda>k'. k' \<le> k) \<circ> fst) es"

definition sl_remove :: "'k \<Rightarrow> ('k \<times> 'v) list \<Rightarrow> ('k \<times> 'v) list" where
  "sl_remove k es = filter (\<lambda>e. fst e \<noteq> k) es"

definition sl_next :: "'k::linorder \<Rightarrow> ('k \<times> 'v) list \<Rightarrow> ('k \<times> 'v) option" where
  "sl_next k es = find (\<lambda>e. k < fst e) es"

definition sl_prev :: "'k::linorder \<Rightarrow> ('k \<times> 'v) list \<Rightarrow> ('k \<times> 'v) option" where
  "sl_prev k es = find (\<lambda>e. fst e < k) (rev es)"

text \<open>The run of the insertion path, up to the new store.\<close>

lemma SortedMap_Put_run:
  assumes c: "cut m (\<lambda>k'. k' < k) xs ys us ws" and k: "sitems m k = None"
    and e: "shead m # xs = zs @ [p]" "ys @ [stail m] = q # qs" and a: "a = salloc m"
    and lev: "getNodeLevel m = Some level" "1 \<le> level" "level \<le> maxLevel"
  shows "\<exists>m2. SortedMap_Put m k v = do {
      m3 \<leftarrow> upd_node m2 (Some a) (\<lambda>n. n\<lparr>safter := Some q, sprev := Some p\<rparr>);
      m4 \<leftarrow> upd_node m3 (Some p) (\<lambda>n. n\<lparr>safter := Some a\<rparr>);
      m5 \<leftarrow> upd_node m4 (Some q) (\<lambda>n. n\<lparr>sprev := Some a\<rparr>);
      Some (m5\<lparr>sitems := (sitems m5)(k \<mapsto> a), ssize := ssize m5 + 1\<rparr>)
    } \<and>
    same_chain (m\<lparr>slevel := max level (slevel m), sstore := (sstore m)(a \<mapsto>
      \<lparr>skey = k, svalue = Some v, snext = replicate level None, safter = None, sprev = None\<rparr>),
      salloc := Suc a\<rparr>) m2 \<and>
    (\<forall>i. lv (sstore m2) i = (if i < level then (lv (sstore m) i)
       (a := lv (sstore m) i (pred_at m xs i), pred_at m xs i := Some a) else lv (sstore m) i))"
proof -
  note r = c[unfolded cut_def, THEN conjunct1]
  let ?new = "\<lparr>skey = k, svalue = Some v, snext = replicate level None, safter = None, sprev = None\<rparr>"
  let ?m1 = "m\<lparr>slevel := max level (slevel m), sstore := (sstore m)(a \<mapsto> ?new), salloc := Suc a\<rparr>"
  define upd where "upd = map (\<lambda>i. if i < slevel m then Some (pred_at m xs i) else None) [0..<maxLevel]"
  define upd' where "upd' = (if level > slevel m
    then take (slevel m) upd @ replicate (level - slevel m) (Some (shead m)) @ drop level upd else upd)"
  have same_level: "m\<lparr>slevel := slevel m\<rparr> = m" by (cases m) simp
  have high: "pred_at m xs i = shead m" if "slevel m \<le> i" for i
    using r that by (force simp: pred_at_def sm_rep_def filter_empty_conv)
  have upd': "upd' ! i = Some (pred_at m xs i)" if "i < level" for i
    using that lev(3) r by (auto simp: upd'_def upd_def nth_append high sm_rep_def)
  have fresh: "a \<notin> set (shead m # (xs @ ys) @ [stail m])" unfolding a by (rule cut_fresh[OF c])
  have none: "sstore m a = None" using r by (auto simp: sm_rep_def a)
  have pa: "pred_at m xs i \<noteq> a" "i < maxLevel \<Longrightarrow> i < ht (sstore m) (pred_at m xs i)" for i
    using pred_at_mem[of m xs i] fresh r by (auto simp: sm_rep_def)
  have "\<forall>i \<in> set [0..<level]. upd' ! i = Some (pred_at m xs i) \<and> pred_at m xs i \<noteq> a \<and>
      i < ht (sstore ?m1) (pred_at m xs i) \<and> i < ht (sstore ?m1) a"
    using upd' pa lev(3) by (auto simp: sview_upd)
  then obtain m2 where m2: "sm_link ?m1 upd' a [0..<level] = Some m2" "same_chain ?m1 m2"
    "\<forall>j. lv (sstore m2) j = (if j \<in> set [0..<level]
       then (lv (sstore ?m1) j)(a := lv (sstore ?m1) j (pred_at m xs j), pred_at m xs j := Some a)
       else lv (sstore ?m1) j)"
    using sm_link_view[of "[0..<level]" upd' "pred_at m xs" a ?m1] by auto
  have lv1: "lv (sstore ?m1) i = lv (sstore m) i" for i
    using none by (auto simp: sview_upd fun_eq_iff lv_def)
  have p: "upd' ! 0 = Some p" using upd'[of 0] lev(2) pred_at_0[OF c] e(1) by (simp add: last_snoc[of zs p, folded e(1)])
  have "aft (sstore m) p = Some q" by (rule chain_gap(1)[OF sm_rep_chain[OF r] e])
  moreover have "p \<noteq> a" using fresh arg_cong[OF e(1), of set] by auto
  ultimately have "aft (sstore m2) p = Some q" using m2(2) by (simp add: same_chain_def sview_upd)
  then obtain pn where "sstore m2 p = Some pn" "safter pn = Some q" by (auto dest: sview_SomeD)
  then have "SortedMap_Put m k v = do {
      m3 \<leftarrow> upd_node m2 (Some a) (\<lambda>n. n\<lparr>safter := Some q, sprev := Some p\<rparr>);
      m4 \<leftarrow> upd_node m3 (Some p) (\<lambda>n. n\<lparr>safter := Some a\<rparr>);
      m5 \<leftarrow> upd_node m4 (Some q) (\<lambda>n. n\<lparr>sprev := Some a\<rparr>);
      Some (m5\<lparr>sitems := (sitems m5)(k \<mapsto> a), ssize := ssize m5 + 1\<rparr>)
    }"
    using k m2(1) p lev(1) a same_level
    by (auto simp: SortedMap_Put_def search_head[OF c] Let_def upd'_def upd_def max_def split: if_splits)
  moreover have "\<forall>i. lv (sstore m2) i = (if i < level then (lv (sstore m) i)
       (a := lv (sstore m) i (pred_at m xs i), pred_at m xs i := Some a) else lv (sstore m) i)"
    using m2(3) unfolding lv1 by simp
  ultimately show ?thesis using m2(2) by blast
qed

lemma sl_put_cut:
  assumes "sorted_wrt (<) (map fst es)" and "k \<notin> fst ` set es"
  shows "sl_put k v es = takeWhile ((\<lambda>k'. k' < k) \<circ> fst) es @ (k, v) # dropWhile ((\<lambda>k'. k' < k) \<circ> fst) es"
proof -
  have "dropWhile ((\<lambda>k'. k' \<le> k) \<circ> fst) es = dropWhile ((\<lambda>k'. k' < k) \<circ> fst) es"
    using assms(2) by (intro dropWhile_cong) (auto simp: order_le_less)
  then show ?thesis by (simp add: sl_put_def)
qed

lemma SortedMap_Put_new:
  assumes r: "sm_rep m as es" and k: "sitems m k = None"
  shows "\<exists>m' as'. SortedMap_Put m k v = Some m' \<and> sm_rep m' as' (sl_put k v es)"
proof -
  let ?us = "takeWhile ((\<lambda>k'. k' < k) \<circ> fst) es" and ?ws = "dropWhile ((\<lambda>k'. k' < k) \<circ> fst) es"
  let ?s = "sstore m" and ?a = "salloc m"
  obtain xs ys where "as = xs @ ys" and c: "cut m (\<lambda>k'. k' < k) xs ys ?us ?ws"
    by (rule sm_cut[OF r, of "\<lambda>k'. k' < k"]) auto
  obtain zs p q qs where e: "shead m # xs = zs @ [p]" "ys @ [stail m] = q # qs"
    using chain_ends[of "shead m" xs ys "stail m"] by metis
  obtain level where lev: "getNodeLevel m = Some level" "1 \<le> level" "level \<le> maxLevel"
    using getNodeLevel_Some by blast
  obtain m2 where run: "SortedMap_Put m k v = do {
      m3 \<leftarrow> upd_node m2 (Some ?a) (\<lambda>n. n\<lparr>safter := Some q, sprev := Some p\<rparr>);
      m4 \<leftarrow> upd_node m3 (Some p) (\<lambda>n. n\<lparr>safter := Some ?a\<rparr>);
      m5 \<leftarrow> upd_node m4 (Some q) (\<lambda>n. n\<lparr>sprev := Some ?a\<rparr>);
      Some (m5\<lparr>sitems := (sitems m5)(k \<mapsto> ?a), ssize := ssize m5 + 1\<rparr>)
    }"
    and m2: "same_chain (m\<lparr>slevel := max level (slevel m), sstore := ?s(?a \<mapsto>
      \<lparr>skey = k, svalue = Some v, snext = replicate level None, safter = None, sprev = None\<rparr>),
      salloc := Suc ?a\<rparr>) m2"
    "\<forall>i. lv (sstore m2) i = (if i < level then (lv ?s i)
       (?a := lv ?s i (pred_at m xs i), pred_at m xs i := Some ?a) else lv ?s i)"
    using SortedMap_Put_run[OF c k e refl lev] by blast
  have fresh: "?a \<notin> set (shead m # (xs @ ys) @ [stail m])" by (rule cut_fresh[OF c])
  note gap = chain_gap[OF sm_rep_chain[OF c[unfolded cut_def, THEN conjunct1]] e]
  have "p \<in> set (shead m # xs)" "q \<in> set (ys @ [stail m])" by (simp_all add: e)
  then have ne: "p \<noteq> ?a" "q \<noteq> ?a" "p \<noteq> q" using fresh gap(3) by auto
  have "?a \<in> dom (sstore m2)" "p \<in> dom (sstore m2)" "q \<in> dom (sstore m2)"
    using m2(1) gap by (auto simp: same_chain_def dest!: sview_SomeD)
  then obtain an pn qn where n: "sstore m2 ?a = Some an" "sstore m2 p = Some pn" "sstore m2 q = Some qn"
    by blast
  define s' where "s' = (sstore m2)(?a \<mapsto> an\<lparr>safter := Some q, sprev := Some p\<rparr>,
    p \<mapsto> pn\<lparr>safter := Some ?a\<rparr>, q \<mapsto> qn\<lparr>sprev := Some ?a\<rparr>)"
  define m' where "m' = \<lparr>sstore = s', salloc = Suc ?a, sitems = (sitems m)(k \<mapsto> ?a), shead = shead m,
      stail = stail m, slevel = max level (slevel m), ssize = ssize m + 1\<rparr>"
  have "SortedMap_Put m k v = Some m'"
    using m2(1) ne n unfolding run m'_def s'_def
    by (cases m; cases m2) (simp add: upd_node_Some same_chain_def)
  moreover have "sm_rep m' (xs @ ?a # ys) (?us @ (k, v) # ?ws)"
  proof (rule sm_rep_insert[OF c k e refl lev(2,3)])
    show "aft s' = (aft ?s)(?a := Some q, p := Some ?a)" "bef s' = (bef ?s)(?a := Some p, q := Some ?a)"
      "scontent s' = (scontent ?s)(?a \<mapsto> (k, Some v))" "ht s' = (ht ?s)(?a := level)"
      "dom s' = insert ?a (dom ?s)"
      using m2(1) ne n by (auto simp: s'_def same_chain_def sview_upd fun_eq_iff dest: sview_Some)
    have "lv s' i = lv (sstore m2) i" for i
      using ne n by (auto simp: s'_def sview_upd fun_eq_iff sview_Some)
    then show "lv s' i = (if i < level then (lv ?s i)
       (?a := lv ?s i (pred_at m xs i), pred_at m xs i := Some ?a) else lv ?s i)" for i
      using m2(2) by simp
  qed (simp add: m'_def)
  moreover have "k \<notin> fst ` set es" using sm_rep_items_None[OF r] k by simp
  then have "sl_put k v es = ?us @ (k, v) # ?ws"
    using r by (intro sl_put_cut) (auto simp: sm_rep_def)
  ultimately show ?thesis by auto
qed

lemma sorted_split:
  assumes "sorted_wrt (<) (map fst (us @ (k, v) # ws))"
  shows "\<forall>e \<in> set us. fst e < k" "\<forall>e \<in> set ws. k < fst e"
  using assms by (auto simp: sorted_wrt_append)

lemma sl_put_existing:
  assumes "sorted_wrt (<) (map fst (us @ (k, v0) # ws))"
  shows "sl_put k v (us @ (k, v0) # ws) = us @ (k, v) # ws"
proof -
  note s = sorted_split[OF assms]
  have "takeWhile ((\<lambda>k'. k' < k) \<circ> fst) (us @ (k, v0) # ws) = us"
    using s(1) by (subst takeWhile_append2) auto
  moreover have "dropWhile ((\<lambda>k'. k' \<le> k) \<circ> fst) (us @ (k, v0) # ws) = ws"
    using s by (subst dropWhile_append2) (auto simp: order_le_less dropWhile_eq_self_iff neq_Nil_conv dest: less_asym)
  ultimately show ?thesis by (simp add: sl_put_def)
qed

lemma sl_remove_split:
  assumes "distinct (map fst (us @ (k, v) # ws))"
  shows "sl_remove k (us @ (k, v) # ws) = us @ ws" "map_of (us @ (k, v) # ws) k = Some v"
proof -
  have "\<forall>e \<in> set us. fst e \<noteq> k" "\<forall>e \<in> set ws. fst e \<noteq> k" using assms by auto
  then show "sl_remove k (us @ (k, v) # ws) = us @ ws" by (simp add: sl_remove_def filter_True)
  show "map_of (us @ (k, v) # ws) k = Some v" using assms by (rule map_of_is_SomeI) simp
qed

lemma SortedMap_Put_existing:
  assumes r: "sm_rep m as es" and a: "sitems m k = Some a"
  shows "\<exists>m'. SortedMap_Put m k v = Some m' \<and> sm_rep m' as (sl_put k v es)"
proof -
  obtain xs ys us ws v0 where s: "as = xs @ a # ys" "es = us @ (k, v0) # ws" "length xs = length us"
    "holds (scontent (sstore m)) a (k, v0)"
    using sm_rep_lookup[OF r a] by metis
  obtain n where n: "sstore m a = Some n" "skey n = k" using s(4) by (auto simp: sholds_store)
  define m' where "m' = m\<lparr>sstore := (sstore m)(a \<mapsto> n\<lparr>svalue := Some v\<rparr>)\<rparr>"
  have c: "chain (aft (sstore m)) (bef (sstore m)) (scontent (sstore m)) (sitems m) (shead m) (stail m)
      (xs @ a # ys) (us @ (k, v0) # ws)"
    using sm_rep_chain[OF r] s by simp
  have "chain (aft (sstore m)) (bef (sstore m)) (scontent (sstore m')) ((sitems m)(k := None, k \<mapsto> a))
      (shead m) (stail m) (xs @ a # ys) (us @ (k, v) # ws)"
    using c n by (intro chain_overwrite[OF c s(3)]) (auto simp: m'_def sview_upd chain_def)
  moreover have "aft (sstore m') = aft (sstore m)" "bef (sstore m') = bef (sstore m)"
    "ht (sstore m') = ht (sstore m)" "lv (sstore m') i = lv (sstore m) i" for i
    using n by (auto simp: m'_def sview_upd fun_eq_iff sview_Some)
  moreover have "(sitems m)(k \<mapsto> a) = sitems m" using a by (simp add: fun_upd_idem)
  ultimately have "sm_rep m' as (us @ (k, v) # ws)"
    using r n by (auto simp: sm_rep_def s m'_def)
  moreover have "sl_put k v es = us @ (k, v) # ws"
    using r unfolding s(2) by (intro sl_put_existing) (auto simp: sm_rep_def)
  moreover have "SortedMap_Put m k v = Some m'"
    using a n by (simp add: SortedMap_Put_def upd_node_def m'_def)
  ultimately show ?thesis by auto
qed

theorem SortedMap_Put_refines:
  assumes "sm_rep m as es"
  shows "\<exists>m' as'. SortedMap_Put m k v = Some m' \<and> sm_rep m' as' (sl_put k v es)"
  using SortedMap_Put_existing[OF assms] SortedMap_Put_new[OF assms] by (cases "sitems m k") blast+

section \<open>Unlinking a node\<close>

lemma sm_unlink_view:
  assumes "distinct is"
    and "\<forall>i \<in> set is. update ! i = Some (u i) \<and> i < ht (sstore m) (u i) \<and>
      (lv (sstore m) i (u i) = Some t \<longrightarrow> i < ht (sstore m) t)"
  shows "\<exists>m'. sm_unlink m update t is = Some m' \<and> same_chain m m' \<and>
    (\<forall>j. lv (sstore m') j = (if j \<in> set is \<and> lv (sstore m) j (u j) = Some t
       then (lv (sstore m) j)(u j := lv (sstore m) j t) else lv (sstore m) j))"
  using assms
proof (induction "is" arbitrary: m)
  case (Cons i "is")
  have i: "update ! i = Some (u i)" "i < ht (sstore m) (u i)"
    "lv (sstore m) i (u i) = Some t \<Longrightarrow> i < ht (sstore m) t"
    using Cons.prems(2) by simp_all
  show ?case
  proof (cases "lv (sstore m) i (u i) = Some t")
    case False
    then show ?thesis using Cons.IH[of m] Cons.prems i by (auto simp: next_at_view)
  next
    case True
    obtain m1 where m1: "set_next_at m (u i) i (lv (sstore m) i t) = Some m1" "same_chain m m1"
      "\<forall>j. lv (sstore m1) j = (if j = i then (lv (sstore m) i)(u i := lv (sstore m) i t) else lv (sstore m) j)"
      using set_next_at_view[OF i(2)] by blast
    have h: "ht (sstore m1) = ht (sstore m)" using m1(2) by (simp add: same_chain_def)
    have ni: "i \<notin> set is" using Cons.prems(1) by simp
    then have "\<forall>i \<in> set is. update ! i = Some (u i) \<and> i < ht (sstore m1) (u i) \<and>
        (lv (sstore m1) i (u i) = Some t \<longrightarrow> i < ht (sstore m1) t)"
      using Cons.prems(2) m1(3) by (auto simp: h)
    then obtain m' where m': "sm_unlink m1 update t is = Some m'" "same_chain m1 m'"
      "\<forall>j. lv (sstore m') j = (if j \<in> set is \<and> lv (sstore m1) j (u j) = Some t
         then (lv (sstore m1) j)(u j := lv (sstore m1) j t) else lv (sstore m1) j)"
      using Cons.IH[of m1] Cons.prems(1) by auto
    have "sm_unlink m update t (i # is) = Some m'"
      using True i m1(1) m'(1) by (simp add: next_at_view)
    moreover have "same_chain m m'" using m1(2) m'(2) by (rule same_chain_trans)
    ultimately show ?thesis using True ni m1(3) m'(3) by auto
  qed
qed simp

lemma lower_level_Some:
  assumes "ht (sstore m) (shead m) = maxLevel" and "1 \<le> l" and "l \<le> maxLevel"
  shows "\<exists>l'. lower_level m l = Some l' \<and> 1 \<le> l' \<and> l' \<le> l \<and>
    (\<forall>i. l' \<le> i \<and> i < l \<longrightarrow> lv (sstore m) i (shead m) = None)"
  using assms(2,3)
proof (induction l)
  case (Suc l)
  show ?case
  proof (cases "1 < Suc l \<and> lv (sstore m) l (shead m) = None")
    case True
    then obtain l' where "lower_level m l = Some l'" "1 \<le> l'" "l' \<le> l"
      "\<forall>i. l' \<le> i \<and> i < l \<longrightarrow> lv (sstore m) i (shead m) = None"
      using Suc by auto
    with True Suc.prems assms(1) show ?thesis
      by (intro exI[of _ l']) (auto simp: next_at_view less_Suc_eq)
  next
    case False
    then show ?thesis using Suc.prems assms(1) by (auto simp: next_at_view)
  qed
qed simp

lemma sm_rep_unlink:
  assumes c: "cut m P xs (a # ys) us ((k, v) # ws)"
    and e: "shead m # xs = zs @ [p]" "ys @ [stail m] = q # qs"
    and v: "aft s' = (aft (sstore m))(p := Some q)" "bef s' = (bef (sstore m))(q := Some p)"
      "scontent s' = scontent (sstore m)" "ht s' = ht (sstore m)" "dom s' = dom (sstore m)"
      "\<And>i. lv s' i = (if i < ht (sstore m) a then (lv (sstore m) i)
         (pred_at m xs i := lv (sstore m) i a) else lv (sstore m) i)"
    and l: "1 \<le> level" "level \<le> slevel m" "\<forall>i. level \<le> i \<and> i < slevel m \<longrightarrow> lv s' i (shead m) = None"
    and m': "m' = m\<lparr>sstore := s', slevel := level, sitems := (sitems m)(k := None), ssize := ssize m - 1\<rparr>"
  shows "sm_rep m' (xs @ ys) (us @ ws)"
proof -
  note r = c[unfolded cut_def, THEN conjunct1]
  note ch = sm_rep_chain[OF r]
  have dist: "distinct (shead m # xs @ a # ys)" using ch by (simp add: chain_def)
  have "chain (aft s') (bef s') (scontent s') ((sitems m)(k := None)) (shead m) (stail m)
      (xs @ ys) (us @ ws)"
    unfolding v(1,2) using c v(3) by (intro chain_remove[OF ch _ e]) (auto simp: cut_def)
  moreover have "sorted_wrt (<) (map fst (us @ ws))"
    using r by (auto simp: sm_rep_def sorted_wrt_append)
  moreover have lvl: "lch (lv s' i) (shead m) (filter (\<lambda>b. i < ht s' b) (xs @ ys))" if i: "i < maxLevel" for i
  proof -
    let ?F = "filter (\<lambda>b. i < ht (sstore m) b)"
    have lc: "lch (lv (sstore m) i) (shead m) (?F xs @ ?F (a # ys))" using r i by (simp add: sm_rep_def)
    show ?thesis
    proof (cases "i < ht (sstore m) a")
      case True
      have "lch (lv s' i) (shead m) (?F xs @ ?F ys)"
        unfolding v(6) pred_at_def using True lc dist
        by (simp only: if_True) (intro lch_remove; auto)
      then show ?thesis by (simp add: v(4))
    qed (use lc in \<open>simp add: v(4,6)\<close>)
  qed
  moreover have "\<forall>b \<in> set (xs @ ys). 1 \<le> ht s' b \<and> ht s' b \<le> level"
  proof
    fix b
    assume b: "b \<in> set (xs @ ys)"
    have h: "1 \<le> ht s' b" "ht s' b \<le> slevel m" "slevel m \<le> maxLevel" using r b by (auto simp: sm_rep_def v(4))
    have "ht s' b \<le> level"
    proof (rule ccontr)
      assume "\<not> ht s' b \<le> level"
      then have i: "level \<le> ht s' b - 1" "ht s' b - 1 < slevel m" "ht s' b - 1 < ht s' b"
        using h by auto
      then have "lv s' (ht s' b - 1) (shead m) = None" using l(3) by blast
      then have "filter (\<lambda>c. ht s' b - 1 < ht s' c) (xs @ ys) = []"
        using i(2) h(3) by (intro lch_None[OF lvl]) simp_all
      moreover have "b \<in> set (filter (\<lambda>c. ht s' b - 1 < ht s' c) (xs @ ys))" using b i(3) by simp
      ultimately show False by (metis empty_iff empty_set)
    qed
    with h show "1 \<le> ht s' b \<and> ht s' b \<le> level" by simp
  qed
  ultimately show ?thesis
    using r l(1,2) v(4,5) by (simp add: sm_rep_def m' del: filter_append)
qed

lemma cut_at_key:
  assumes r: "sm_rep m as es" and a: "sitems m k = Some a"
  obtains xs ys us ws v where "as = xs @ a # ys" "es = us @ (k, v) # ws"
    "cut m (\<lambda>k'. k' < k) xs (a # ys) us ((k, v) # ws)" "holds (scontent (sstore m)) a (k, v)"
proof -
  obtain xs ys us ws v where s: "as = xs @ a # ys" "es = us @ (k, v) # ws" "length xs = length us"
    "list_all2 (holds (scontent (sstore m))) xs us" "holds (scontent (sstore m)) a (k, v)"
    "list_all2 (holds (scontent (sstore m))) ys ws"
    by (rule sm_rep_lookup[OF r a])
  have "sorted_wrt (<) (map fst (us @ (k, v) # ws))" using r s(2) by (simp add: sm_rep_def)
  from sorted_split[OF this] have "cut m (\<lambda>k'. k' < k) xs (a # ys) us ((k, v) # ws)"
    using r s by (auto simp: cut_def dest: less_asym)
  with that s(1,2,5) show thesis by blast
qed

text \<open>The levels after the unlinking loop.\<close>

lemma cut_unlink:
  assumes c: "cut m (\<lambda>k'. k' < k) xs (a # ys) us ((k, v) # ws)"
  defines "update \<equiv> map (\<lambda>i. if i < slevel m then Some (pred_at m xs i) else None) [0..<maxLevel]"
  shows "next_at m (last (shead m # xs)) 0 = Some (Some a)"
    and "\<exists>m1. sm_unlink m update a [0..<slevel m] = Some m1 \<and> same_chain m m1 \<and>
      (\<forall>i. lv (sstore m1) i = (if i < ht (sstore m) a then (lv (sstore m) i)
         (pred_at m xs i := lv (sstore m) i a) else lv (sstore m) i))"
proof -
  note r = c[unfolded cut_def, THEN conjunct1]
  have h: "ht (sstore m) a \<le> slevel m" "slevel m \<le> maxLevel" "1 \<le> ht (sstore m) a" "0 < maxLevel"
    using r by (auto simp: sm_rep_def maxLevel_def)
  have pa: "i < ht (sstore m) (pred_at m xs i)" if "i < maxLevel" for i
    using pred_at_mem[of m xs i] r that by (auto simp: sm_rep_def)
  have ptr: "lv (sstore m) i (pred_at m xs i) = Some a \<longleftrightarrow> i < ht (sstore m) a" if i: "i < maxLevel" for i
  proof -
    let ?F = "filter (\<lambda>b. i < ht (sstore m) b)"
    have "lch (lv (sstore m) i) (shead m) (?F xs @ ?F (a # ys))" using r i by (simp add: sm_rep_def)
    then have l: "lv (sstore m) i (pred_at m xs i) = (case ?F (a # ys) of [] \<Rightarrow> None | g # _ \<Rightarrow> Some g)"
      unfolding pred_at_def by (rule lch_last)
    have "a \<notin> set (?F ys)" using r by (simp add: sm_rep_def chain_def)
    with l show ?thesis by (cases "?F ys") auto
  qed
  show "next_at m (last (shead m # xs)) 0 = Some (Some a)"
    using ptr[of 0] pa[of 0] h pred_at_0[OF c] by (simp add: next_at_view)
  have "\<forall>i \<in> set [0..<slevel m]. update ! i = Some (pred_at m xs i) \<and> i < ht (sstore m) (pred_at m xs i) \<and>
      (lv (sstore m) i (pred_at m xs i) = Some a \<longrightarrow> i < ht (sstore m) a)"
    using pa ptr h by (auto simp: update_def)
  then obtain m1 where "sm_unlink m update a [0..<slevel m] = Some m1" "same_chain m m1"
    "\<forall>j. lv (sstore m1) j = (if j \<in> set [0..<slevel m] \<and> lv (sstore m) j (pred_at m xs j) = Some a
       then (lv (sstore m) j)(pred_at m xs j := lv (sstore m) j a) else lv (sstore m) j)"
    using sm_unlink_view[of "[0..<slevel m]" update "pred_at m xs" m a] by auto
  then show "\<exists>m1. sm_unlink m update a [0..<slevel m] = Some m1 \<and> same_chain m m1 \<and>
      (\<forall>i. lv (sstore m1) i = (if i < ht (sstore m) a then (lv (sstore m) i)
         (pred_at m xs i := lv (sstore m) i a) else lv (sstore m) i))"
    using ptr h by (intro exI[of _ m1]) auto
qed

lemma SortedMap_Remove_existing:
  assumes r: "sm_rep m as es" and a: "sitems m k = Some a"
  shows "\<exists>m' as'. SortedMap_Remove m k = Some (m', map_of es k, True) \<and> sm_rep m' as' (sl_remove k es)"
proof -
  let ?s = "sstore m"
  obtain xs ys us ws v where s: "as = xs @ a # ys" "es = us @ (k, v) # ws"
    "cut m (\<lambda>k'. k' < k) xs (a # ys) us ((k, v) # ws)" "holds (scontent ?s) a (k, v)"
    by (rule cut_at_key[OF r a])
  obtain zs p q qs where e: "shead m # xs = zs @ [p]" "ys @ [stail m] = q # qs"
    and l: "bef ?s a = Some p" "aft ?s a = Some q" "aft ?s p = Some a" "bef ?s q = Some a"
    and d: "distinct (zs @ p # a # q # qs)"
    using chain_neighbours[OF sm_rep_chain[OF r[unfolded s(1)]]] by metis
  obtain m1 where m1: "sm_unlink m (map (\<lambda>i. if i < slevel m then Some (pred_at m xs i) else None) [0..<maxLevel]) a
      [0..<slevel m] = Some m1" "same_chain m m1"
    "\<forall>i. lv (sstore m1) i = (if i < ht ?s a then (lv ?s i)
         (pred_at m xs i := lv ?s i a) else lv ?s i)"
    using cut_unlink(2)[OF s(3)] by blast
  have f: "slevel m1 = slevel m" "shead m1 = shead m" "sitems m1 = sitems m" "ssize m1 = ssize m"
    "m1\<lparr>sstore := X\<rparr> = m\<lparr>sstore := X\<rparr>" for X
    using m1(2) by (cases m; cases m1; simp add: same_chain_def)+
  have "aft (sstore m1) p = Some a" "bef (sstore m1) q = Some a" "bef (sstore m1) a = Some p" "aft (sstore m1) a = Some q"
    using l m1(2) by (simp_all add: same_chain_def)
  then obtain an pn qn where n: "sstore m1 a = Some an" "sprev an = Some p" "safter an = Some q"
    "sstore m1 p = Some pn" "sstore m1 q = Some qn"
    by (force dest!: sview_SomeD)
  define s' where "s' = (sstore m1)(p \<mapsto> pn\<lparr>safter := Some q\<rparr>, q \<mapsto> qn\<lparr>sprev := Some p\<rparr>)"
  have v: "aft s' = (aft ?s)(p := Some q)" "bef s' = (bef ?s)(q := Some p)"
    "scontent s' = scontent ?s" "ht s' = ht ?s" "dom s' = dom ?s"
    using m1(2) d n by (auto simp: s'_def same_chain_def sview_upd fun_eq_iff dest: sview_Some)
  have lv': "lv s' i = lv (sstore m1) i" for i
    using d n by (auto simp: s'_def sview_upd fun_eq_iff sview_Some)
  define m3 where "m3 = m\<lparr>sstore := s'\<rparr>"
  obtain level where lev: "lower_level m3 (slevel m) = Some level" "1 \<le> level" "level \<le> slevel m"
    "\<forall>i. level \<le> i \<and> i < slevel m \<longrightarrow> lv s' i (shead m) = None"
    using lower_level_Some[of m3 "slevel m"] r v(4) by (auto simp: m3_def sm_rep_def)
  define m' where "m' = m\<lparr>sstore := s', slevel := level, sitems := (sitems m)(k := None), ssize := ssize m - 1\<rparr>"
  have "scontent (sstore m1) a = Some (k, Some v)" using s(4) m1(2) by (simp add: same_chain_def holds_def)
  then have "svalue an = Some v" using sview_Some(3)[of "sstore m1", OF n(1)] by simp
  moreover have p: "last (shead m # xs) = p" using e(1) by simp
  ultimately have "SortedMap_Remove m k = Some (m', Some v, True)"
    using a m1(1) n d lev(1) f search_head[OF s(3), unfolded p] cut_unlink(1)[OF s(3), unfolded p]
    by (simp add: SortedMap_Remove_def upd_node_Some s'_def m3_def m'_def)
  moreover have "sm_rep m' (xs @ ys) (us @ ws)"
    using m1(3) by (intro sm_rep_unlink[OF s(3) e v _ lev(2-4) m'_def]) (simp add: lv')
  moreover have "distinct (map fst (us @ (k, v) # ws))" using r s(2) by (simp add: sm_rep_def chain_def)
  note sl_remove_split[OF this]
  ultimately show ?thesis by (auto simp: s(2))
qed

theorem SortedMap_Remove_refines:
  assumes r: "sm_rep m as es"
  shows "\<exists>m' as'. SortedMap_Remove m k = Some (m', map_of es k, k \<in> fst ` set es) \<and>
    sm_rep m' as' (sl_remove k es)"
proof (cases "sitems m k")
  case None
  then have k: "k \<notin> fst ` set es" using sm_rep_items_None[OF r] by simp
  then have "sl_remove k es = es" by (auto simp: sl_remove_def filter_id_conv)
  moreover have "map_of es k = None" using k by (simp add: map_of_eq_None_iff)
  ultimately show ?thesis using None r k by (auto simp: SortedMap_Remove_def)
next
  case (Some a)
  then have "k \<in> fst ` set es" using sm_rep_items_None[OF r, of k] by auto
  with SortedMap_Remove_existing[OF r Some] show ?thesis by simp
qed

section \<open>Lookups and neighbours\<close>

lemma SortedMap_Get_refines:
  assumes r: "sm_rep m as es"
  shows "SortedMap_Get m k = Some (map_of es k)"
proof (cases "sitems m k")
  case None
  then have "map_of es k = None" using sm_rep_items_None[OF r] by (simp add: map_of_eq_None_iff)
  with None show ?thesis by (simp add: SortedMap_Get_def)
next
  case (Some a)
  obtain us ws v where s: "es = us @ (k, v) # ws" "holds (scontent (sstore m)) a (k, v)"
    using sm_rep_lookup[OF r Some] by metis
  have "distinct (map fst es)" using r by (simp add: sm_rep_def chain_def)
  then have "map_of es k = Some v" by (rule map_of_is_SomeI) (simp add: s(1))
  with Some s(2) show ?thesis by (auto simp: SortedMap_Get_def sholds_store)
qed

lemma SortedMap_Contains_refines: "sm_rep m as es \<Longrightarrow> SortedMap_Contains m k = (k \<in> fst ` set es)"
  using sm_rep_items_None[of m as es k] by (auto simp: SortedMap_Contains_def)

lemma SortedMap_Size_refines: "sm_rep m as es \<Longrightarrow> SortedMap_Size m = length es"
  by (simp add: SortedMap_Size_def sm_rep_def)

text \<open>
  A cut at a condition gives the entry after it and the entry before it; both neighbour
  searches end at such a cut, whether or not the key is in the map.
\<close>

lemma cut_entries:
  assumes c: "cut m P xs ys us ws" and e: "shead m # xs = zs @ [p]" "ys @ [stail m] = q # qs"
  shows "sm_entry_at m (stail m) (Some q) = Some (entry_result (case ws of [] \<Rightarrow> None | w # _ \<Rightarrow> Some w))"
    and "sm_entry_at m (shead m) (Some p) = Some (entry_result (case rev us of [] \<Rightarrow> None | u # _ \<Rightarrow> Some u))"
proof -
  have hold: "list_all2 (holds (scontent (sstore m))) xs us" "list_all2 (holds (scontent (sstore m))) ys ws"
    and dist: "distinct (shead m # (xs @ ys) @ [stail m])"
    using c by (auto simp: cut_def sm_rep_def chain_def)
  show "sm_entry_at m (stail m) (Some q) = Some (entry_result (case ws of [] \<Rightarrow> None | w # _ \<Rightarrow> Some w))"
  proof (cases ws)
    case Nil
    then show ?thesis using hold e by (simp add: sm_entry_at_def entry_result_def)
  next
    case (Cons w ws')
    with hold(2) e(2) have "holds (scontent (sstore m)) q w" "q \<noteq> stail m"
      using dist by (auto simp: list_all2_Cons2)
    then show ?thesis
      by (cases w) (auto simp: Cons sm_entry_at_def entry_result_def sholds_store)
  qed
  show "sm_entry_at m (shead m) (Some p) = Some (entry_result (case rev us of [] \<Rightarrow> None | u # _ \<Rightarrow> Some u))"
  proof (cases us rule: rev_cases)
    case Nil
    then show ?thesis using hold e by (simp add: sm_entry_at_def entry_result_def)
  next
    case (snoc us' u)
    with hold(1) obtain xs' b where x: "xs = xs' @ [b]" "holds (scontent (sstore m)) b u"
      by (auto simp: list_all2_append2 list_all2_Cons2)
    then have "p = b" "b \<noteq> shead m" using e(1) dist by (cases zs; auto)+
    then show ?thesis
      using x by (cases u) (auto simp: snoc sm_entry_at_def entry_result_def sholds_store)
  qed
qed

lemma find_cut: "\<forall>e \<in> set us. \<not> Q e \<Longrightarrow> \<forall>e \<in> set ws. Q e \<Longrightarrow>
    find Q (us @ ws) = (case ws of [] \<Rightarrow> None | w # _ \<Rightarrow> Some w)"
  by (induction us) (auto split: list.splits)

lemma SortedMap_Next_refines:
  assumes r: "sm_rep m as es"
  shows "SortedMap_Next m k = Some (entry_result (sl_next k es))"
proof -
  obtain xs ys where as: "as = xs @ ys"
    and c: "cut m (\<lambda>k'. k' \<le> k) xs ys (takeWhile ((\<lambda>k'. k' \<le> k) \<circ> fst) es) (dropWhile ((\<lambda>k'. k' \<le> k) \<circ> fst) es)"
    (is "cut _ _ _ _ ?us ?ws")
    by (rule sm_cut[OF r, of "\<lambda>k'. k' \<le> k"]) auto
  obtain zs p q qs where e: "shead m # xs = zs @ [p]" "ys @ [stail m] = q # qs"
    using chain_ends[of "shead m" xs ys "stail m"] by metis
  note gap = chain_gap[OF sm_rep_chain[OF r, unfolded as] e]
  have p: "last (shead m # xs) = p" using e(1) by simp
  have "find (\<lambda>e. k < fst e) (?us @ ?ws) = (case ?ws of [] \<Rightarrow> None | w # _ \<Rightarrow> Some w)"
    using c by (intro find_cut) (auto simp: cut_def not_le not_less)
  then have nx: "sl_next k es = (case ?ws of [] \<Rightarrow> None | w # _ \<Rightarrow> Some w)"
    by (simp add: sl_next_def)
  obtain n where n: "sstore m p = Some n" "safter n = Some q" using gap(1) by (auto dest: sview_SomeD)
  show ?thesis
  proof (cases "sitems m k")
    case None
    then show ?thesis
      using descend_head[OF c] n cut_entries(1)[OF c e] nx p by (simp add: SortedMap_Next_def)
  next
    case (Some a)
    obtain xs' ys' us' ws' v where s: "as = xs' @ a # ys'" "es = us' @ (k, v) # ws'"
      "cut m (\<lambda>k'. k' < k) xs' (a # ys') us' ((k, v) # ws')"
      by (rule cut_at_key[OF r Some])
    have "sorted_wrt (<) (map fst (us' @ (k, v) # ws'))" using r s(2) by (simp add: sm_rep_def)
    note so = sorted_split[OF this]
    have "takeWhile ((\<lambda>k'. k' \<le> k) \<circ> fst) es = us' @ (k, v) # takeWhile ((\<lambda>k'. k' \<le> k) \<circ> fst) ws'"
      using so(1) unfolding s(2) by (subst takeWhile_append2) auto
    moreover have "takeWhile ((\<lambda>k'. k' \<le> k) \<circ> fst) ws' = []" using so(2) by (cases ws') auto
    ultimately have "length xs = length (xs' @ [a])" using c s(3) by (simp add: cut_def)
    then have "xs = xs' @ [a]" using as s(1) append_eq_append_conv[of xs "xs' @ [a]" ys ys'] by simp
    then have "a = p" using p by simp
    then show ?thesis using Some n cut_entries(1)[OF c e] nx by (simp add: SortedMap_Next_def)
  qed
qed

lemma SortedMap_Prev_refines:
  assumes r: "sm_rep m as es"
  shows "SortedMap_Prev m k = Some (entry_result (sl_prev k es))"
proof -
  have pv: "sl_prev k es = (case rev us of [] \<Rightarrow> None | u # _ \<Rightarrow> Some u)"
    if "cut m (\<lambda>k'. k' < k) xs ys us ws" "es = us @ ws" for xs ys us ws
  proof -
    have "find (\<lambda>e. fst e < k) (rev ws @ rev us) = (case rev us of [] \<Rightarrow> None | u # _ \<Rightarrow> Some u)"
      using that by (intro find_cut) (auto simp: cut_def)
    then show ?thesis by (simp add: sl_prev_def that(2))
  qed
  show ?thesis
  proof (cases "sitems m k")
    case None
    obtain xs ys where
      c: "cut m (\<lambda>k'. k' < k) xs ys (takeWhile ((\<lambda>k'. k' < k) \<circ> fst) es) (dropWhile ((\<lambda>k'. k' < k) \<circ> fst) es)"
      by (rule sm_cut[OF r, of "\<lambda>k'. k' < k"]) auto
    obtain zs p q qs where e: "shead m # xs = zs @ [p]" "ys @ [stail m] = q # qs"
      using chain_ends[of "shead m" xs ys "stail m"] by metis
    then show ?thesis
      using None descend_head[OF c] cut_entries(2)[OF c e] pv[OF c] by (simp add: SortedMap_Prev_def)
  next
    case (Some a)
    obtain xs ys us ws v where s: "as = xs @ a # ys" "es = us @ (k, v) # ws"
      "cut m (\<lambda>k'. k' < k) xs (a # ys) us ((k, v) # ws)"
      by (rule cut_at_key[OF r Some])
    obtain zs p where e: "shead m # xs = zs @ [p]" by (metis append_butlast_last_id list.distinct(1))
    have "bef (sstore m) a = Some p"
      using chain_gap(2)[OF sm_rep_chain[OF r, unfolded s(1)] e, of a "ys @ [stail m]"] by simp
    then obtain n where "sstore m a = Some n" "sprev n = Some p" by (auto dest: sview_SomeD)
    then show ?thesis
      using Some cut_entries(2)[OF s(3) e, of a] pv[OF s(3,2)] by (simp add: SortedMap_Prev_def)
  qed
qed

lemma SortedMap_Min_refines:
  assumes r: "sm_rep m as es"
  shows "SortedMap_Min m = Some (entry_result (case es of [] \<Rightarrow> None | e # _ \<Rightarrow> Some e))"
proof -
  have c: "cut m (\<lambda>_. False) [] as [] es" using r by (simp add: cut_def sm_rep_def chain_def)
  obtain q qs where q: "as @ [stail m] = q # qs" by (cases "as @ [stail m]") auto
  have "aft (sstore m) (shead m) = Some q"
    using chain_gap(1)[of _ _ _ _ _ _ "[]" as es "[]", OF _ _ q] sm_rep_chain[OF r] by simp
  then show ?thesis
    using cut_entries(1)[OF c _ q, of "[]" "shead m"]
    by (auto simp: SortedMap_Min_def dest!: sview_SomeD)
qed

section \<open>Well-formed maps as a type\<close>

lemma sm_wf_new: "sm_wf NewSortedMap"
  using sm_rep_new by (auto simp: sm_wf_def)

lemma sm_wf_ops:
  assumes "sm_wf m"
  shows "\<exists>m'. SortedMap_Put m k v = Some m' \<and> sm_wf m'"
    and "\<exists>m' x b. SortedMap_Remove m k = Some (m', x, b) \<and> sm_wf m'"
proof -
  obtain as es where r: "sm_rep m as es" using assms by (auto simp: sm_wf_def)
  show "\<exists>m'. SortedMap_Put m k v = Some m' \<and> sm_wf m'"
    using SortedMap_Put_refines[OF r, of k v] by (auto simp: sm_wf_def)
  show "\<exists>m' x b. SortedMap_Remove m k = Some (m', x, b) \<and> sm_wf m'"
    using SortedMap_Remove_refines[OF r, of k] by (auto simp: sm_wf_def)
qed

typedef (overloaded) ('k::"{zero, linorder}", 'v) sorted_map = "{m :: ('k, 'v) SortedMap. sm_wf m}"
  using sm_wf_new by blast

setup_lifting type_definition_sorted_map

lift_definition sm_new :: "('k::{zero, linorder}, 'v) sorted_map" is NewSortedMap
  by (rule sm_wf_new)

lift_definition sm_put :: "('k::{zero, linorder}, 'v) sorted_map \<Rightarrow> 'k \<Rightarrow> 'v \<Rightarrow> ('k, 'v) sorted_map"
  is "\<lambda>m k v. the (SortedMap_Put m k v)"
  subgoal for m k v using sm_wf_ops(1)[of m k v] by auto done

lift_definition sm_remove :: "('k::{zero, linorder}, 'v) sorted_map \<Rightarrow> 'k \<Rightarrow> ('k, 'v) sorted_map"
  is "\<lambda>m k. fst (the (SortedMap_Remove m k))"
  subgoal for m k using sm_wf_ops(2)[of m k] by auto done

lift_definition sm_get :: "('k::{zero, linorder}, 'v) sorted_map \<Rightarrow> 'k \<Rightarrow> 'v option"
  is "\<lambda>m k. the (SortedMap_Get m k)" .

lift_definition sm_size :: "('k::{zero, linorder}, 'v) sorted_map \<Rightarrow> nat" is SortedMap_Size .

lift_definition sm_next :: "('k::{zero, linorder}, 'v) sorted_map \<Rightarrow> 'k \<Rightarrow> 'k \<times> 'v option \<times> bool"
  is "\<lambda>m k. the (SortedMap_Next m k)" .

lift_definition sm_prev :: "('k::{zero, linorder}, 'v) sorted_map \<Rightarrow> 'k \<Rightarrow> 'k \<times> 'v option \<times> bool"
  is "\<lambda>m k. the (SortedMap_Prev m k)" .

lift_definition sm_min :: "('k::{zero, linorder}, 'v) sorted_map \<Rightarrow> 'k \<times> 'v option \<times> bool"
  is "\<lambda>m. the (SortedMap_Min m)" .

text \<open>The entries in key order, read along the chain.\<close>

partial_function (option) sm_walk :: "('k, 'v) SortedMap \<Rightarrow> addr option \<Rightarrow> ('k \<times> 'v) list option" where
  "sm_walk m p =
     (if p = Some (stail m) then Some []
      else do {
        a \<leftarrow> p;
        n \<leftarrow> sstore m a;
        v \<leftarrow> svalue n;
        rest \<leftarrow> sm_walk m (safter n);
        Some ((skey n, v) # rest)
      })"

lemma sm_walk_refines:
  assumes "dll (aft (sstore m)) (bef (sstore m)) (ys @ [stail m])" and "distinct (ys @ [stail m])"
    and "list_all2 (holds (scontent (sstore m))) ys ws" and "p = Some (hd (ys @ [stail m]))"
  shows "sm_walk m p = Some ws"
  using assms
proof (induction ys arbitrary: ws p)
  case Nil
  then show ?case by (simp add: sm_walk.simps)
next
  case (Cons y ys)
  then obtain w ws' where w: "ws = w # ws'" "holds (scontent (sstore m)) y w"
    "list_all2 (holds (scontent (sstore m))) ys ws'"
    by (auto simp: list_all2_Cons1)
  then obtain n where n: "sstore m y = Some n" "skey n = fst w" "svalue n = Some (snd w)"
    by (auto simp: sholds_store)
  have nx: "safter n = Some (hd (ys @ [stail m]))"
    using Cons.prems(1) n(1) by (cases "ys @ [stail m]") (auto simp: sview_Some)
  have "dll (aft (sstore m)) (bef (sstore m)) (ys @ [stail m])"
    using Cons.prems(1) by (cases "ys @ [stail m]") auto
  then have "sm_walk m (safter n) = Some ws'"
    using Cons.prems(2) w(3) nx by (intro Cons.IH) auto
  then show ?case
    using Cons.prems(2,4) n w(1) by (subst sm_walk.simps) auto
qed

definition sm_contents :: "('k, 'v) SortedMap \<Rightarrow> ('k \<times> 'v) list option" where
  "sm_contents m = do { h \<leftarrow> sstore m (shead m); sm_walk m (safter h) }"

lift_definition sm_entries :: "('k::{zero, linorder}, 'v) sorted_map \<Rightarrow> ('k \<times> 'v) list"
  is "\<lambda>m. the (sm_contents m)" .

lemma sm_contents_rep:
  assumes r: "sm_rep m as es"
  shows "sm_contents m = Some es"
proof -
  have d: "dll (aft (sstore m)) (bef (sstore m)) (shead m # as @ [stail m])"
    "distinct (shead m # as @ [stail m])" "list_all2 (holds (scontent (sstore m))) as es"
    using r by (auto simp: sm_rep_def chain_def)
  obtain h where h: "sstore m (shead m) = Some h" "safter h = Some (hd (as @ [stail m]))"
    using d(1) by (cases as) (auto dest: sview_SomeD)
  have "dll (aft (sstore m)) (bef (sstore m)) (as @ [stail m])" using d(1) by (cases as) auto
  then have "sm_walk m (safter h) = Some es" using d(2,3) h(2) by (intro sm_walk_refines) auto
  then show ?thesis by (simp add: sm_contents_def h(1))
qed

lemma sm_entries_rep: "sm_rep (Rep_sorted_map m) as es \<Longrightarrow> sm_entries m = es"
  by (simp add: sm_entries.rep_eq sm_contents_rep)

lemma sm_repE:
  obtains as where "sm_rep (Rep_sorted_map m) as (sm_entries m)"
  using Rep_sorted_map[of m] sm_entries_rep[of m] by (auto simp: sm_wf_def)

lemma sm_entries_new [simp, sm_simps]: "sm_entries sm_new = []"
  by (rule sm_entries_rep[where as = "[]"]) (simp add: sm_new.rep_eq sm_rep_new)

lemma sm_entries_put [simp, sm_simps]: "sm_entries (sm_put m k v) = sl_put k v (sm_entries m)"
proof -
  obtain as where "sm_rep (Rep_sorted_map m) as (sm_entries m)" by (rule sm_repE)
  from SortedMap_Put_refines[OF this, of k v] show ?thesis
    by (auto simp: sm_put.rep_eq intro: sm_entries_rep)
qed

lemma sm_entries_remove [simp, sm_simps]: "sm_entries (sm_remove m k) = sl_remove k (sm_entries m)"
proof -
  obtain as where "sm_rep (Rep_sorted_map m) as (sm_entries m)" by (rule sm_repE)
  from SortedMap_Remove_refines[OF this, of k] show ?thesis
    by (auto simp: sm_remove.rep_eq intro: sm_entries_rep)
qed

lemma sm_reads [simp, sm_simps]:
  "sm_get m k = map_of (sm_entries m) k"
  "sm_size m = length (sm_entries m)"
  "sm_next m k = entry_result (sl_next k (sm_entries m))"
  "sm_prev m k = entry_result (sl_prev k (sm_entries m))"
  "sm_min m = entry_result (case sm_entries m of [] \<Rightarrow> None | e # _ \<Rightarrow> Some e)"
proof -
  obtain as where r: "sm_rep (Rep_sorted_map m) as (sm_entries m)" by (rule sm_repE)
  show "sm_get m k = map_of (sm_entries m) k"
    by (simp add: sm_get.rep_eq SortedMap_Get_refines[OF r])
  show "sm_size m = length (sm_entries m)"
    by (simp add: sm_size.rep_eq SortedMap_Size_refines[OF r])
  show "sm_next m k = entry_result (sl_next k (sm_entries m))"
    by (simp add: sm_next.rep_eq SortedMap_Next_refines[OF r])
  show "sm_prev m k = entry_result (sl_prev k (sm_entries m))"
    by (simp add: sm_prev.rep_eq SortedMap_Prev_refines[OF r])
  show "sm_min m = entry_result (case sm_entries m of [] \<Rightarrow> None | e # _ \<Rightarrow> Some e)"
    by (simp add: sm_min.rep_eq SortedMap_Min_refines[OF r])
qed

lemma sm_sorted [simp]: "sorted_wrt (<) (map fst (sm_entries m))"
proof -
  obtain as where "sm_rep (Rep_sorted_map m) as (sm_entries m)" by (rule sm_repE)
  then show ?thesis by (simp add: sm_rep_def)
qed

lemma sm_distinct [simp]: "distinct (map fst (sm_entries m))"
  using sm_sorted[of m] by (metis strict_sorted_iff)

section \<open>The contract of the clients\<close>

lemma sl_put_set:
  assumes "sorted_wrt (<) (map fst es)"
  shows "set (sl_put k v es) = insert (k, v) {e \<in> set es. fst e \<noteq> k}"
proof (cases "k \<in> fst ` set es")
  case True
  then obtain v0 where "(k, v0) \<in> set es" by auto
  then obtain us ws where s: "es = us @ (k, v0) # ws" by (auto dest: split_list)
  then show ?thesis
    using assms sl_put_existing[of us k v0 ws v] sorted_split[of us k v0 ws] by auto
next
  case False
  let ?P = "(\<lambda>k'. k' < k) \<circ> fst"
  have "set (sl_put k v es) = insert (k, v) (set (takeWhile ?P es @ dropWhile ?P es))"
    unfolding sl_put_cut[OF assms False] by (simp del: takeWhile_dropWhile_id add: Un_insert_right)
  then have "set (sl_put k v es) = insert (k, v) (set es)" by (simp only: takeWhile_dropWhile_id)
  then show ?thesis using False by auto
qed

interpretation smc: sorted_keyed_map sm_entries sm_put sm_remove sm_get sm_next sm_prev sm_min
proof unfold_locales
  show "set (sm_entries (sm_put m k v)) = insert (k, v) {e \<in> set (sm_entries m). fst e \<noteq> k}"
    for m :: "('a::{zero, linorder}, 'b) sorted_map" and k v
    by (simp add: sl_put_set)
qed (auto simp: sl_remove_def sl_next_def sl_prev_def)

section \<open>Runs of operations\<close>

datatype ('k, 'v) sm_op = SPut 'k 'v | SRemove 'k

fun sm_step :: "('k::linorder, 'v) SortedMap \<Rightarrow> ('k, 'v) sm_op \<Rightarrow> ('k, 'v) SortedMap option" where
  "sm_step m (SPut k v) = SortedMap_Put m k v"
| "sm_step m (SRemove k) = map_option fst (SortedMap_Remove m k)"

fun sm_run :: "('k::linorder, 'v) SortedMap \<Rightarrow> ('k, 'v) sm_op list \<Rightarrow> ('k, 'v) SortedMap option" where
  "sm_run m [] = Some m"
| "sm_run m (x # xs) = do { m' \<leftarrow> sm_step m x; sm_run m' xs }"

fun map_step :: "('k \<rightharpoonup> 'v) \<Rightarrow> ('k, 'v) sm_op \<Rightarrow> ('k \<rightharpoonup> 'v)" where
  "map_step f (SPut k v) = f(k \<mapsto> v)"
| "map_step f (SRemove k) = f(k := None)"

lemma map_of_sl_put:
  assumes "sorted_wrt (<) (map fst es)"
  shows "map_of (sl_put k v es) = (map_of es)(k \<mapsto> v)"
proof (cases "k \<in> fst ` set es")
  case True
  then obtain v0 where "(k, v0) \<in> set es" by auto
  then obtain us ws where s: "es = us @ (k, v0) # ws" by (auto dest: split_list)
  have k: "k \<notin> fst ` set us" using sorted_split(1)[of us k v0 ws] assms s by auto
  show ?thesis
    using sl_put_existing[of us k v0 ws v] assms map_of_mid[OF k, of v ws] map_of_mid[OF k, of v0 ws]
    by (simp only: s fun_upd_upd)
next
  case False
  let ?P = "(\<lambda>k'. k' < k) \<circ> fst"
  have "k \<notin> fst ` set (takeWhile ?P es)" using False by (auto dest: set_takeWhileD)
  from map_of_mid[OF this, of v "dropWhile ?P es"] show ?thesis
    unfolding sl_put_cut[OF assms False] by (simp only: takeWhile_dropWhile_id)
qed

lemma map_of_sl_remove: "map_of (sl_remove k es) = (map_of es)(k := None)"
  by (induction es) (auto simp: sl_remove_def)

lemma sm_run_refines:
  "sm_rep m as es \<Longrightarrow> \<exists>m' as' es'. sm_run m xs = Some m' \<and> sm_rep m' as' es' \<and>
     map_of es' = foldl map_step (map_of es) xs"
proof (induction xs arbitrary: m as es)
  case (Cons x xs)
  obtain m' as' es' where "sm_step m x = Some m'" "sm_rep m' as' es'" "map_of es' = map_step (map_of es) x"
  proof (cases x)
    case (SPut k v)
    obtain m' as' where "SortedMap_Put m k v = Some m'" "sm_rep m' as' (sl_put k v es)"
      using SortedMap_Put_refines[OF Cons.prems] by blast
    moreover have "map_of (sl_put k v es) = (map_of es)(k \<mapsto> v)"
      using Cons.prems by (intro map_of_sl_put) (simp add: sm_rep_def)
    ultimately show thesis using that SPut by simp
  next
    case (SRemove k)
    obtain m' as' where "SortedMap_Remove m k = Some (m', map_of es k, k \<in> fst ` set es)" "sm_rep m' as' (sl_remove k es)"
      using SortedMap_Remove_refines[OF Cons.prems] by blast
    then show thesis using that[of m' as' "sl_remove k es"] SRemove by (simp add: map_of_sl_remove)
  qed
  with Cons.IH[of m' as' es'] show ?case by simp
qed auto

text \<open>The first entry with a property, in key order, is the one with the least such key.\<close>

lemma entry_result_Min:
  assumes s: "sorted_wrt (\<lambda>x y. fst x < fst y) es" and d: "distinct (map fst es)"
  shows "entry_result (find (\<lambda>e. P (fst e)) es) =
    (if \<exists>x \<in> dom (map_of es). P x
     then let x = Min {x \<in> dom (map_of es). P x} in (x, map_of es x, True) else (0, None, False))"
proof (cases "find (\<lambda>e. P (fst e)) es")
  case None
  then have "\<forall>e \<in> set es. \<not> P (fst e)" by (auto simp: find_None_iff)
  with None show ?thesis by (auto simp: entry_result_def dom_map_of_conv_image_fst)
next
  case (Some e)
  note f = find_first[OF s Some]
  have "Min {x \<in> dom (map_of es). P x} = fst e"
    using f by (intro Min_eqI) (auto simp: dom_map_of_conv_image_fst order_le_less)
  moreover have "map_of es (fst e) = Some (snd e)" using d f by (intro map_of_is_SomeI) auto
  ultimately show ?thesis
    using Some f by (auto simp: entry_result_def Let_def split: prod.splits)
qed

lemma entry_result_Max:
  assumes s: "sorted_wrt (\<lambda>x y. fst x < fst y) es" and d: "distinct (map fst es)"
  shows "entry_result (find (\<lambda>e. P (fst e)) (rev es)) =
    (if \<exists>x \<in> dom (map_of es). P x
     then let x = Max {x \<in> dom (map_of es). P x} in (x, map_of es x, True) else (0, None, False))"
proof (cases "find (\<lambda>e. P (fst e)) (rev es)")
  case None
  then have "\<forall>e \<in> set es. \<not> P (fst e)" by (auto simp: find_None_iff)
  with None show ?thesis by (auto simp: entry_result_def dom_map_of_conv_image_fst)
next
  case (Some e)
  have "sorted_wrt (\<lambda>x y. fst y < fst x) (rev es)" using s by (simp add: sorted_wrt_rev)
  note f = find_first[OF this Some]
  have "Max {x \<in> dom (map_of es). P x} = fst e"
    using f by (intro Max_eqI) (auto simp: dom_map_of_conv_image_fst order_le_less)
  moreover have "map_of es (fst e) = Some (snd e)" using d f by (intro map_of_is_SomeI) auto
  ultimately show ?thesis
    using Some f by (auto simp: entry_result_def Let_def split: prod.splits)
qed

lemma entry_result_hd:
  assumes s: "sorted_wrt (\<lambda>x y. fst x < fst y) es" and d: "distinct (map fst es)"
  shows "entry_result (case es of [] \<Rightarrow> None | e # _ \<Rightarrow> Some e) =
    (if dom (map_of es) \<noteq> {} then (Min (dom (map_of es)), map_of es (Min (dom (map_of es))), True) else (0, None, False))"
proof -
  have "(case es of [] \<Rightarrow> None | e # _ \<Rightarrow> Some e) = find (\<lambda>e. (\<lambda>_. True) (fst e)) es" by (cases es) auto
  then show ?thesis using entry_result_Min[OF s d, of "\<lambda>_. True"] by (auto simp: Let_def)
qed

section \<open>Properties\<close>

text \<open>
  C15: Any sequence of \<^verbatim>\<open>Put\<close> and \<^verbatim>\<open>Remove\<close> calls on a new sorted map runs to the end, without a
  nil dereference, an index out of range or a search that does not stop, and the skip list
  then holds the finite map those calls describe: every lookup agrees with it and the size
  is the number of its keys.
\<close>
theorem sorted_map_refines_map:
  fixes ops :: "('k::{zero, linorder}, 'v) sm_op list"
  shows "\<exists>m. sm_run NewSortedMap ops = Some m \<and>
     (\<forall>k. SortedMap_Get m k = Some (foldl map_step Map.empty ops k)) \<and>
     (\<forall>k. SortedMap_Contains m k \<longleftrightarrow> k \<in> dom (foldl map_step Map.empty ops)) \<and>
     SortedMap_Size m = card (dom (foldl map_step Map.empty ops))"
proof -
  obtain m as es where m: "sm_run NewSortedMap ops = Some m" and r: "sm_rep m as es"
    and es: "map_of es = foldl map_step Map.empty ops"
    using sm_run_refines[OF sm_rep_new, of ops] by auto
  have "distinct (map fst es)" using r by (simp add: sm_rep_def chain_def)
  then have "card (dom (map_of es)) = length es"
    using distinct_card[of "map fst es"] by (simp add: dom_map_of_conv_image_fst)
  then show ?thesis
    using m SortedMap_Get_refines[OF r] SortedMap_Contains_refines[OF r] SortedMap_Size_refines[OF r]
    by (simp add: es[symmetric] dom_map_of_conv_image_fst)
qed

text \<open>
  C20: The neighbour searches of a sorted map that any calls produced are exact, for keys in
  the map (the constant-time path) and for keys that are not (the descent): \<^verbatim>\<open>Next\<close> finds the
  least larger key, \<^verbatim>\<open>Prev\<close> the greatest smaller key and \<^verbatim>\<open>Min\<close> the least key, with their values,
  and they report none exactly when there is none.
\<close>
theorem sorted_map_neighbours:
  fixes ops :: "('k::{zero, linorder}, 'v) sm_op list"
  defines "f \<equiv> foldl map_step Map.empty ops"
  shows "\<exists>m. sm_run NewSortedMap ops = Some m \<and>
     SortedMap_Next m k = Some (if \<exists>x \<in> dom f. k < x
       then let x = Min {x \<in> dom f. k < x} in (x, f x, True) else (0, None, False)) \<and>
     SortedMap_Prev m k = Some (if \<exists>x \<in> dom f. x < k
       then let x = Max {x \<in> dom f. x < k} in (x, f x, True) else (0, None, False)) \<and>
     SortedMap_Min m = Some (if dom f \<noteq> {} then (Min (dom f), f (Min (dom f)), True) else (0, None, False))"
proof -
  obtain m as es where m: "sm_run NewSortedMap ops = Some m" and r: "sm_rep m as es" and es: "map_of es = f"
    using sm_run_refines[OF sm_rep_new, of ops] by (auto simp: f_def)
  have s: "sorted_wrt (\<lambda>x y. fst x < fst y) es" and d: "distinct (map fst es)"
    using r by (auto simp: sm_rep_def chain_def sorted_wrt_map)
  show ?thesis
    using m SortedMap_Next_refines[OF r, of k] SortedMap_Prev_refines[OF r, of k] SortedMap_Min_refines[OF r]
      entry_result_Min[OF s d, of "\<lambda>x. k < x"] entry_result_Max[OF s d, of "\<lambda>x. x < k"] entry_result_hd[OF s d]
    by (simp add: sl_next_def sl_prev_def es)
qed

end
