(* ===== verification/Step_System.thy ===== *)
theory Step_System
  imports Main
begin

text \<open>
  Components as transition systems: the states a component reaches from its initial state by
  any sequence of calls. A component gives a partial step function, where \<open>None\<close> is a panic;
  a state is stuck when a call on it panics.
\<close>

inductive reachable :: "'s \<Rightarrow> ('s \<Rightarrow> 'e \<Rightarrow> 's option) \<Rightarrow> 's \<Rightarrow> bool"
  for init :: 's and step :: "'s \<Rightarrow> 'e \<Rightarrow> 's option" where
  reachable_init: "reachable init step init"
| reachable_step: "reachable init step s \<Longrightarrow> step s e = Some s' \<Longrightarrow> reachable init step s'"

fun run :: "('s \<Rightarrow> 'e \<Rightarrow> 's option) \<Rightarrow> 's \<Rightarrow> 'e list \<Rightarrow> 's option" where
  "run step s [] = Some s"
| "run step s (e # es) = (case step s e of None \<Rightarrow> None | Some s' \<Rightarrow> run step s' es)"

lemma run_reachable: "reachable init step s \<Longrightarrow> run step s es = Some s' \<Longrightarrow> reachable init step s'"
  by (induction es arbitrary: s) (auto split: option.splits intro: reachable_step)

lemma reachable_run: "reachable init step s \<longleftrightarrow> (\<exists>es. run step init es = Some s)"
proof
  have app: "run step s (es @ [e]) = (case run step s es of None \<Rightarrow> None | Some s' \<Rightarrow> step s' e)" for s es e
    by (induction es arbitrary: s) (auto split: option.splits)
  show "\<exists>es. run step init es = Some s" if "reachable init step s"
    using that
  proof (induction rule: reachable.induct)
    case reachable_init
    show ?case by (rule exI[of _ "[]"]) simp
  next
    case (reachable_step s e s')
    then obtain es where "run step init es = Some s" by blast
    then have "run step init (es @ [e]) = Some s'" using reachable_step(2) by (simp add: app)
    then show ?case by blast
  qed
qed (auto intro: run_reachable reachable_init)

text \<open>
  The contract of a component whose calls are admissible (\<open>ok s e\<close>) in some states only: the
  invariant holds at the start, and admissible calls that return keep it.
\<close>

definition guarded :: "('s \<Rightarrow> 'e \<Rightarrow> bool) \<Rightarrow> ('s \<Rightarrow> 'e \<Rightarrow> 's option) \<Rightarrow> 's \<Rightarrow> 'e \<Rightarrow> 's option" where
  "guarded ok step s e = (if ok s e then step s e else None)"

lemma reachable_weaken:
  assumes "reachable init (guarded ok step) s" and "\<And>s e. ok s e \<Longrightarrow> ok' s e"
  shows "reachable init (guarded ok' step) s"
  using assms(1)
proof (induction rule: reachable.induct)
  case reachable_init
  show ?case by (rule reachable.reachable_init)
next
  case (reachable_step s e s')
  then have "guarded ok' step s e = Some s'" using assms(2) by (auto simp: guarded_def split: if_splits)
  with reachable_step.IH show ?case by (rule reachable.reachable_step)
qed

locale invariant_system =
  fixes init :: 's and step :: "'s \<Rightarrow> 'e \<Rightarrow> 's option" and ok :: "'s \<Rightarrow> 'e \<Rightarrow> bool"
    and inv :: "'s \<Rightarrow> bool"
  assumes inv_init: "inv init"
    and inv_kept: "inv s \<Longrightarrow> ok s e \<Longrightarrow> step s e = Some s' \<Longrightarrow> inv s'"
begin

lemma reachable_inv: "reachable init (guarded ok step) s \<Longrightarrow> inv s"
proof (induction rule: reachable.induct)
  case (reachable_step s e s')
  then show ?case using inv_kept[of s e s'] by (auto simp: guarded_def split: if_splits)
qed (rule inv_init)

end

text \<open>The stronger contract: admissible calls do not panic either.\<close>

locale safe_system =
  fixes init :: 's and step :: "'s \<Rightarrow> 'e \<Rightarrow> 's option" and ok :: "'s \<Rightarrow> 'e \<Rightarrow> bool"
    and inv :: "'s \<Rightarrow> bool"
  assumes safe_init: "inv init"
    and inv_step: "inv s \<Longrightarrow> ok s e \<Longrightarrow> \<exists>s'. step s e = Some s' \<and> inv s'"
begin

sublocale invariant_system init step ok inv
  by unfold_locales (use safe_init inv_step in fastforce)+

lemma no_panic: "reachable init (guarded ok step) s \<Longrightarrow> ok s e \<Longrightarrow> step s e \<noteq> None"
  using reachable_inv inv_step by fastforce

end

end
