(* ===== verification/Measurement.thy ===== *)
theory Measurement
  imports Qotp_Prelude Step_System
begin

text \<open>
  \<^verbatim>\<open>measurement.go\<close>: round-trip estimation, the bandwidth estimate with its startup, drain and
  probe gains, pacing, and the retransmission timeout with its backoff. All quantities are
  64-bit words, and every division is checked: \<open>None\<close> is the panic of a division by zero.
\<close>

named_theorems meas_consts

definition msNano :: u64 where [meas_consts]: "msNano = 1000000"
definition secondNano :: u64 where [meas_consts]: "secondNano = 1000000000"
definition defaultRTO :: u64 where [meas_consts]: "defaultRTO = 200 * msNano"
definition minRTO :: u64 where [meas_consts]: "minRTO = 100 * msNano"
definition maxRTO :: u64 where [meas_consts]: "maxRTO = 2000 * msNano"
definition rttExpiry :: u64 where [meas_consts]: "rttExpiry = 10 * secondNano"
definition probeMultiplier :: u64 where [meas_consts]: "probeMultiplier = 8"
definition startupGain :: u64 where [meas_consts]: "startupGain = 277"
definition normalGain :: u64 where [meas_consts]: "normalGain = 100"
definition drainGain :: u64 where [meas_consts]: "drainGain = 75"
definition probeGain :: u64 where [meas_consts]: "probeGain = 125"
definition bwDecThreshold :: u64 where [meas_consts]: "bwDecThreshold = 3"
definition dupAckBwReduction :: u64 where [meas_consts]: "dupAckBwReduction = 98"
definition dupAckGain :: u64 where [meas_consts]: "dupAckGain = 90"
definition lossBwReduction :: u64 where [meas_consts]: "lossBwReduction = 95"
definition fallbackInterval :: u64 where [meas_consts]: "fallbackInterval = 10 * msNano"
definition rttDivisor :: u64 where [meas_consts]: "rttDivisor = 10"
definition rttInflationHigh :: u64 where [meas_consts]: "rttInflationHigh = 150"
definition rttInflationModerate :: u64 where [meas_consts]: "rttInflationModerate = 125"
definition MinDeadLine :: u64 where [meas_consts]: "MinDeadLine = 100 * msNano"
definition ReadDeadLine :: u64 where [meas_consts]: "ReadDeadLine = 30 * secondNano"
definition maxRetry :: int where [meas_consts]: "maxRetry = 5"
definition rtoBackoffPct :: u64 where [meas_consts]: "rtoBackoffPct = 200"

record Measurements =
  srtt :: u64
  rttvar :: u64
  isStartup :: bool
  rttMinNano :: u64
  rttMinTimeNano :: u64
  bwMax :: u64
  bwDec :: u64
  lastProbeTimeNano :: u64
  pacingGainPct :: u64
  lastReadTimeNano :: u64

definition NewMeasurements :: Measurements where
  "NewMeasurements =
     \<lparr>srtt = 0, rttvar = 0, isStartup = True, rttMinNano = - 1, rttMinTimeNano = - 1,
      bwMax = 0, bwDec = 0, lastProbeTimeNano = 0, pacingGainPct = startupGain,
      lastReadTimeNano = 0\<rparr>"

text \<open>\<open>x / y\<close> on unsigned integers.\<close>

definition go_div :: "u64 \<Rightarrow> u64 \<Rightarrow> u64 option" where
  "go_div x y = (if y = 0 then None else Some (x div y))"

section \<open>Updates on an acknowledgement\<close>

definition updateRtt :: "u64 \<Rightarrow> Measurements \<Rightarrow> Measurements" where
  "updateRtt rtt c =
     (if srtt c = 0 then c\<lparr>srtt := rtt, rttvar := rtt div 2\<rparr>
      else
        let delta = (if rtt > srtt c then rtt - srtt c else srtt c - rtt)
        in c\<lparr>rttvar := rttvar c * 3 div 4 + delta * 1 div 4,
             srtt := srtt c * 7 div 8 + rtt * 1 div 8\<rparr>)"

definition updateRttMin :: "u64 \<Rightarrow> u64 \<Rightarrow> Measurements \<Rightarrow> Measurements" where
  "updateRttMin rtt nowNano c =
     (if (nowNano > rttMinTimeNano c \<and> nowNano - rttMinTimeNano c \<ge> rttExpiry) \<or> rtt < rttMinNano c
      then c\<lparr>rttMinNano := rtt, rttMinTimeNano := nowNano\<rparr> else c)"

definition updateBandwidth :: "u64 \<Rightarrow> Measurements \<Rightarrow> Measurements" where
  "updateBandwidth bytesAcked c =
     (let bwCurrent = (if rttMinNano c > 0 then bytesAcked * 1000000000 div rttMinNano c else 0)
      in if bwCurrent > bwMax c then c\<lparr>bwMax := bwCurrent, bwDec := 0\<rparr>
         else c\<lparr>bwDec := bwDec c + 1\<rparr>)"

definition updateGain :: "u64 \<Rightarrow> Measurements \<Rightarrow> Measurements option" where
  "updateGain nowNano c =
     (if isStartup c then
        Some (if bwDec c \<ge> bwDecThreshold then c\<lparr>isStartup := False, pacingGainPct := normalGain\<rparr> else c)
      else do {
        rttRatioPct \<leftarrow> go_div (srtt c * 100) (rttMinNano c);
        Some (if rttRatioPct > rttInflationHigh then c\<lparr>pacingGainPct := drainGain\<rparr>
              else if rttRatioPct > rttInflationModerate then c\<lparr>pacingGainPct := dupAckGain\<rparr>
              else if nowNano - lastProbeTimeNano c > rttMinNano c * probeMultiplier
              then c\<lparr>pacingGainPct := probeGain, lastProbeTimeNano := nowNano\<rparr>
              else c\<lparr>pacingGainPct := normalGain\<rparr>)
      })"

definition updateMeasurements :: "u64 \<Rightarrow> u64 \<Rightarrow> u64 \<Rightarrow> Measurements \<Rightarrow> Measurements option" where
  "updateMeasurements rttMeasurementNano bytesAcked nowNano c =
     (if rttMeasurementNano = 0 then Some c
      else if bytesAcked = 0 then Some c
      else if rttMeasurementNano > ReadDeadLine then Some c
      else if nowNano = 0 then Some c
      else
        let c = updateRtt rttMeasurementNano c;
            c = updateRttMin rttMeasurementNano nowNano c;
            c = updateBandwidth bytesAcked c;
            c = (if lastProbeTimeNano c = 0 then c\<lparr>lastProbeTimeNano := nowNano\<rparr> else c)
        in updateGain nowNano c)"

section \<open>Timeout, loss and pacing\<close>

definition rtoNano :: "Measurements \<Rightarrow> u64" where
  "rtoNano c =
     (let rto = srtt c + 4 * rttvar c
      in if rto = 0 then defaultRTO
         else if rto < minRTO then minRTO
         else if rto > maxRTO then maxRTO
         else rto)"

definition onDuplicateAck :: "Measurements \<Rightarrow> Measurements" where
  "onDuplicateAck c =
     c\<lparr>bwMax := bwMax c * dupAckBwReduction div 100, pacingGainPct := dupAckGain, isStartup := False\<rparr>"

definition onPacketLoss :: "Measurements \<Rightarrow> Measurements" where
  "onPacketLoss c =
     c\<lparr>bwMax := bwMax c * lossBwReduction div 100, pacingGainPct := normalGain, isStartup := False\<rparr>"

definition calcPacing :: "Measurements \<Rightarrow> u64 \<Rightarrow> u64 option" where
  "calcPacing c packetSize =
     (if bwMax c = 0 then Some (if srtt c > 0 then srtt c div rttDivisor else fallbackInterval)
      else
        let adjustedBandwidth = bwMax c * pacingGainPct c div 100
        in if adjustedBandwidth = 0 then Some fallbackInterval
           else go_div (packetSize * 1000000000) adjustedBandwidth)"

fun backoff_loop :: "u64 \<Rightarrow> nat \<Rightarrow> u64" where
  "backoff_loop rto 0 = rto"
| "backoff_loop rto (Suc n) = backoff_loop (rto * rtoBackoffPct div 100) n"

definition backoff :: "u64 \<Rightarrow> int \<Rightarrow> u64 result" where
  "backoff rto rtoNr =
     (if rtoNr \<le> 0 then Inl (Err ''backoff requires a positive rto number'')
      else if rtoNr > maxRetry then Inl (Err ''max retry attempts exceeded limit'')
      else Inr (backoff_loop rto (nat (rtoNr - 1))))"

section \<open>The invariant\<close>

text \<open>
  A round-trip sample is at most \<open>ReadDeadLine\<close>, and a datagram has at most 65535 bytes; with
  these bounds no product below wraps. The minimal round-trip time is never zero, so the
  ratio in \<^verbatim>\<open>updateMeasurements\<close> is defined.
\<close>

definition maxSample :: nat where "maxSample = 30 * 10 ^ 9"

definition maxBandwidth :: nat where "maxBandwidth = 65535 * 10 ^ 9"

definition meas_inv :: "Measurements \<Rightarrow> bool" where
  "meas_inv c \<longleftrightarrow>
     rttMinNano c \<noteq> 0 \<and> unat (srtt c) \<le> maxSample \<and> unat (rttvar c) \<le> maxSample \<and>
     unat (bwMax c) \<le> maxBandwidth \<and>
     pacingGainPct c \<in> {startupGain, normalGain, drainGain, probeGain, dupAckGain} \<and>
     (isStartup c \<longrightarrow> pacingGainPct c = startupGain)"

lemmas meas_bounds = maxSample_def maxBandwidth_def

lemma ReadDeadLine_nat: "rtt \<le> ReadDeadLine \<longleftrightarrow> unat rtt \<le> maxSample"
  by (simp add: word_le_nat_alt meas_consts meas_bounds)

lemma meas_inv_new: "meas_inv NewMeasurements"
  by (simp add: meas_inv_def NewMeasurements_def)

lemma smooth_div: "unat (x * a div b) = unat x * unat a div unat b"
  if "unat x * unat a < 2 ^ 64" for x a b :: u64
  using that by (simp add: unat_div unat_mult_small)

text \<open>The smoothed round-trip time as a natural number; it moves towards the sample.\<close>

lemma srtt_updateRtt:
  assumes "unat (srtt c) \<le> maxSample" and "unat rtt \<le> maxSample" and "srtt c \<noteq> 0"
  shows "unat (srtt (updateRtt rtt c)) = 7 * unat (srtt c) div 8 + unat rtt div 8"
proof -
  have "unat (srtt c * 7 div 8) = unat (srtt c) * 7 div 8" "unat (rtt div 8) = unat rtt div 8"
    using assms smooth_div[of "srtt c" 7 8] by (simp_all add: unat_div meas_bounds)
  moreover have "unat (srtt c) * 7 div 8 + unat rtt div 8 < 2 ^ 64"
    using assms(1,2) by (simp add: meas_bounds)
  ultimately show ?thesis
    using assms(3) by (simp add: updateRtt_def Let_def unat_add_small mult.commute)
qed

lemma rttvar_updateRtt:
  assumes "unat (srtt c) \<le> maxSample" and "unat (rttvar c) \<le> maxSample" and "unat rtt \<le> maxSample"
  shows "unat (rttvar (updateRtt rtt c)) \<le> maxSample"
proof (cases "srtt c = 0")
  case True
  then show ?thesis using assms(3) by (simp add: updateRtt_def unat_div)
next
  case False
  define delta where "delta = (if rtt > srtt c then rtt - srtt c else srtt c - rtt)"
  have d: "unat delta \<le> maxSample"
    using assms(1,3) by (auto simp: delta_def unat_sub_le word_less_nat_alt word_le_nat_alt)
  have "unat (rttvar c * 3 div 4) = unat (rttvar c) * 3 div 4" "unat (delta div 4) = unat delta div 4"
    using assms(2) smooth_div[of "rttvar c" 3 4] by (simp_all add: unat_div meas_bounds)
  moreover have "unat (rttvar c) * 3 div 4 + unat delta div 4 \<le> maxSample"
    using assms(2) d by simp
  ultimately have "unat (rttvar c * 3 div 4 + delta div 4) \<le> maxSample"
    by (subst unat_add_small) (simp_all add: meas_bounds)
  then show ?thesis using False by (simp add: updateRtt_def Let_def delta_def)
qed

lemma updateRtt_inv:
  assumes "meas_inv c" and "unat rtt \<le> maxSample"
  shows "meas_inv (updateRtt rtt c)"
proof -
  have "unat (srtt (updateRtt rtt c)) \<le> maxSample"
  proof (cases "srtt c = 0")
    case False
    then show ?thesis using srtt_updateRtt[of c rtt] assms by (auto simp: meas_inv_def)
  qed (use assms in \<open>simp add: updateRtt_def\<close>)
  with rttvar_updateRtt[of c rtt] assms show ?thesis
    by (auto simp: meas_inv_def updateRtt_def Let_def)
qed

lemma updateRttMin_inv: "meas_inv c \<Longrightarrow> rtt \<noteq> 0 \<Longrightarrow> meas_inv (updateRttMin rtt now c)"
  by (auto simp: meas_inv_def updateRttMin_def)

lemma updateBandwidth_inv:
  assumes "meas_inv c" and "unat bytesAcked \<le> 65535"
  shows "meas_inv (updateBandwidth bytesAcked c)"
proof -
  have "unat (bytesAcked * 1000000000 div rttMinNano c) = unat bytesAcked * 1000000000 div unat (rttMinNano c)"
    using assms(2) smooth_div[of bytesAcked 1000000000 "rttMinNano c"] by simp
  also have "\<dots> \<le> unat bytesAcked * 1000000000" by (rule div_le_dividend)
  finally have "unat (bytesAcked * 1000000000 div rttMinNano c) \<le> maxBandwidth"
    using assms(2) by (simp add: meas_bounds)
  with assms(1) show ?thesis by (auto simp: meas_inv_def updateBandwidth_def Let_def)
qed

lemma updateGain_inv: "meas_inv c \<Longrightarrow> \<exists>c'. updateGain now c = Some c' \<and> meas_inv c'"
  by (auto simp: meas_inv_def updateGain_def go_div_def)

lemma updateMeasurements_inv:
  assumes "meas_inv c" and "unat bytesAcked \<le> 65535"
  shows "\<exists>c'. updateMeasurements rtt bytesAcked now c = Some c' \<and> meas_inv c'"
proof (cases "rtt = 0 \<or> bytesAcked = 0 \<or> rtt > ReadDeadLine \<or> now = 0")
  case False
  define c3 where "c3 = updateBandwidth bytesAcked (updateRttMin rtt now (updateRtt rtt c))"
  have "unat rtt \<le> maxSample" using False ReadDeadLine_nat[of rtt] by (simp add: not_less)
  then have "meas_inv c3"
    using False assms by (simp add: c3_def updateRtt_inv updateRttMin_inv updateBandwidth_inv)
  then have "meas_inv (if lastProbeTimeNano c3 = 0 then c3\<lparr>lastProbeTimeNano := now\<rparr> else c3)"
    by (simp add: meas_inv_def)
  from updateGain_inv[OF this, of now] False show ?thesis
    by (auto simp: updateMeasurements_def Let_def c3_def[symmetric] split: if_splits)
qed (use assms in \<open>auto simp: updateMeasurements_def\<close>)

lemma reduce_le:
  fixes b p :: u64
  assumes "unat b \<le> maxBandwidth" and "unat p \<le> 100"
  shows "unat (b * p div 100) \<le> unat b"
proof -
  have m: "unat b * unat p \<le> maxBandwidth * 100" using assms by (rule mult_le_mono)
  then have "unat (b * p div 100) = unat b * unat p div 100"
    using smooth_div[of b p 100] by (simp add: meas_bounds)
  moreover have "unat b * unat p \<le> unat b * 100" using assms(2) by simp
  ultimately show ?thesis using div_le_mono[of "unat b * unat p" "unat b * 100" 100] by simp
qed

lemma onDuplicateAck_inv: "meas_inv c \<Longrightarrow> meas_inv (onDuplicateAck c)"
  using reduce_le[of "bwMax c" dupAckBwReduction]
  by (auto simp: meas_inv_def onDuplicateAck_def meas_consts)

lemma onPacketLoss_inv: "meas_inv c \<Longrightarrow> meas_inv (onPacketLoss c)"
  using reduce_le[of "bwMax c" lossBwReduction]
  by (auto simp: meas_inv_def onPacketLoss_def meas_consts)

section \<open>The estimator as a transition system\<close>

datatype meas_event = Measured u64 u64 u64 | DuplicateAck | PacketLoss

fun meas_step :: "Measurements \<Rightarrow> meas_event \<Rightarrow> Measurements option" where
  "meas_step c (Measured rtt bytesAcked now) = updateMeasurements rtt bytesAcked now c"
| "meas_step c DuplicateAck = Some (onDuplicateAck c)"
| "meas_step c PacketLoss = Some (onPacketLoss c)"

text \<open>An acknowledged datagram has at most 65535 bytes.\<close>

fun meas_ok :: "Measurements \<Rightarrow> meas_event \<Rightarrow> bool" where
  "meas_ok c (Measured rtt bytesAcked now) = (unat bytesAcked \<le> 65535)"
| "meas_ok c _ = True"

interpretation ms: safe_system NewMeasurements meas_step meas_ok meas_inv
proof
  show "\<exists>c'. meas_step c e = Some c' \<and> meas_inv c'" if "meas_inv c" "meas_ok c e" for c e
    using that updateMeasurements_inv onDuplicateAck_inv onPacketLoss_inv by (cases e) auto
qed (rule meas_inv_new)

definition meas_reachable :: "Measurements \<Rightarrow> bool" where
  "meas_reachable = reachable NewMeasurements (guarded meas_ok meas_step)"

lemma meas_reachable_inv: "meas_reachable c \<Longrightarrow> meas_inv c"
  unfolding meas_reachable_def by (rule ms.reachable_inv)

section \<open>Timeouts and pacing as numbers\<close>

lemma unat_rtoNano:
  assumes "meas_inv c"
  shows "unat (rtoNano c) =
    (let rto = unat (srtt c) + 4 * unat (rttvar c)
     in if rto = 0 then 200000000 else max 100000000 (min 2000000000 rto))"
proof -
  have "unat (4 * rttvar c) = 4 * unat (rttvar c)"
    using assms by (subst unat_mult_small) (simp_all add: meas_inv_def meas_bounds)
  then have r: "unat (srtt c + 4 * rttvar c) = unat (srtt c) + 4 * unat (rttvar c)"
    using assms by (subst unat_add_small) (simp_all add: meas_inv_def meas_bounds)
  have "srtt c + 4 * rttvar c = 0 \<longleftrightarrow> unat (srtt c) + 4 * unat (rttvar c) = 0"
    by (simp add: r[symmetric] unat_eq_0)
  then show ?thesis
    by (auto simp: rtoNano_def Let_def word_less_nat_alt r meas_consts)
qed

lemma rtoNano_range: "minRTO \<le> rtoNano c \<and> rtoNano c \<le> maxRTO"
  by (auto simp: rtoNano_def Let_def meas_consts)

lemma unat_backoff_loop:
  assumes "unat rto * 2 ^ n * 100 < 2 ^ 64"
  shows "unat (backoff_loop rto n) = unat rto * 2 ^ n"
  using assms
proof (induction n arbitrary: rto)
  case (Suc n)
  have "unat rto * 200 \<le> unat rto * 2 ^ Suc n * 100" by simp
  then have "unat rto * 200 < 2 ^ 64" using Suc.prems by linarith
  then have "unat (rto * rtoBackoffPct div 100) = unat rto * 2"
    using smooth_div[of rto rtoBackoffPct 100] by (simp add: meas_consts)
  with Suc.IH[of "rto * rtoBackoffPct div 100"] Suc.prems show ?case
    by (simp add: mult.assoc mult.left_commute)
qed simp

lemma gain_range: "meas_inv c \<Longrightarrow> 75 \<le> unat (pacingGainPct c) \<and> unat (pacingGainPct c) \<le> 277"
  by (auto simp: meas_inv_def meas_consts)

lemma unat_adjusted:
  assumes "meas_inv c"
  shows "unat (bwMax c * pacingGainPct c div 100) = unat (bwMax c) * unat (pacingGainPct c) div 100"
proof (rule smooth_div[where b = 100, simplified])
  have "unat (bwMax c) * unat (pacingGainPct c) \<le> maxBandwidth * 277"
    using assms gain_range[OF assms] by (intro mult_le_mono) (auto simp: meas_inv_def)
  then show "unat (bwMax c) * unat (pacingGainPct c) < 18446744073709551616" by (simp add: meas_bounds)
qed

lemma srtt_frame [simp]:
  "srtt (updateRttMin rtt now c) = srtt c" "srtt (updateBandwidth bytesAcked c) = srtt c"
  by (simp_all add: updateRttMin_def updateBandwidth_def Let_def)

lemma srtt_updateGain: "updateGain now c = Some c' \<Longrightarrow> srtt c' = srtt c"
  by (auto simp: updateGain_def bind_eq_Some_conv split: if_splits)

section \<open>Properties\<close>

text \<open>
  C22: From a fresh connection, any sequence of acknowledged samples (of at most 65535 bytes),
  duplicate acknowledgements and losses is handled without a division by zero, and the
  minimal round-trip time stays positive, the smoothed values stay at most 30 seconds, and
  the pacing gain is one of the five gains of the code.
\<close>
theorem estimator_safe:
  assumes "meas_reachable c" and "unat bytesAcked \<le> 65535"
  shows "rttMinNano c > 0 \<and> unat (srtt c) \<le> 30 * 10 ^ 9 \<and> unat (rttvar c) \<le> 30 * 10 ^ 9 \<and>
    pacingGainPct c \<in> {startupGain, normalGain, drainGain, probeGain, dupAckGain} \<and>
    (\<exists>c'. updateMeasurements rtt bytesAcked now c = Some c' \<and> meas_reachable c')"
proof -
  have "meas_inv c" using assms(1) by (rule meas_reachable_inv)
  moreover obtain c' where c': "updateMeasurements rtt bytesAcked now c = Some c'"
    using updateMeasurements_inv[OF \<open>meas_inv c\<close> assms(2)] by blast
  moreover have "meas_reachable c'"
    using assms c' unfolding meas_reachable_def
    by (elim reachable_step[of _ _ c "Measured rtt bytesAcked now"]) (simp_all add: guarded_def)
  ultimately show ?thesis by (auto simp: meas_inv_def meas_bounds word_gt_0)
qed

lemma one_sample_reachable:
  "meas_reachable (the (updateMeasurements 5000000 1200 7 NewMeasurements))"
  unfolding meas_reachable_def
  by (rule reachable_step[of _ _ NewMeasurements "Measured 5000000 1200 7"])
     (simp_all add: reachable_init guarded_def updateMeasurements_def updateRtt_def updateRttMin_def
       updateBandwidth_def updateGain_def NewMeasurements_def meas_consts Let_def)

theorem estimator_safe_witness:
  "rttMinNano (the (updateMeasurements 5000000 1200 7 NewMeasurements)) > 0"
  using estimator_safe[OF one_sample_reachable, of 1200] by simp

text \<open>
  C23: In every reachable state the retransmission timeout is the sum of the smoothed
  round-trip time and four variations, without wrap-around, clamped to 100 ms and 2 s (200 ms
  before the first sample); the n-th transmission waits for it times \<open>2 ^ (n - 1)\<close>, for the
  five transmissions the code allows, and a number outside 1 to 5 is an error.
\<close>
theorem backoff_of_rto:
  assumes "meas_reachable c"
  shows "(1 \<le> n \<and> n \<le> 5 \<longrightarrow> (\<exists>w. backoff (rtoNano c) n = Inr w \<and>
      unat w = (let rto = unat (srtt c) + 4 * unat (rttvar c)
        in if rto = 0 then 200000000 else max 100000000 (min 2000000000 rto)) * 2 ^ nat (n - 1))) \<and>
    (n \<le> 0 \<or> 5 < n \<longrightarrow> (\<exists>e. backoff (rtoNano c) n = Inl (Err e)))"
proof -
  have "meas_inv c" using assms by (rule meas_reachable_inv)
  note rto = unat_rtoNano[OF this]
  have small: "unat (rtoNano c) \<le> 2000000000"
    using rtoNano_range[of c] by (simp add: word_le_nat_alt meas_consts)
  have "unat (backoff_loop (rtoNano c) (nat (n - 1))) = unat (rtoNano c) * 2 ^ nat (n - 1)"
    if "1 \<le> n" "n \<le> 5"
  proof (rule unat_backoff_loop)
    have "(2::nat) ^ nat (n - 1) \<le> 2 ^ 4" using that by (intro power_increasing) auto
    then have "unat (rtoNano c) * 2 ^ nat (n - 1) \<le> 2000000000 * 2 ^ 4"
      using small by (intro mult_le_mono) auto
    then show "unat (rtoNano c) * 2 ^ nat (n - 1) * 100 < 2 ^ 64" by simp
  qed
  then show ?thesis by (auto simp: backoff_def maxRetry_def rto)
qed

theorem backoff_of_rto_witness:
  "\<exists>w. backoff (rtoNano NewMeasurements) 3 = Inr w \<and> unat w = 800000000"
  using backoff_of_rto[of NewMeasurements 3]
  by (simp add: meas_reachable_def reachable_init NewMeasurements_def)

text \<open>
  A sample moves the smoothed round-trip time towards the sample: the new value is at
  most the larger and, up to one nanosecond of rounding, at least the smaller of the two.
\<close>
theorem srtt_between:
  assumes "meas_reachable c" and "srtt c \<noteq> 0" and "rtt \<noteq> 0" and "rtt \<le> ReadDeadLine"
    and "bytesAcked \<noteq> 0" and "now \<noteq> 0"
    and "updateMeasurements rtt bytesAcked now c = Some c'"
  shows "unat (srtt c') \<le> max (unat (srtt c)) (unat rtt) \<and>
    min (unat (srtt c)) (unat rtt) \<le> unat (srtt c') + 1"
proof -
  have inv: "meas_inv c" using assms(1) by (rule meas_reachable_inv)
  obtain c4 where "updateGain now c4 = Some c'" "srtt c4 = srtt (updateRtt rtt c)"
    using assms(3-7) by (auto simp: updateMeasurements_def Let_def not_less split: if_splits)
  then have "srtt c' = srtt (updateRtt rtt c)" by (simp add: srtt_updateGain)
  moreover have "unat (srtt (updateRtt rtt c)) = 7 * unat (srtt c) div 8 + unat rtt div 8"
    using inv assms(2,4) by (intro srtt_updateRtt) (simp_all add: meas_inv_def ReadDeadLine_nat)
  ultimately show ?thesis by auto
qed

theorem srtt_between_witness:
  "unat (srtt (the (updateMeasurements 9000000 1200 8 (the (updateMeasurements 5000000 1200 7 NewMeasurements))))) \<le> 9000000"
proof -
  define c where "c = the (updateMeasurements 5000000 1200 7 NewMeasurements)"
  have c: "meas_reachable c" "srtt c = 5000000"
    using one_sample_reachable
    by (simp_all add: c_def updateMeasurements_def updateRtt_def updateRttMin_def
        updateBandwidth_def updateGain_def NewMeasurements_def meas_consts Let_def)
  obtain c' where c': "updateMeasurements 9000000 1200 8 c = Some c'"
    using updateMeasurements_inv[OF meas_reachable_inv[OF c(1)], of 1200] by auto
  have "unat (srtt c') \<le> max (unat (srtt c)) (unat (9000000 :: u64))"
    using srtt_between[OF c(1) _ _ _ _ _ c'] c(2) by (simp add: meas_consts)
  then show ?thesis using c' c(2) unfolding c_def[symmetric] by simp
qed

text \<open>
  C24: The pacing delay \<open>t\<close> of a packet of at most 65535 bytes, in every state the estimator reaches.
  It is always defined: no division is by zero. Without a bandwidth estimate it is a tenth of the
  smoothed round-trip time, or 10 ms if there is none; if the estimate times the gain is less
  than one byte per second it is 10 ms; otherwise it is the packet size over the estimate times
  the gain, rounded down to a nanosecond, and no product wraps around.
\<close>
theorem pacing_exact:
  assumes "meas_reachable c" and "unat packetSize \<le> 65535"
  shows "\<exists>t. calcPacing c packetSize = Some t \<and>
    unat t = (if bwMax c = 0 then if srtt c = 0 then 10 ^ 7 else unat (srtt c) div 10
      else if unat (bwMax c) * unat (pacingGainPct c) < 100 then 10 ^ 7
      else unat packetSize * 10 ^ 9 div (unat (bwMax c) * unat (pacingGainPct c) div 100))"
proof -
  have inv: "meas_inv c" using assms(1) by (rule meas_reachable_inv)
  note adj = unat_adjusted[OF inv]
  have zero: "bwMax c * pacingGainPct c div 100 = 0 \<longleftrightarrow> unat (bwMax c) * unat (pacingGainPct c) < 100"
    using adj by (simp add: unat_eq_0[symmetric] div_eq_0_iff del: unat_eq_0)
  have "unat (packetSize * 1000000000) = unat packetSize * 10 ^ 9"
    using assms(2) by (subst unat_mult_small) simp_all
  then show ?thesis
    using adj zero by (auto simp: calcPacing_def Let_def go_div_def unat_div meas_consts word_gt_0)
qed

theorem pacing_exact_witness:
  "(\<exists>t. calcPacing (the (updateMeasurements 5000000 1200 7 NewMeasurements)) 1400 = Some t \<and> unat t = 2105896) \<and>
   (\<exists>t. calcPacing NewMeasurements 1400 = Some t \<and> unat t = 10000000)"
  using pacing_exact[OF one_sample_reachable, of 1400] pacing_exact[of NewMeasurements 1400]
  by (simp add: updateMeasurements_def updateRtt_def updateRttMin_def
        updateBandwidth_def updateGain_def NewMeasurements_def meas_consts Let_def unat_div meas_reachable_def reachable_init)

end
