(* ===== verification/Crypto_Layout.thy ===== *)
theory Crypto_Layout
  imports Proto
begin

text \<open>
  The packet kinds and the size constants of \<^verbatim>\<open>crypto.go\<close>, and the per-packet overhead from
  which the send buffer computes how much user data fits.
\<close>

datatype CryptoMsgType = InitSnd | InitRcv | InitCryptoSnd | InitCryptoRcv | Data

named_theorems crypto_consts

definition CryptoVersion :: u8 where [crypto_consts]: "CryptoVersion = 0"
definition MacSize :: nat where [crypto_consts]: "MacSize = 16"
definition SnSize :: nat where [crypto_consts]: "SnSize = 6"
definition PubKeySize :: nat where [crypto_consts]: "PubKeySize = 32"
definition HeaderSize :: nat where [crypto_consts]: "HeaderSize = 1"
definition ConnIdSize :: nat where [crypto_consts]: "ConnIdSize = 8"
definition MsgInitFillLenSize :: nat where [crypto_consts]: "MsgInitFillLenSize = 2"

definition MinInitRcvSizeHdr :: nat where
  [crypto_consts]: "MinInitRcvSizeHdr = HeaderSize + ConnIdSize + (2 * PubKeySize)"
definition MinInitCryptoSndSizeHdr :: nat where
  [crypto_consts]: "MinInitCryptoSndSizeHdr = HeaderSize + (2 * PubKeySize)"
definition MinInitCryptoRcvSizeHdr :: nat where
  [crypto_consts]: "MinInitCryptoRcvSizeHdr = HeaderSize + ConnIdSize + PubKeySize"
definition MinDataSizeHdr :: nat where
  [crypto_consts]: "MinDataSizeHdr = HeaderSize + ConnIdSize"
definition FooterDataSize :: nat where
  [crypto_consts]: "FooterDataSize = SnSize + MacSize"
definition MinPacketSize :: nat where
  [crypto_consts]: "MinPacketSize = MinDataSizeHdr + FooterDataSize + MinProtoSize"

definition calcCryptoOverheadWithData :: "CryptoMsgType \<Rightarrow> Ack option \<Rightarrow> u64 \<Rightarrow> int" where
  "calcCryptoOverheadWithData msgType ack offset =
     (let hasAck = (ack \<noteq> None);
          needsExtension = ((case ack of None \<Rightarrow> False | Some a \<Rightarrow> ack_offset a > 0xffffff) \<or> offset > 0xffffff);
          overhead = int (calcProtoOverhead hasAck needsExtension False)
      in case msgType of
           InitSnd \<Rightarrow> - 1
         | InitRcv \<Rightarrow> overhead + int (MinInitRcvSizeHdr + FooterDataSize)
         | InitCryptoSnd \<Rightarrow> overhead + int (MinInitCryptoSndSizeHdr + FooterDataSize + MsgInitFillLenSize)
         | InitCryptoRcv \<Rightarrow> overhead + int (MinInitCryptoRcvSizeHdr + FooterDataSize)
         | Data \<Rightarrow> overhead + int (MinDataSizeHdr + FooterDataSize))"

lemma calcCryptoOverhead_range:
  assumes "msgType \<noteq> InitSnd"
  shows "39 \<le> calcCryptoOverheadWithData msgType ack offset \<and> calcCryptoOverheadWithData msgType ack offset \<le> 119"
  using assms
  by (cases msgType) (auto simp: calcCryptoOverheadWithData_def calcProtoOverhead_def Let_def crypto_consts)

end
