(* ===== verification/Send_Buffer.thy ===== *)
theory Send_Buffer
  imports Crypto_Layout Linked_Map Measurement
begin

text \<open>
  \<^verbatim>\<open>snd.go\<close>: per stream, the bytes queued by the application and the packets in flight, keyed
  by offset and length, with their retransmission data. The streams map is a partial
  function, the in-flight map a linked map. A \<^verbatim>\<open>SendInfo\<close> is referenced from its map entry
  only, so changing it in place is putting the changed record under its key.

  The second half runs the buffer as a transition system with two ghost components, the
  bytes each stream accepted and the positions acknowledged, and shows that no byte is lost,
  duplicated or altered between queueing and acknowledgement.
\<close>

section \<open>State\<close>

datatype InsertStatus = InsertStatusOk | InsertStatusSndFull | InsertStatusNoData

datatype AckStatus = AckStatusOk | AckNoStream | AckDup

record SendInfo =
  si_data :: bytes
  si_sentTimeNano :: u64
  si_sentNr :: int
  si_pingRequest :: bool

type_synonym packetKey = u64

record StreamBuffer =
  dataInFlightMap :: "(packetKey, SendInfo) linked_map"
  queuedData :: bytes
  bytesSentOffset :: u64
  pingRequest :: bool
  snd_closeAtOffset :: "u64 option"

record SendBuffer =
  snd_streams :: "u32 \<rightharpoonup> StreamBuffer"
  snd_capacity :: int
  snd_size :: int

section \<open>Packet keys\<close>

definition packetKey_offset :: "packetKey \<Rightarrow> u64" where
  "packetKey_offset p = drop_bit 16 p"

definition packetKey_length :: "packetKey \<Rightarrow> u16" where
  "packetKey_length p = ucast (p AND 0xffff)"

definition createPacketKey :: "u64 \<Rightarrow> u16 \<Rightarrow> packetKey" where
  "createPacketKey offset len = push_bit 16 offset OR ucast len"

section \<open>Operations\<close>

definition NewStreamBuffer :: StreamBuffer where
  "NewStreamBuffer =
     \<lparr>dataInFlightMap = lm_new, queuedData = [], bytesSentOffset = 0, pingRequest = False,
      snd_closeAtOffset = None\<rparr>"

definition NewSendBuffer :: "int \<Rightarrow> SendBuffer" where
  "NewSendBuffer capacity = \<lparr>snd_streams = Map.empty, snd_capacity = capacity, snd_size = 0\<rparr>"

text \<open>
  \<^verbatim>\<open>getOrCreateStream\<close> returns the stream; the callers below store it back changed, which
  also enters a new stream into the map.
\<close>

definition snd_getOrCreateStream :: "SendBuffer \<Rightarrow> u32 \<Rightarrow> StreamBuffer" where
  "snd_getOrCreateStream sb streamID =
     (case snd_streams sb streamID of None \<Rightarrow> NewStreamBuffer | Some s \<Rightarrow> s)"

definition snd_put_stream :: "SendBuffer \<Rightarrow> u32 \<Rightarrow> StreamBuffer \<Rightarrow> SendBuffer" where
  "snd_put_stream sb streamID s = sb\<lparr>snd_streams := (snd_streams sb)(streamID \<mapsto> s)\<rparr>"

definition newSendInfo :: "bytes \<Rightarrow> u64 \<Rightarrow> bool \<Rightarrow> SendInfo" where
  "newSendInfo d nowNano isPing =
     \<lparr>si_data = d, si_sentTimeNano = nowNano, si_sentNr = 1, si_pingRequest = isPing\<rparr>"

text \<open>
  \<open>userData[:remaining]\<close> panics for a negative bound. The counters are Go integers.
\<close>

definition SendBuffer_QueueData ::
  "SendBuffer \<Rightarrow> u32 \<Rightarrow> bytes \<Rightarrow> ((int \<times> InsertStatus) \<times> SendBuffer) option" where
  "SendBuffer_QueueData sb streamId userData =
     (if length userData = 0 then Some ((0, InsertStatusNoData), sb)
      else
        let remaining = snd_capacity sb - snd_size sb
        in if remaining = 0 then Some ((0, InsertStatusSndFull), sb)
           else do {
             (chunk, status) \<leftarrow>
               (if int (length userData) > remaining
                then if remaining < 0 then None else Some (take (nat remaining) userData, InsertStatusSndFull)
                else Some (userData, InsertStatusOk));
             let n = int (length chunk);
             let stream = snd_getOrCreateStream sb streamId;
             let stream = stream\<lparr>queuedData := queuedData stream @ chunk\<rparr>;
             Some ((n, status), (snd_put_stream sb streamId stream)\<lparr>snd_size := snd_size sb + n\<rparr>)
           })"

definition SendBuffer_QueuePing :: "SendBuffer \<Rightarrow> u32 \<Rightarrow> SendBuffer" where
  "SendBuffer_QueuePing sb streamId =
     snd_put_stream sb streamId ((snd_getOrCreateStream sb streamId)\<lparr>pingRequest := True\<rparr>)"

text \<open>The space for user data in a packet: none in an \<^verbatim>\<open>InitSnd\<close> packet.\<close>

definition maxData :: "CryptoMsgType \<Rightarrow> Ack option \<Rightarrow> int \<Rightarrow> u64 \<Rightarrow> int" where
  "maxData msgType ack mtu offset =
     (if msgType \<noteq> InitSnd then mtu - calcCryptoOverheadWithData msgType ack offset else 0)"

definition SendBuffer_ReadyToSend ::
  "SendBuffer \<Rightarrow> u32 \<Rightarrow> CryptoMsgType \<Rightarrow> Ack option \<Rightarrow> int \<Rightarrow> u64 \<Rightarrow>
   (bytes option \<times> u64 \<times> bool) \<times> SendBuffer" where
  "SendBuffer_ReadyToSend sb streamID msgType ack mtu nowNano =
     (case snd_streams sb streamID of
        None \<Rightarrow> ((None, 0, False), sb)
      | Some stream \<Rightarrow>
          if pingRequest stream then
            let key = createPacketKey (bytesSentOffset stream) 0;
                stream = stream\<lparr>pingRequest := False,
                  dataInFlightMap := lm_put (dataInFlightMap stream) key (newSendInfo [] nowNano True)\<rparr>
            in ((Some [], 0, False), snd_put_stream sb streamID stream)
          else if length (queuedData stream) = 0 then
            (if (case snd_closeAtOffset stream of None \<Rightarrow> True | Some c \<Rightarrow> bytesSentOffset stream < c)
             then ((None, 0, False), sb)
             else
               let key = createPacketKey (bytesSentOffset stream) 0;
                   stream = stream\<lparr>dataInFlightMap :=
                     lm_put (dataInFlightMap stream) key (newSendInfo [] nowNano False)\<rparr>
               in ((Some [], packetKey_offset key, True), snd_put_stream sb streamID stream))
          else
            let len = min (word_of_int (maxData msgType ack mtu (bytesSentOffset stream)))
                        (word_of_nat (length (queuedData stream)) :: u64);
                packetData = take (unat len) (queuedData stream);
                key = createPacketKey (bytesSentOffset stream) (ucast len);
                stream = stream\<lparr>
                  dataInFlightMap := lm_put (dataInFlightMap stream) key (newSendInfo packetData nowNano False),
                  queuedData := drop (unat len) (queuedData stream),
                  bytesSentOffset := bytesSentOffset stream + len\<rparr>;
                isClose = (case snd_closeAtOffset stream of None \<Rightarrow> False | Some c \<Rightarrow> bytesSentOffset stream \<ge> c)
            in ((Some packetData, packetKey_offset key, isClose), snd_put_stream sb streamID stream))"

text \<open>
  The error is the one of \<^verbatim>\<open>backoff\<close>. In the split case the slices panic for a negative bound
  and for one beyond the data; both parts stay in the map, the right part in place of the
  whole packet.
\<close>

definition SendBuffer_ReadyToRetransmit ::
  "SendBuffer \<Rightarrow> u32 \<Rightarrow> Ack option \<Rightarrow> int \<Rightarrow> u64 \<Rightarrow> CryptoMsgType \<Rightarrow> u64 \<Rightarrow>
   ((bytes option \<times> u64 \<times> bool) \<times> SendBuffer) result" where
  "SendBuffer_ReadyToRetransmit sb streamID ack mtu expectedRtoNano msgType nowNano =
     (case snd_streams sb streamID of
        None \<Rightarrow> Inr ((None, 0, False), sb)
      | Some stream \<Rightarrow>
          (case lm_first (dataInFlightMap stream) of
             (pkey, Some rtoData, True) \<Rightarrow>
               and_then (backoff expectedRtoNano (si_sentNr rtoData)) (\<lambda>expectedRtoBackoffNano.
               if nowNano - si_sentTimeNano rtoData \<le> expectedRtoBackoffNano then Inr ((None, 0, False), sb)
               else if si_pingRequest rtoData then
                 Inr ((None, 0, False), snd_put_stream sb streamID
                   (stream\<lparr>dataInFlightMap := lm_remove (dataInFlightMap stream) pkey\<rparr>))
               else
                 let d = si_data rtoData;
                     len = word_of_nat (length d) :: u16;
                     space = maxData msgType ack mtu (packetKey_offset pkey)
                 in if len \<le> word_of_int space then
                      let rtoData = rtoData\<lparr>si_sentTimeNano := nowNano, si_sentNr := si_sentNr rtoData + 1\<rparr>;
                          stream = stream\<lparr>dataInFlightMap := lm_put (dataInFlightMap stream) pkey rtoData\<rparr>;
                          packetEnd = packetKey_offset pkey + ucast len;
                          isClose = (case snd_closeAtOffset stream of None \<Rightarrow> False | Some c \<Rightarrow> packetEnd \<ge> c)
                      in Inr ((Some d, packetKey_offset pkey, isClose), snd_put_stream sb streamID stream)
                    else if space < 0 \<or> int (length d) < space then Inl (Panic ''slice bounds out of range'')
                    else
                      let leftData = take (nat space) d;
                          rightData = drop (nat space) d;
                          leftKey = createPacketKey (packetKey_offset pkey) (word_of_int space);
                          leftInfo = \<lparr>si_data = leftData, si_sentTimeNano = nowNano,
                                      si_sentNr = si_sentNr rtoData + 1, si_pingRequest = False\<rparr>;
                          m = lm_put (dataInFlightMap stream) leftKey leftInfo;
                          rightKey = createPacketKey (packetKey_offset pkey + word_of_int space)
                                       (word_of_nat (length rightData));
                          rtoData = rtoData\<lparr>si_data := rightData\<rparr>;
                          m = (if leftKey = pkey then m else lm_put m pkey rtoData);
                          m = lm_replace m pkey rightKey rtoData
                      in Inr ((Some leftData, packetKey_offset pkey, False),
                              snd_put_stream sb streamID (stream\<lparr>dataInFlightMap := m\<rparr>)))
           | _ \<Rightarrow> Inr ((None, 0, False), sb)))"

definition SendBuffer_AcknowledgeRange :: "SendBuffer \<Rightarrow> Ack \<Rightarrow> (AckStatus \<times> u64) \<times> SendBuffer" where
  "SendBuffer_AcknowledgeRange sb ack =
     (case snd_streams sb (ack_streamID ack) of
        None \<Rightarrow> ((AckNoStream, 0), sb)
      | Some stream \<Rightarrow>
          let key = createPacketKey (ack_offset ack) (ack_len ack)
          in case lm_get (dataInFlightMap stream) key of
               None \<Rightarrow> ((AckDup, 0), sb)
             | Some sendInfo \<Rightarrow>
                 ((AckStatusOk, si_sentTimeNano sendInfo),
                  (snd_put_stream sb (ack_streamID ack)
                     (stream\<lparr>dataInFlightMap := lm_remove (dataInFlightMap stream) key\<rparr>))
                  \<lparr>snd_size := snd_size sb - int (length (si_data sendInfo))\<rparr>))"

definition SendBuffer_GetOffsetAcked :: "SendBuffer \<Rightarrow> u32 \<Rightarrow> u64" where
  "SendBuffer_GetOffsetAcked sb streamID =
     (case snd_streams sb streamID of
        None \<Rightarrow> 0
      | Some stream \<Rightarrow>
          (case lm_first (dataInFlightMap stream) of
             (firstKey, _, True) \<Rightarrow> packetKey_offset firstKey
           | _ \<Rightarrow> bytesSentOffset stream))"

definition SendBuffer_GetOffsetClosedAt :: "SendBuffer \<Rightarrow> u32 \<Rightarrow> u64 option" where
  "SendBuffer_GetOffsetClosedAt sb streamID =
     (case snd_streams sb streamID of None \<Rightarrow> None | Some stream \<Rightarrow> snd_closeAtOffset stream)"

definition SendBuffer_Close :: "SendBuffer \<Rightarrow> u32 \<Rightarrow> SendBuffer" where
  "SendBuffer_Close sb streamID =
     (let stream = snd_getOrCreateStream sb streamID
      in snd_put_stream sb streamID
           (if snd_closeAtOffset stream = None
            then stream\<lparr>snd_closeAtOffset :=
                   Some (bytesSentOffset stream + word_of_nat (length (queuedData stream)))\<rparr>
            else stream))"

section \<open>Packet keys as offset and length\<close>

abbreviation koff :: "packetKey \<Rightarrow> nat" where
  "koff k \<equiv> unat (packetKey_offset k)"

abbreviation klen :: "packetKey \<Rightarrow> nat" where
  "klen k \<equiv> unat (packetKey_length k)"

definition krange :: "packetKey \<Rightarrow> nat set" where
  "krange k = {koff k..<koff k + klen k}"

lemma packetKey_length_alt: "packetKey_length k = ucast k"
proof -
  have m: "(0xffff :: u64) = mask 16" by (simp add: mask_eq_exp_minus_1)
  show ?thesis
    unfolding packetKey_length_def m by (rule bit_word_eqI) (auto simp: bit_simps bit_ucast_iff)
qed

lemma packetKey_length_create [simp]: "packetKey_length (createPacketKey offset len) = len"
  by (rule bit_word_eqI)
     (auto simp: packetKey_length_alt createPacketKey_def bit_simps bit_ucast_iff)

lemma packetKey_offset_create [simp]:
  assumes "unat offset < 2 ^ 48"
  shows "packetKey_offset (createPacketKey offset len) = offset"
proof (rule bit_word_eqI)
  fix n
  have "take_bit 48 offset = offset" using assms by (rule take_bit_word_eq_self)
  then have "bit offset n \<longleftrightarrow> n < 48 \<and> bit offset n" by (metis bit_take_bit_iff)
  then show "bit (packetKey_offset (createPacketKey offset len)) n \<longleftrightarrow> bit offset n"
    by (auto simp: packetKey_offset_def createPacketKey_def bit_simps bit_ucast_iff dest: bit_imp_le_length)
qed

lemma createPacketKey_parts: "createPacketKey (packetKey_offset k) (packetKey_length k) = k"
  by (rule bit_word_eqI)
     (auto simp: packetKey_offset_def packetKey_length_alt createPacketKey_def bit_simps bit_ucast_iff)

lemma koff_less: "koff k < 2 ^ 48"
proof -
  have "unat k < 2 ^ 64" using unsigned_less[of k, where 'a = nat] by simp
  then show ?thesis by (simp add: packetKey_offset_def drop_bit_eq_div unat_div)
qed

lemma packetKey_eqI: "koff k = koff k' \<Longrightarrow> klen k = klen k' \<Longrightarrow> k = k'"
  by (metis createPacketKey_parts unsigned_word_eqI)

section \<open>What is in flight\<close>

text \<open>
  \<open>W\<close> is what the stream accepted, \<open>A\<close> the positions acknowledged, \<open>sent\<close> the offset up to
  which packets were made, \<open>F\<close> the entries in flight. Every position below \<open>sent\<close> is either
  acknowledged or in exactly one entry, and an entry holds the bytes of its range.
\<close>

definition flight_inv :: "bytes \<Rightarrow> nat set \<Rightarrow> nat \<Rightarrow> (packetKey \<times> SendInfo) set \<Rightarrow> bool" where
  "flight_inv W A sent F \<longleftrightarrow>
     sent \<le> length W \<and> length W < 2 ^ 48 \<and>
     (\<forall>e \<in> F. koff (fst e) + klen (fst e) \<le> sent \<and>
        si_data (snd e) = take (klen (fst e)) (drop (koff (fst e)) W) \<and>
        (si_pingRequest (snd e) \<longrightarrow> klen (fst e) = 0)) \<and>
     (\<forall>e \<in> F. \<forall>f \<in> F. fst e \<noteq> fst f \<longrightarrow> disjnt (krange (fst e)) (krange (fst f))) \<and>
     A \<union> (\<Union>e \<in> F. krange (fst e)) = {..<sent} \<and> (\<forall>e \<in> F. disjnt A (krange (fst e)))"

lemma krange_empty [simp]: "klen k = 0 \<Longrightarrow> krange k = {}"
  by (simp add: krange_def)

lemma flight_inv_entry:
  assumes "flight_inv W A sent F" and "(k, i) \<in> F"
  shows "koff k + klen k \<le> sent" "si_data i = take (klen k) (drop (koff k) W)"
    "length (si_data i) = klen k" "disjnt A (krange k)" "si_pingRequest i \<Longrightarrow> klen k = 0"
    "sent \<le> length W"
  using assms unfolding flight_inv_def by fastforce+

lemma flight_inv_disjoint:
  assumes "flight_inv W A sent F" and "(k, i) \<in> F" and "f \<in> F" and "fst f \<noteq> k"
  shows "disjnt (krange k) (krange (fst f))"
proof -
  have "\<forall>e \<in> F. \<forall>f \<in> F. fst e \<noteq> fst f \<longrightarrow> disjnt (krange (fst e)) (krange (fst f))"
    using assms(1) by (simp add: flight_inv_def)
  from this[rule_format, OF assms(2,3)] show ?thesis using assms(4) by simp
qed

lemma flight_inv_new: "flight_inv [] {} 0 {}"
  by (simp add: flight_inv_def)

lemma flight_inv_append:
  assumes "flight_inv W A sent F" and "length (W @ c) < 2 ^ 48"
  shows "flight_inv (W @ c) A sent F"
proof -
  have "take (klen (fst e)) (drop (koff (fst e)) (W @ c)) = take (klen (fst e)) (drop (koff (fst e)) W)"
    if "e \<in> F" for e
    using flight_inv_entry(1,6)[OF assms(1), of "fst e" "snd e"] that by simp
  with assms show ?thesis unfolding flight_inv_def by auto
qed

text \<open>Overwriting an entry, or adding an empty one.\<close>

lemma flight_inv_put:
  assumes inv: "flight_inv W A sent F" and k: "klen k = 0 \<or> (\<exists>i0. (k, i0) \<in> F)"
    and i: "koff k + klen k \<le> sent" "si_data i = take (klen k) (drop (koff k) W)"
      "si_pingRequest i \<Longrightarrow> klen k = 0"
  shows "flight_inv W A sent (insert (k, i) {e \<in> F. fst e \<noteq> k})"
proof -
  have "disjnt A (krange k)" using k flight_inv_entry(4)[OF inv] by auto
  moreover have "disjnt (krange k) (krange (fst f)) \<and> disjnt (krange (fst f)) (krange k)"
    if "f \<in> F" "fst f \<noteq> k" for f
    using k flight_inv_disjoint[OF inv _ that] by (auto simp: disjnt_sym)
  moreover have "(\<Union>e \<in> insert (k, i) {e \<in> F. fst e \<noteq> k}. krange (fst e)) = (\<Union>e \<in> F. krange (fst e))"
    using k by force
  ultimately show ?thesis
    using inv i unfolding flight_inv_def by (auto intro: flight_inv_disjoint[OF inv, of _ _ "(_, _)", unfolded fst_conv])
qed

text \<open>A new packet at the end of what was sent.\<close>

lemma flight_inv_send:
  assumes inv: "flight_inv W A sent F" and k: "koff k = sent" "sent + klen k \<le> length W"
    and i: "si_data i = take (klen k) (drop sent W)" "\<not> si_pingRequest i"
  shows "flight_inv W A (sent + klen k) (insert (k, i) {e \<in> F. fst e \<noteq> k})"
proof -
  have low: "krange (fst f) \<subseteq> {..<sent}" if "f \<in> F" for f
    using flight_inv_entry(1)[OF inv, of "fst f" "snd f"] that by (auto simp: krange_def)
  have kr: "krange k = {sent..<sent + klen k}" using k(1) by (simp add: krange_def)
  have same: "krange k = {}" if "f \<in> F" "fst f = k" for f
    using low[OF that(1)] that(2) kr by auto
  have A: "A \<subseteq> {..<sent}" "{..<sent} = A \<union> (\<Union>e \<in> F. krange (fst e))"
    using inv by (auto simp: flight_inv_def)
  have U: "(\<Union>e \<in> insert (k, i) {e \<in> F. fst e \<noteq> k}. krange (fst e)) = krange k \<union> (\<Union>e \<in> F. krange (fst e))"
    using same by auto
  have cover: "A \<union> (krange k \<union> (\<Union>e \<in> F. krange (fst e))) = {..<sent + klen k}"
  proof -
    have "A \<union> (krange k \<union> (\<Union>e \<in> F. krange (fst e))) = {..<sent} \<union> krange k" unfolding A(2) by blast
    then show ?thesis using kr by auto
  qed
  have "disjnt (krange k) (krange (fst f)) \<and> disjnt (krange (fst f)) (krange k)" if "f \<in> F" for f
    using low[OF that] kr by (fastforce simp: disjnt_def)
  moreover have "disjnt A (krange k)" using A(1) kr by (auto simp: disjnt_def)
  ultimately show ?thesis
    using inv k i unfolding flight_inv_def U cover
    by (auto intro: flight_inv_disjoint[OF inv, of _ _ "(_, _)", unfolded fst_conv])
qed

text \<open>An acknowledged packet leaves.\<close>

lemma flight_inv_ack:
  assumes inv: "flight_inv W A sent F" and k: "(k, i) \<in> F"
  shows "flight_inv W (A \<union> krange k) sent {e \<in> F. fst e \<noteq> k}"
    and "card (A \<union> krange k) = card A + klen k"
proof -
  have U: "A \<union> krange k \<union> (\<Union>e \<in> {e \<in> F. fst e \<noteq> k}. krange (fst e)) = A \<union> (\<Union>e \<in> F. krange (fst e))"
    using k by force
  have "disjnt (krange k) (krange (fst f))" if "f \<in> F" "fst f \<noteq> k" for f
    using flight_inv_disjoint[OF inv k that] .
  then show "flight_inv W (A \<union> krange k) sent {e \<in> F. fst e \<noteq> k}"
    using inv unfolding flight_inv_def U by (auto simp: disjnt_Un1)
  have "A \<subseteq> {..<sent}" using inv by (auto simp: flight_inv_def)
  then have "finite A" by (rule finite_subset) simp
  then show "card (A \<union> krange k) = card A + klen k"
    using flight_inv_entry(4)[OF inv k] by (subst card_Un_disjoint) (auto simp: krange_def disjnt_def)
qed

text \<open>A packet is split in two for retransmission.\<close>

lemma flight_inv_split:
  assumes inv: "flight_inv W A sent F" and p: "(p, i) \<in> F" and m: "m < klen p"
    and l: "koff lk = koff p" "klen lk = m" "si_data li = take m (si_data i)" "\<not> si_pingRequest li"
    and r: "koff rk = koff p + m" "klen rk = klen p - m" "si_data ri = drop m (si_data i)" "\<not> si_pingRequest ri"
  shows "lk \<noteq> p" "rk \<noteq> lk" "rk = p \<or> rk \<notin> fst ` F"
    "flight_inv W A sent (insert (rk, ri) (insert (lk, li) {e \<in> F. fst e \<noteq> p \<and> fst e \<noteq> lk}))"
proof -
  note e = flight_inv_entry[OF inv p]
  show "lk \<noteq> p" using l(2) m by auto
  show "rk \<noteq> lk" using l(1,2) r(1,2) m by auto
  have dis: "disjnt (krange p) (krange (fst f))" if "f \<in> F" "fst f \<noteq> p" for f
    using flight_inv_disjoint[OF inv p that] .
  have lr: "krange lk \<union> krange rk = krange p" "disjnt (krange lk) (krange rk)" "disjnt (krange rk) (krange lk)"
    using l(1,2) r(1,2) m by (auto simp: krange_def disjnt_def)
  show "rk = p \<or> rk \<notin> fst ` F"
  proof (rule disjCI, safe)
    fix k j
    assume "fst (k, j) \<noteq> p" "(k, j) \<in> F" "rk = fst (k, j)"
    then have "disjnt (krange p) (krange rk)" using dis by force
    then show False using r(1,2) m by (auto simp: krange_def disjnt_def)
  qed
  have lk: "krange lk = {}" if "f \<in> F" "fst f = lk" for f
    using dis[OF that(1)] that(2) \<open>lk \<noteq> p\<close> lr(1) by (auto simp: disjnt_def)
  have "disjnt A (krange lk)" "disjnt A (krange rk)" using e(4) lr(1) by (auto simp: disjnt_def)
  moreover have "disjnt (krange lk) (krange (fst f)) \<and> disjnt (krange (fst f)) (krange lk) \<and>
      disjnt (krange rk) (krange (fst f)) \<and> disjnt (krange (fst f)) (krange rk)"
    if "f \<in> F" "fst f \<noteq> p" for f using dis[OF that] lr(1) by (auto simp: disjnt_def)
  moreover have "(\<Union>e \<in> insert (rk, ri) (insert (lk, li) {e \<in> F. fst e \<noteq> p \<and> fst e \<noteq> lk}). krange (fst e)) =
      (\<Union>e \<in> F. krange (fst e))"
  proof -
    have "(\<Union>e \<in> F. krange (fst e)) = krange p \<union> (\<Union>e \<in> {e \<in> F. fst e \<noteq> p}. krange (fst e))" using p by force
    also have "(\<Union>e \<in> {e \<in> F. fst e \<noteq> p}. krange (fst e)) = (\<Union>e \<in> {e \<in> F. fst e \<noteq> p \<and> fst e \<noteq> lk}. krange (fst e))"
      using lk by auto
    finally show ?thesis using lr(1) by auto
  qed
  moreover have "si_data li = take (klen lk) (drop (koff lk) W)" "koff lk + klen lk \<le> sent"
    "si_data ri = take (klen rk) (drop (koff rk) W)" "koff rk + klen rk \<le> sent"
    using e(1,2) l r m by (simp_all add: min_def drop_take add.commute)
  ultimately show "flight_inv W A sent (insert (rk, ri) (insert (lk, li) {e \<in> F. fst e \<noteq> p \<and> fst e \<noteq> lk}))"
    using inv l(4) r(4) lr(2,3) unfolding flight_inv_def
    by (auto intro: flight_inv_disjoint[OF inv, of _ _ "(_, _)", unfolded fst_conv])
qed

section \<open>The invariant of a stream under the operations\<close>

abbreviation flight :: "StreamBuffer \<Rightarrow> (packetKey \<times> SendInfo) set" where
  "flight st \<equiv> set (lm_entries (dataInFlightMap st))"

definition stream_inv :: "bytes \<Rightarrow> nat set \<Rightarrow> StreamBuffer \<Rightarrow> bool" where
  "stream_inv W A st \<longleftrightarrow>
     flight_inv W A (unat (bytesSentOffset st)) (flight st) \<and>
     queuedData st = drop (unat (bytesSentOffset st)) W"

text \<open>The packet sizes for which the arithmetic on 16-bit lengths is exact.\<close>

definition mtu_ok :: "CryptoMsgType \<Rightarrow> int \<Rightarrow> bool" where
  "mtu_ok msgType mtu \<longleftrightarrow> msgType = InitSnd \<or> 119 \<le> mtu \<and> mtu \<le> 65535"

lemma maxData_range: "mtu_ok msgType mtu \<Longrightarrow> \<exists>n \<le> 65535. maxData msgType ack mtu offset = int n"
  using calcCryptoOverhead_range[of msgType ack offset]
  by (intro exI[of _ "nat (maxData msgType ack mtu offset)"]) (auto simp: mtu_ok_def maxData_def)

lemma stream_inv_new: "stream_inv [] {} NewStreamBuffer"
  by (simp add: stream_inv_def NewStreamBuffer_def flight_inv_new)

lemma stream_inv_sent:
  assumes "stream_inv W A st"
  shows "unat (bytesSentOffset st) < 2 ^ 48" "length W < 2 ^ 48" "unat (bytesSentOffset st) \<le> length W"
    "length (queuedData st) = length W - unat (bytesSentOffset st)"
  using assms by (auto simp: stream_inv_def flight_inv_def)

text \<open>An empty packet, a ping or a close, at the send offset.\<close>

lemma stream_inv_empty_packet:
  assumes inv: "stream_inv W A st"
  shows "stream_inv W A (st\<lparr>dataInFlightMap := lm_put (dataInFlightMap st)
    (createPacketKey (bytesSentOffset st) 0) (newSendInfo [] now ping)\<rparr>)"
proof -
  note s = stream_inv_sent[OF inv]
  have "flight_inv W A (unat (bytesSentOffset st))
    (insert (createPacketKey (bytesSentOffset st) 0, newSendInfo [] now ping)
      {e \<in> flight st. fst e \<noteq> createPacketKey (bytesSentOffset st) 0})"
    using inv s(1) by (intro flight_inv_put) (simp_all add: stream_inv_def newSendInfo_def)
  then show ?thesis using inv by (simp add: stream_inv_def set_al_put)
qed

text \<open>The data packet of \<^verbatim>\<open>ReadyToSend\<close>: its length, its key, and the stream after it.\<close>

lemma ReadyToSend_packet:
  fixes space q :: nat and len :: u64
  assumes "space \<le> 65535" and "q < 2 ^ 48" and "len = min (word_of_int (int space)) (word_of_nat q)"
  shows "unat len = min space q" "unat (ucast len :: u16) = min space q"
proof -
  have "unat (word_of_nat space :: u64) = space" "unat (word_of_nat q :: u64) = q"
    using assms(1,2) by (simp_all add: unat_of_nat_small)
  then show l: "unat len = min space q"
    unfolding assms(3) by (auto simp: min_def word_le_nat_alt)
  have "min space q < 2 ^ 16" using assms(1) by simp
  then show "unat (ucast len :: u16) = min space q"
    using l by (simp add: take_bit_nat_eq_self unsigned_ucast_eq)
qed

lemma stream_inv_data_packet:
  assumes inv: "stream_inv W A st" and space: "space \<le> 65535"
    and len: "len = min (word_of_int (int space)) (word_of_nat (length (queuedData st)) :: u64)"
    and k: "k = createPacketKey (bytesSentOffset st) (ucast len)"
  shows "stream_inv W A (st\<lparr>
      dataInFlightMap := lm_put (dataInFlightMap st) k (newSendInfo (take (unat len) (queuedData st)) now False),
      queuedData := drop (unat len) (queuedData st), bytesSentOffset := bytesSentOffset st + len\<rparr>)"
    and "packetKey_offset k = bytesSentOffset st" "klen k = unat len"
    and "take (unat len) (queuedData st) = take (unat len) (drop (unat (bytesSentOffset st)) W)"
    and "length (take (unat len) (queuedData st)) = unat len"
proof -
  note s = stream_inv_sent[OF inv]
  let ?l = "unat len" and ?sent = "unat (bytesSentOffset st)"
  have "length (queuedData st) < 2 ^ 48" using s by simp
  note l = ReadyToSend_packet[OF space this len]
  show k': "packetKey_offset k = bytesSentOffset st" "klen k = ?l" using s(1) l by (simp_all add: k)
  have q: "queuedData st = drop ?sent W" using inv by (simp add: stream_inv_def)
  show d: "take ?l (queuedData st) = take ?l (drop ?sent W)" by (simp add: q)
  show "length (take ?l (queuedData st)) = ?l" using l(1) by simp
  have end_le: "?sent + ?l \<le> length W" using s l(1) by simp
  then have sum: "unat (bytesSentOffset st + len) = ?sent + ?l"
    using s(2) by (intro unat_add_small) simp
  have "flight_inv W A (?sent + klen k)
      (insert (k, newSendInfo (take ?l (queuedData st)) now False) {e \<in> flight st. fst e \<noteq> k})"
    using inv k' end_le d by (intro flight_inv_send) (simp_all add: stream_inv_def newSendInfo_def)
  then show "stream_inv W A (st\<lparr>
      dataInFlightMap := lm_put (dataInFlightMap st) k (newSendInfo (take ?l (queuedData st)) now False),
      queuedData := drop ?l (queuedData st), bytesSentOffset := bytesSentOffset st + len\<rparr>)"
    using k'(2) by (simp add: stream_inv_def set_al_put sum q add.commute[of ?l ?sent])
qed

lemma snd_put_stream_same: "snd_streams sb sid = Some st \<Longrightarrow> snd_put_stream sb sid st = sb"
  by (cases sb) (simp add: snd_put_stream_def fun_upd_idem)

text \<open>
  \<^verbatim>\<open>ReadyToSend\<close> as a whole: it changes its stream only, keeps the invariant, and what it
  returns is the slice of the accepted bytes at the offset it returns.
\<close>

lemma ReadyToSend_inv:
  assumes inv: "stream_inv W A st" and st: "snd_streams sb sid = Some st" and mtu: "mtu_ok msgType mtu"
    and run: "SendBuffer_ReadyToSend sb sid msgType ack mtu now = ((d, off, cl), sb')"
  obtains st' where "sb' = snd_put_stream sb sid st'" "stream_inv W A st'"
    "\<And>b. d = Some b \<Longrightarrow> b = take (length b) (drop (unat off) W) \<and> unat off + length b \<le> unat (bytesSentOffset st')"
proof -
  note s = stream_inv_sent[OF inv]
  consider (ping) "pingRequest st" | (idle) "\<not> pingRequest st" "queuedData st = []"
      "case snd_closeAtOffset st of None \<Rightarrow> True | Some c \<Rightarrow> bytesSentOffset st < c"
    | (close) "\<not> pingRequest st" "queuedData st = []"
      "\<not> (case snd_closeAtOffset st of None \<Rightarrow> True | Some c \<Rightarrow> bytesSentOffset st < c)"
    | (data) "\<not> pingRequest st" "queuedData st \<noteq> []" by blast
  then show thesis
  proof cases
    case ping
    have "stream_inv W A (st\<lparr>pingRequest := False\<rparr>)" using inv by (simp add: stream_inv_def)
    from stream_inv_empty_packet[OF this, of now True] show thesis
      using ping st run by (intro that) (auto simp: SendBuffer_ReadyToSend_def Let_def)
  next
    case idle
    then show thesis
      using st run inv by (intro that[of st]) (auto simp: SendBuffer_ReadyToSend_def snd_put_stream_same)
  next
    case close
    from stream_inv_empty_packet[OF inv, of now False] show thesis
      using close st run s by (intro that) (auto simp: SendBuffer_ReadyToSend_def Let_def)
  next
    case data
    obtain n where n: "n \<le> 65535" "maxData msgType ack mtu (bytesSentOffset st) = int n"
      using maxData_range[OF mtu] by blast
    define len where "len = min (word_of_int (int n)) (word_of_nat (length (queuedData st)) :: u64)"
    note p = stream_inv_data_packet[OF inv n(1) len_def refl]
    have "unat (bytesSentOffset st) + unat len \<le> length W" using p(5) s by simp
    then have sum: "unat (bytesSentOffset st + len) = unat (bytesSentOffset st) + unat len"
      using s(2) by (intro unat_add_small) simp
    have r: "d = Some (take (unat len) (queuedData st))" "off = bytesSentOffset st"
      "sb' = snd_put_stream sb sid (st\<lparr>
        dataInFlightMap := lm_put (dataInFlightMap st) (createPacketKey (bytesSentOffset st) (ucast len))
          (newSendInfo (take (unat len) (queuedData st)) now False),
        queuedData := drop (unat len) (queuedData st), bytesSentOffset := bytesSentOffset st + len\<rparr>)"
      using run st data n(2) p(2) unfolding len_def
      by (simp_all add: SendBuffer_ReadyToSend_def Let_def)
    show thesis
    proof (rule that[OF r(3) p(1)])
      fix b
      assume "d = Some b"
      then have b: "b = take (unat len) (queuedData st)" using r(1) by simp
      then have "length b = unat len" using p(5) by simp
      then show "b = take (length b) (drop (unat off) W) \<and> unat off + length b \<le> unat (bytesSentOffset (st\<lparr>
        dataInFlightMap := lm_put (dataInFlightMap st) (createPacketKey (bytesSentOffset st) (ucast len))
          (newSendInfo (take (unat len) (queuedData st)) now False),
        queuedData := drop (unat len) (queuedData st), bytesSentOffset := bytesSentOffset st + len\<rparr>))"
        using b p(4) sum r(2) by simp
    qed
  qed
qed

text \<open>Retransmission of the oldest packet, whole or split.\<close>

lemma set_al_replace:
  assumes "distinct (map fst es)" and "k \<in> fst ` set es" and "k' = k \<or> k' \<notin> fst ` set es"
  shows "set (al_replace k k' v es) = insert (k', v) {e \<in> set es. fst e \<noteq> k}"
  using assms by (force simp: al_replace_def)

lemma lm_first_Some:
  assumes "lm_first m = (k, Some i, True)"
  shows "(k, i) \<in> set (lm_entries m)"
  using assms by (cases "lm_entries m") (auto simp: entry_result_def)

lemma split_keys:
  assumes inv: "flight_inv W A sent F" and p: "(p, i) \<in> F" and n: "n < klen p"
    and lk: "lk = createPacketKey (packetKey_offset p) (word_of_nat n)"
    and rk: "rk = createPacketKey (packetKey_offset p + word_of_nat n) (word_of_nat (length (drop n (si_data i))))"
  shows "koff lk = koff p" "klen lk = n" "koff rk = koff p + n" "klen rk = klen p - n"
proof -
  note e = flight_inv_entry[OF inv p]
  have lp: "klen p < 2 ^ 16" using unsigned_less[of "packetKey_length p", where 'a = nat] by simp
  have op: "koff p + klen p < 2 ^ 48" using e(1,6) inv by (simp add: flight_inv_def)
  have w: "unat (word_of_nat n :: u16) = n" "unat (word_of_nat n :: u64) = n"
    using n lp by (simp_all add: unat_of_nat_small)
  have o: "unat (packetKey_offset p + word_of_nat n) = koff p + n"
    using w(2) op n by (subst unat_add_small) simp_all
  show "koff lk = koff p" "klen lk = n" using koff_less w by (simp_all add: lk)
  show "koff rk = koff p + n" using o op n by (simp add: rk)
  show "klen rk = klen p - n" using e(3) lp by (simp add: rk unat_of_nat_small)
qed

lemma stream_inv_split:
  assumes inv: "stream_inv W A st" and p: "(p, i) \<in> flight st" "\<not> si_pingRequest i" and n: "n < klen p"
    and keys: "lk = createPacketKey (packetKey_offset p) (word_of_nat n)"
      "rk = createPacketKey (packetKey_offset p + word_of_nat n) (word_of_nat (length (drop n (si_data i))))"
    and li: "si_data li = take n (si_data i)" "\<not> si_pingRequest li"
    and m: "m = lm_put (dataInFlightMap st) lk li"
  shows "stream_inv W A (st\<lparr>dataInFlightMap :=
    lm_replace (if lk = p then m else lm_put m p (i\<lparr>si_data := drop n (si_data i)\<rparr>)) p rk
      (i\<lparr>si_data := drop n (si_data i)\<rparr>)\<rparr>)"
proof -
  let ?r = "i\<lparr>si_data := drop n (si_data i)\<rparr>" and ?F = "flight st"
  have f: "flight_inv W A (unat (bytesSentOffset st)) ?F" using inv by (simp add: stream_inv_def)
  note sk = split_keys[OF f p(1) n keys]
  note sp = flight_inv_split[OF f p(1) n sk(1,2) li sk(3,4), of ?r, simplified, OF p(2)]
  let ?m2 = "lm_put m p ?r"
  have e2: "set (lm_entries ?m2) = insert (p, ?r) (insert (lk, li) {e \<in> ?F. fst e \<noteq> p \<and> fst e \<noteq> lk})"
    using sp(1) by (auto simp: m set_al_put)
  then have rk: "rk = p \<or> rk \<notin> fst ` set (lm_entries ?m2)" using sp(2,3) by auto
  have pk: "p \<in> fst ` set (lm_entries ?m2)" unfolding e2 by simp
  have "set (lm_entries (lm_replace ?m2 p rk ?r)) =
      insert (rk, ?r) {e \<in> set (lm_entries ?m2). fst e \<noteq> p}"
    unfolding lm_entries_replace by (rule set_al_replace[OF lm_distinct pk rk])
  also have "{e \<in> set (lm_entries ?m2). fst e \<noteq> p} = insert (lk, li) {e \<in> ?F. fst e \<noteq> p \<and> fst e \<noteq> lk}"
    unfolding e2 using sp(1) by auto
  finally show ?thesis using inv sp(1,4) by (simp add: stream_inv_def)
qed

text \<open>
  \<^verbatim>\<open>ReadyToRetransmit\<close> as a whole: no slice is out of range, the stream keeps the invariant,
  and what is sent again is again the slice of the accepted bytes at its offset.
\<close>

definition resend_ok :: "bytes \<Rightarrow> nat set \<Rightarrow> SendBuffer \<Rightarrow> u32 \<Rightarrow> ((bytes option \<times> u64 \<times> bool) \<times> SendBuffer) result \<Rightarrow> bool" where
  "resend_ok W A sb sid r \<longleftrightarrow>
     (\<exists>e. r = Inl (Err e)) \<or>
     (\<exists>d off cl st'. r = Inr ((d, off, cl), snd_put_stream sb sid st') \<and> stream_inv W A st' \<and>
        (\<forall>b. d = Some b \<longrightarrow> b = take (length b) (drop (unat off) W)))"

lemma resend_ok_nothing:
  "snd_streams sb sid = Some st \<Longrightarrow> stream_inv W A st \<Longrightarrow> resend_ok W A sb sid (Inr ((None, 0, False), sb))"
  unfolding resend_ok_def by (metis snd_put_stream_same option.distinct(1))

lemma resend_ok_stream:
  "stream_inv W A st' \<Longrightarrow> (\<And>b. d = Some b \<Longrightarrow> b = take (length b) (drop (unat off) W)) \<Longrightarrow>
   resend_ok W A sb sid (Inr ((d, off, cl), snd_put_stream sb sid st'))"
  unfolding resend_ok_def by blast

lemma stream_inv_drop_ping:
  assumes inv: "stream_inv W A st" and p: "(p, i) \<in> flight st" "si_pingRequest i"
  shows "stream_inv W A (st\<lparr>dataInFlightMap := lm_remove (dataInFlightMap st) p\<rparr>)"
proof -
  have f: "flight_inv W A (unat (bytesSentOffset st)) (flight st)" using inv by (simp add: stream_inv_def)
  have "klen p = 0" using flight_inv_entry(5)[OF f p(1)] p(2) .
  then show ?thesis
    using flight_inv_ack(1)[OF f p(1)] inv by (simp add: stream_inv_def set_al_remove)
qed

lemma stream_inv_resend:
  assumes inv: "stream_inv W A st" and p: "(p, i) \<in> flight st" and i': "si_data i' = si_data i" "\<not> si_pingRequest i'"
  shows "stream_inv W A (st\<lparr>dataInFlightMap := lm_put (dataInFlightMap st) p i'\<rparr>)"
proof -
  have f: "flight_inv W A (unat (bytesSentOffset st)) (flight st)" using inv by (simp add: stream_inv_def)
  note e = flight_inv_entry[OF f p]
  have "flight_inv W A (unat (bytesSentOffset st)) (insert (p, i') {e \<in> flight st. fst e \<noteq> p})"
    using p e i' by (intro flight_inv_put[OF f]) auto
  then show ?thesis using inv by (simp add: stream_inv_def set_al_put)
qed

lemma backoff_no_panic: "backoff rto n \<noteq> Inl (Panic s)"
  by (simp add: backoff_def)

lemma ReadyToRetransmit_inv:
  assumes inv: "stream_inv W A st" and st: "snd_streams sb sid = Some st" and mtu: "mtu_ok msgType mtu"
  shows "resend_ok W A sb sid (SendBuffer_ReadyToRetransmit sb sid ack mtu rto msgType now)"
proof (cases "\<exists>p i. lm_first (dataInFlightMap st) = (p, Some i, True)")
  case False
  then have "SendBuffer_ReadyToRetransmit sb sid ack mtu rto msgType now = Inr ((None, 0, False), sb)"
    using st by (auto simp: SendBuffer_ReadyToRetransmit_def entry_result_def split: list.splits option.splits)
  then show ?thesis using resend_ok_nothing[OF st inv] by simp
next
  case True
  then obtain p i where first: "lm_first (dataInFlightMap st) = (p, Some i, True)" by blast
  note pi = lm_first_Some[OF first]
  have f: "flight_inv W A (unat (bytesSentOffset st)) (flight st)" using inv by (simp add: stream_inv_def)
  note e = flight_inv_entry[OF f pi]
  note def = SendBuffer_ReadyToRetransmit_def[of sb sid ack mtu rto msgType now, unfolded st option.case first prod.case bool.case]
  obtain n where n: "n \<le> 65535" "maxData msgType ack mtu (packetKey_offset p) = int n"
    using maxData_range[OF mtu] by blast
  have lp: "klen p < 2 ^ 16" using unsigned_less[of "packetKey_length p", where 'a = nat] by simp
  have cmp: "(word_of_nat (length (si_data i)) :: u16) \<le> word_of_nat n \<longleftrightarrow> klen p \<le> n"
    using n(1) lp e(3) by (simp add: word_le_nat_alt unat_of_nat_small)
  show ?thesis
  proof (cases "backoff rto (si_sentNr i)")
    case (Inl err)
    then obtain s where "err = Err s" using backoff_no_panic by (cases err) blast+
    then show ?thesis using Inl by (simp add: def resend_ok_def)
  next
    case (Inr w)
    consider (early) "now - si_sentTimeNano i \<le> w" | (ping) "\<not> now - si_sentTimeNano i \<le> w" "si_pingRequest i"
      | (whole) "\<not> now - si_sentTimeNano i \<le> w" "\<not> si_pingRequest i" "klen p \<le> n"
      | (split) "\<not> now - si_sentTimeNano i \<le> w" "\<not> si_pingRequest i" "n < klen p" by linarith
    then show ?thesis
    proof cases
      case early
      then show ?thesis using Inr resend_ok_nothing[OF st inv] by (simp add: def)
    next
      case ping
      then show ?thesis
        using Inr by (auto simp: def intro!: resend_ok_stream stream_inv_drop_ping[OF inv pi])
    next
      case whole
      have "si_data i = take (length (si_data i)) (drop (koff p) W)" using e(2,3) by simp
      then show ?thesis
        using Inr whole
        by (auto simp: def Let_def n(2) cmp intro!: resend_ok_stream stream_inv_resend[OF inv pi])
    next
      case split
      have "take n (si_data i) = take (length (take n (si_data i))) (drop (koff p) W)"
        using e(2,3) split(3) by (simp add: min_def)
      moreover have "\<not> klen p \<le> n" "\<not> length (si_data i) < n" using e(3) split(3) by simp_all
      ultimately show ?thesis
        using Inr split(1,2)
        by (simp add: def Let_def n(2) cmp split del: if_split)
           (intro resend_ok_stream stream_inv_split[OF inv pi split(2,3)]; simp)
    qed
  qed
qed

section \<open>The buffer as a transition system\<close>

text \<open>
  The ghost components: per stream, the bytes accepted by \<^verbatim>\<open>QueueData\<close> and the positions whose
  acknowledgement was accepted.
\<close>

record snd_sys =
  sys_buf :: SendBuffer
  sys_written :: "u32 \<Rightarrow> bytes"
  sys_acked :: "u32 \<Rightarrow> nat set"

datatype snd_event =
    Queue_ev u32 bytes
  | Ping_ev u32
  | Send_ev u32 CryptoMsgType "Ack option" int u64
  | Retransmit_ev u32 "Ack option" int u64 CryptoMsgType u64
  | Ack_ev Ack
  | Close_ev u32

definition snd_init :: "int \<Rightarrow> snd_sys" where
  "snd_init capacity = \<lparr>sys_buf = NewSendBuffer capacity, sys_written = (\<lambda>_. []), sys_acked = (\<lambda>_. {})\<rparr>"

fun snd_step :: "snd_sys \<Rightarrow> snd_event \<Rightarrow> snd_sys option" where
  "snd_step s (Queue_ev sid d) =
     (case SendBuffer_QueueData (sys_buf s) sid d of
        None \<Rightarrow> None
      | Some ((n, _), sb) \<Rightarrow>
          Some (s\<lparr>sys_buf := sb,
                  sys_written := (sys_written s)(sid := sys_written s sid @ take (nat n) d)\<rparr>))"
| "snd_step s (Ping_ev sid) = Some (s\<lparr>sys_buf := SendBuffer_QueuePing (sys_buf s) sid\<rparr>)"
| "snd_step s (Send_ev sid msgType ack mtu now) =
     Some (s\<lparr>sys_buf := snd (SendBuffer_ReadyToSend (sys_buf s) sid msgType ack mtu now)\<rparr>)"
| "snd_step s (Retransmit_ev sid ack mtu rto msgType now) =
     (case SendBuffer_ReadyToRetransmit (sys_buf s) sid ack mtu rto msgType now of
        Inl (Panic _) \<Rightarrow> None
      | Inl (Err _) \<Rightarrow> Some s
      | Inr (_, sb) \<Rightarrow> Some (s\<lparr>sys_buf := sb\<rparr>))"
| "snd_step s (Ack_ev a) =
     (case SendBuffer_AcknowledgeRange (sys_buf s) a of
        ((status, _), sb) \<Rightarrow>
          Some (s\<lparr>sys_buf := sb,
                  sys_acked := (if status = AckStatusOk
                    then (sys_acked s)(ack_streamID a :=
                      sys_acked s (ack_streamID a) \<union> krange (createPacketKey (ack_offset a) (ack_len a)))
                    else sys_acked s)\<rparr>))"
| "snd_step s (Close_ev sid) = Some (s\<lparr>sys_buf := SendBuffer_Close (sys_buf s) sid\<rparr>)"

text \<open>
  The calls considered: fewer than \<open>2 ^ 48\<close> bytes on a stream, the limit of the wire format,
  and a packet size that leaves room for the headers and fits a datagram.
\<close>

fun snd_ok :: "snd_sys \<Rightarrow> snd_event \<Rightarrow> bool" where
  "snd_ok s (Queue_ev sid d) = (length (sys_written s sid) + length d < 2 ^ 48)"
| "snd_ok s (Send_ev sid msgType ack mtu now) = mtu_ok msgType mtu"
| "snd_ok s (Retransmit_ev sid ack mtu rto msgType now) = mtu_ok msgType mtu"
| "snd_ok s _ = True"

definition outstanding :: "snd_sys \<Rightarrow> u32 \<Rightarrow> int" where
  "outstanding s sid = int (length (sys_written s sid)) - int (card (sys_acked s sid))"

definition snd_inv :: "snd_sys \<Rightarrow> bool" where
  "snd_inv s \<longleftrightarrow>
     (\<forall>sid. stream_inv (sys_written s sid) (sys_acked s sid) (snd_getOrCreateStream (sys_buf s) sid)) \<and>
     snd_size (sys_buf s) = (\<Sum>sid \<in> UNIV. outstanding s sid) \<and>
     snd_size (sys_buf s) \<le> snd_capacity (sys_buf s)"

lemma getOrCreate_put [simp]:
  "snd_getOrCreateStream (snd_put_stream sb sid st) sid' = (if sid' = sid then st else snd_getOrCreateStream sb sid')"
  "snd_getOrCreateStream (sb\<lparr>snd_size := z\<rparr>) sid' = snd_getOrCreateStream sb sid'"
  "snd_capacity (snd_put_stream sb sid st) = snd_capacity sb" "snd_size (snd_put_stream sb sid st) = snd_size sb"
  by (simp_all add: snd_getOrCreateStream_def snd_put_stream_def)

text \<open>One stream changes, and the size with it.\<close>

lemma snd_inv_change:
  assumes inv: "snd_inv s" and st: "stream_inv W A st"
    and size: "z = snd_size (sys_buf s) - outstanding s sid + (int (length W) - int (card A))"
      "z \<le> snd_capacity (sys_buf s)"
  shows "snd_inv (s\<lparr>sys_buf := (snd_put_stream (sys_buf s) sid st)\<lparr>snd_size := z\<rparr>,
    sys_written := (sys_written s)(sid := W), sys_acked := (sys_acked s)(sid := A)\<rparr>)" (is "snd_inv ?s")
proof -
  have "(\<Sum>x \<in> UNIV. outstanding ?s x) = (\<Sum>x \<in> UNIV. outstanding s x) - outstanding s sid + outstanding ?s sid"
    by (rule sum_change_one) (simp add: outstanding_def)
  then have "z = (\<Sum>x \<in> UNIV. outstanding ?s x)"
    using inv size(1) by (simp add: snd_inv_def outstanding_def)
  with inv st size(2) show ?thesis by (simp add: snd_inv_def)
qed

lemma snd_inv_same_bytes:
  assumes inv: "snd_inv s" and st: "stream_inv (sys_written s sid) (sys_acked s sid) st"
  shows "snd_inv (s\<lparr>sys_buf := snd_put_stream (sys_buf s) sid st\<rparr>)"
proof -
  have "snd_inv (s\<lparr>sys_buf := (snd_put_stream (sys_buf s) sid st)\<lparr>snd_size := snd_size (sys_buf s)\<rparr>,
    sys_written := (sys_written s)(sid := sys_written s sid), sys_acked := (sys_acked s)(sid := sys_acked s sid)\<rparr>)"
    using inv by (intro snd_inv_change[OF inv st]) (simp_all add: outstanding_def snd_inv_def)
  moreover have "s\<lparr>sys_buf := (snd_put_stream (sys_buf s) sid st)\<lparr>snd_size := snd_size (sys_buf s)\<rparr>,
    sys_written := (sys_written s)(sid := sys_written s sid), sys_acked := (sys_acked s)(sid := sys_acked s sid)\<rparr> =
    s\<lparr>sys_buf := snd_put_stream (sys_buf s) sid st\<rparr>"
    by (cases s; cases "sys_buf s") (simp add: snd_put_stream_def fun_upd_triv)
  ultimately show ?thesis by (simp only:)
qed

lemma stream_inv_stream: "snd_inv s \<Longrightarrow> stream_inv (sys_written s sid) (sys_acked s sid) (snd_getOrCreateStream (sys_buf s) sid)"
  by (simp add: snd_inv_def)

lemma getOrCreate_Some: "snd_streams sb sid = Some st \<Longrightarrow> snd_getOrCreateStream sb sid = st"
  by (simp add: snd_getOrCreateStream_def)

text \<open>
  \<^verbatim>\<open>QueueData\<close> in full: how many bytes it takes, and its status.
\<close>

lemma QueueData_eq:
  fixes d :: bytes
  assumes "snd_size sb \<le> snd_capacity sb"
  defines "n \<equiv> min (snd_capacity sb - snd_size sb) (int (length d))"
  shows "SendBuffer_QueueData sb sid d =
    (if d = [] then Some ((0, InsertStatusNoData), sb)
     else if n = 0 then Some ((0, InsertStatusSndFull), sb)
     else Some ((n, if n = int (length d) then InsertStatusOk else InsertStatusSndFull),
       (snd_put_stream sb sid ((snd_getOrCreateStream sb sid)\<lparr>queuedData :=
          queuedData (snd_getOrCreateStream sb sid) @ take (nat n) d\<rparr>))\<lparr>snd_size := snd_size sb + n\<rparr>))"
  using assms(1) by (auto simp: SendBuffer_QueueData_def n_def Let_def min_def)

lemma stream_inv_queue:
  assumes "stream_inv W A st" and "length (W @ c) < 2 ^ 48"
  shows "stream_inv (W @ c) A (st\<lparr>queuedData := queuedData st @ c\<rparr>)"
  using assms flight_inv_append[of W A _ _ c] stream_inv_sent(3)[OF assms(1)] by (simp add: stream_inv_def)

lemma snd_inv_queue:
  assumes inv: "snd_inv s" and ok: "length (sys_written s sid) + length d < 2 ^ 48"
  shows "\<exists>s'. snd_step s (Queue_ev sid d) = Some s' \<and> snd_inv s'"
proof -
  let ?sb = "sys_buf s"
  have le: "snd_size ?sb \<le> snd_capacity ?sb" using inv by (simp add: snd_inv_def)
  define n where "n = min (snd_capacity ?sb - snd_size ?sb) (int (length d))"
  have n: "0 \<le> n" "n \<le> int (length d)" "n \<le> snd_capacity ?sb - snd_size ?sb" using le by (simp_all add: n_def)
  have same: "s\<lparr>sys_buf := ?sb, sys_written := (sys_written s)(sid := sys_written s sid)\<rparr> = s"
    by (cases s) simp
  have "snd_inv (s\<lparr>sys_buf := (snd_put_stream ?sb sid ((snd_getOrCreateStream ?sb sid)\<lparr>queuedData :=
          queuedData (snd_getOrCreateStream ?sb sid) @ take (nat n) d\<rparr>))\<lparr>snd_size := snd_size ?sb + n\<rparr>,
      sys_written := (sys_written s)(sid := sys_written s sid @ take (nat n) d),
      sys_acked := (sys_acked s)(sid := sys_acked s sid)\<rparr>)"
    using n ok by (intro snd_inv_change[OF inv] stream_inv_queue stream_inv_stream[OF inv])
      (simp_all add: outstanding_def)
  then show ?thesis
    using QueueData_eq[OF le, of sid d, folded n_def] inv same by (auto simp: n_def)
qed

lemma snd_inv_ack:
  assumes inv: "snd_inv s"
  shows "\<exists>s'. snd_step s (Ack_ev a) = Some s' \<and> snd_inv s'"
proof -
  let ?sb = "sys_buf s" and ?sid = "ack_streamID a" and ?k = "createPacketKey (ack_offset a) (ack_len a)"
  have same: "s\<lparr>sys_buf := ?sb, sys_acked := sys_acked s\<rparr> = s" by (cases s) simp
  show ?thesis
  proof (cases "snd_streams ?sb ?sid")
    case None
    then show ?thesis using inv same by (simp add: SendBuffer_AcknowledgeRange_def)
  next
    case (Some st)
    note si = stream_inv_stream[OF inv, of ?sid, unfolded getOrCreate_Some[OF Some]]
    show ?thesis
    proof (cases "lm_get (dataInFlightMap st) ?k")
      case None
      then show ?thesis using inv same Some by (simp add: SendBuffer_AcknowledgeRange_def)
    next
      case k: (Some i)
      then have e: "(?k, i) \<in> flight st" by (simp only: lmc.get_iff)
      have f: "flight_inv (sys_written s ?sid) (sys_acked s ?sid) (unat (bytesSentOffset st)) (flight st)"
        using si by (simp add: stream_inv_def)
      note fa = flight_inv_ack[OF f e]
      have "snd_inv (s\<lparr>sys_buf := (snd_put_stream ?sb ?sid
            (st\<lparr>dataInFlightMap := lm_remove (dataInFlightMap st) ?k\<rparr>))
            \<lparr>snd_size := snd_size ?sb - int (length (si_data i))\<rparr>,
          sys_written := (sys_written s)(?sid := sys_written s ?sid),
          sys_acked := (sys_acked s)(?sid := sys_acked s ?sid \<union> krange ?k)\<rparr>)"
      proof (rule snd_inv_change[OF inv])
        show "stream_inv (sys_written s ?sid) (sys_acked s ?sid \<union> krange ?k)
            (st\<lparr>dataInFlightMap := lm_remove (dataInFlightMap st) ?k\<rparr>)"
          using si fa(1) by (simp add: stream_inv_def set_al_remove)
        show "snd_size ?sb - int (length (si_data i)) = snd_size ?sb - outstanding s ?sid +
            (int (length (sys_written s ?sid)) - int (card (sys_acked s ?sid \<union> krange ?k)))"
          using fa(2) flight_inv_entry(3)[OF f e] by (simp add: outstanding_def)
        show "snd_size ?sb - int (length (si_data i)) \<le> snd_capacity ?sb"
          using inv unfolding snd_inv_def by linarith
      qed
      then show ?thesis using Some k by (simp add: SendBuffer_AcknowledgeRange_def Let_def del: lm_reads)
    qed
  qed
qed

lemma snd_inv_step:
  assumes inv: "snd_inv s" and ok: "snd_ok s e"
  shows "\<exists>s'. snd_step s e = Some s' \<and> snd_inv s'"
proof (cases e)
  case (Queue_ev sid d)
  then show ?thesis using snd_inv_queue[OF inv] ok by simp
next
  case (Ping_ev sid)
  then show ?thesis
    using snd_inv_same_bytes[OF inv, of sid] stream_inv_stream[OF inv, of sid]
    by (simp add: SendBuffer_QueuePing_def stream_inv_def)
next
  case (Send_ev sid msgType ack mtu now)
  let ?r = "SendBuffer_ReadyToSend (sys_buf s) sid msgType ack mtu now"
  show ?thesis
  proof (cases "snd_streams (sys_buf s) sid")
    case None
    then have "snd ?r = sys_buf s" by (simp add: SendBuffer_ReadyToSend_def)
    then show ?thesis using inv Send_ev by (cases s) simp
  next
    case (Some st)
    obtain d off cl sb' where r: "?r = ((d, off, cl), sb')" by (metis prod.exhaust)
    obtain st' where "sb' = snd_put_stream (sys_buf s) sid st'" "stream_inv (sys_written s sid) (sys_acked s sid) st'"
      using ReadyToSend_inv[OF stream_inv_stream[OF inv, of sid, unfolded getOrCreate_Some[OF Some]] Some _ r] ok Send_ev
      by auto
    then show ?thesis using Send_ev r snd_inv_same_bytes[OF inv, of sid st'] by simp
  qed
next
  case (Retransmit_ev sid ack mtu rto msgType now)
  show ?thesis
  proof (cases "snd_streams (sys_buf s) sid")
    case None
    then show ?thesis using inv Retransmit_ev by (cases s) (simp add: SendBuffer_ReadyToRetransmit_def)
  next
    case (Some st)
    have "resend_ok (sys_written s sid) (sys_acked s sid) (sys_buf s) sid
        (SendBuffer_ReadyToRetransmit (sys_buf s) sid ack mtu rto msgType now)"
      using ReadyToRetransmit_inv[OF stream_inv_stream[OF inv, of sid, unfolded getOrCreate_Some[OF Some]] Some] ok Retransmit_ev
      by simp
    then show ?thesis
      using Retransmit_ev inv snd_inv_same_bytes[OF inv, of sid] by (auto simp: resend_ok_def)
  qed
next
  case (Ack_ev a)
  then show ?thesis using snd_inv_ack[OF inv] by simp
next
  case (Close_ev sid)
  then show ?thesis
    using snd_inv_same_bytes[OF inv, of sid] stream_inv_stream[OF inv, of sid]
    by (simp add: SendBuffer_Close_def Let_def stream_inv_def)
qed

lemma snd_inv_init: "0 \<le> capacity \<Longrightarrow> snd_inv (snd_init capacity)"
  using stream_inv_new
  by (simp add: snd_inv_def snd_init_def NewSendBuffer_def snd_getOrCreateStream_def outstanding_def)

interpretation snds: safe_system "snd_init (int c)" snd_step snd_ok snd_inv for c
  by unfold_locales (simp_all add: snd_inv_init snd_inv_step)

definition snd_reachable :: "nat \<Rightarrow> snd_sys \<Rightarrow> bool" where
  "snd_reachable c = reachable (snd_init (int c)) (guarded snd_ok snd_step)"

lemma snd_reachable_inv: "snd_reachable c s \<Longrightarrow> snd_inv s"
  unfolding snd_reachable_def by (rule snds.reachable_inv)

lemma snd_reachable_run: "run (guarded snd_ok snd_step) (snd_init (int c)) es = Some s \<Longrightarrow> snd_reachable c s"
  unfolding snd_reachable_def by (rule run_reachable[OF reachable_init])

lemma snd_step_capacity: "snd_step s e = Some s' \<Longrightarrow> snd_capacity (sys_buf s') = snd_capacity (sys_buf s)"
  by (cases e) (auto simp: SendBuffer_QueueData_def SendBuffer_QueuePing_def SendBuffer_ReadyToSend_def
      SendBuffer_ReadyToRetransmit_def SendBuffer_AcknowledgeRange_def SendBuffer_Close_def Let_def
      snd_put_stream_def and_then_def bind_eq_Some_conv
      split: option.splits sum.splits if_splits go_error.splits prod.splits bool.splits)

lemma snd_reachable_capacity:
  assumes "snd_reachable c s"
  shows "snd_capacity (sys_buf s) = int c"
  using assms unfolding snd_reachable_def
proof (induction rule: reachable.induct)
  case reachable_init
  show ?case by (simp add: snd_init_def NewSendBuffer_def)
next
  case (reachable_step s e s')
  then show ?case using snd_step_capacity[of s e s'] by (auto simp: guarded_def split: if_splits)
qed

text \<open>The bytes a stream holds: queued and in flight.\<close>

definition stream_bytes :: "StreamBuffer \<Rightarrow> nat" where
  "stream_bytes st = length (queuedData st) + (\<Sum>e \<leftarrow> lm_entries (dataInFlightMap st). length (si_data (snd e)))"

lemma stream_bytes_outstanding:
  assumes inv: "stream_inv W A st"
  shows "int (stream_bytes st) = int (length W) - int (card A)"
proof -
  let ?sent = "unat (bytesSentOffset st)" and ?F = "flight st"
  have f: "flight_inv W A ?sent ?F" using inv by (simp add: stream_inv_def)
  let ?U = "\<Union>e \<in> ?F. krange (fst e)"
  have cover: "A \<union> ?U = {..<?sent}" and "A \<inter> ?U = {}"
    using f by (auto simp: flight_inv_def disjnt_def)
  have fin: "finite A" by (rule finite_subset[of _ "{..<?sent}"]) (use cover in auto)
  have "card A + card ?U = ?sent"
    using card_Un_disjoint[of A ?U] fin \<open>A \<inter> ?U = {}\<close> cover by (simp add: krange_def)
  moreover have "card ?U = (\<Sum>e \<in> ?F. klen (fst e))"
  proof (subst card_UN_disjoint)
    show "\<forall>e \<in> ?F. \<forall>e' \<in> ?F. e \<noteq> e' \<longrightarrow> krange (fst e) \<inter> krange (fst e') = {}"
    proof (intro ballI impI)
      fix e e'
      assume e: "e \<in> ?F" "e' \<in> ?F" "e \<noteq> e'"
      then have "fst e' \<noteq> fst e"
        using lm_distinct[of "dataInFlightMap st"] by (metis eq_key_imp_eq_value prod.collapse)
      then show "krange (fst e) \<inter> krange (fst e') = {}"
        using flight_inv_disjoint[OF f, of "fst e" "snd e" e'] e by (simp add: disjnt_def)
    qed
  qed (simp_all add: krange_def)
  moreover have "(\<Sum>e \<in> ?F. klen (fst e)) = (\<Sum>e \<in> ?F. length (si_data (snd e)))"
    using flight_inv_entry(3)[OF f] by (intro sum.cong) auto
  moreover have "(\<Sum>e \<leftarrow> lm_entries (dataInFlightMap st). length (si_data (snd e))) = (\<Sum>e \<in> ?F. length (si_data (snd e)))"
    by (rule lmc.total_set)
  ultimately have "stream_bytes st + card A = length W"
    using stream_inv_sent[OF inv] by (simp add: stream_bytes_def)
  then show ?thesis by linarith
qed

section \<open>Properties\<close>

text \<open>
  C19: After any sequence of calls the size counter of the send buffer is the number of bytes
  queued and in flight over all streams, and it never exceeds the capacity.
\<close>
theorem send_size_accounting:
  assumes "snd_reachable c s"
  shows "snd_size (sys_buf s) =
      (\<Sum>sid \<in> UNIV. case snd_streams (sys_buf s) sid of None \<Rightarrow> 0 | Some st \<Rightarrow> int (stream_bytes st)) \<and>
    snd_size (sys_buf s) \<le> int c"
proof -
  have inv: "snd_inv s" using assms by (rule snd_reachable_inv)
  have "outstanding s sid = (case snd_streams (sys_buf s) sid of None \<Rightarrow> 0 | Some st \<Rightarrow> int (stream_bytes st))" for sid
    using stream_bytes_outstanding[OF stream_inv_stream[OF inv, of sid]]
    by (auto simp: outstanding_def snd_getOrCreateStream_def NewStreamBuffer_def stream_bytes_def split: option.splits)
  moreover have "snd_capacity (sys_buf s) = int c"
    using assms by (rule snd_reachable_capacity)
  ultimately show ?thesis using inv by (simp add: snd_inv_def)
qed

text \<open>Two reachable states: three bytes queued, and the same bytes in flight in one packet.\<close>

definition demo_stream :: StreamBuffer where
  "demo_stream = \<lparr>dataInFlightMap = lm_new, queuedData = [7, 8, 9], bytesSentOffset = 0,
     pingRequest = False, snd_closeAtOffset = None\<rparr>"

definition demo_queued :: snd_sys where
  "demo_queued = \<lparr>sys_buf = \<lparr>snd_streams = [1 \<mapsto> demo_stream], snd_capacity = 100, snd_size = 3\<rparr>,
     sys_written = (\<lambda>_. [])(1 := [7, 8, 9]), sys_acked = (\<lambda>_. {})\<rparr>"

definition demo_sent_stream :: StreamBuffer where
  "demo_sent_stream = \<lparr>dataInFlightMap = lm_put lm_new 3 (newSendInfo [7, 8, 9] 5 False), queuedData = [],
     bytesSentOffset = 3, pingRequest = False, snd_closeAtOffset = None\<rparr>"

definition demo_sent :: snd_sys where
  "demo_sent = \<lparr>sys_buf = \<lparr>snd_streams = [1 \<mapsto> demo_sent_stream], snd_capacity = 100, snd_size = 3\<rparr>,
     sys_written = (\<lambda>_. [])(1 := [7, 8, 9]), sys_acked = (\<lambda>_. {})\<rparr>"

lemmas demo_defs = demo_stream_def demo_queued_def demo_sent_stream_def demo_sent_def

lemmas snd_eval = SendBuffer_QueueData_def SendBuffer_ReadyToSend_def SendBuffer_ReadyToRetransmit_def
  snd_put_stream_def snd_getOrCreateStream_def NewStreamBuffer_def newSendInfo_def mtu_ok_def maxData_def
  calcCryptoOverheadWithData_def calcProtoOverhead_def crypto_consts createPacketKey_def packetKey_offset_def
  Let_def

lemma demo_queued_reachable: "snd_reachable 100 demo_queued"
  by (rule snd_reachable_run[of _ "[Queue_ev 1 [7, 8, 9]]"])
     (simp add: guarded_def snd_init_def NewSendBuffer_def snd_eval demo_defs)

lemma demo_sent_reachable: "snd_reachable 100 demo_sent"
  by (rule snd_reachable_run[of _ "[Queue_ev 1 [7, 8, 9], Send_ev 1 Data None 1400 5]"])
     (simp add: guarded_def snd_init_def NewSendBuffer_def snd_eval demo_defs)

theorem send_size_accounting_witness: "snd_size (sys_buf demo_sent) \<le> 100"
  using send_size_accounting[OF demo_sent_reachable] by simp

text \<open>
  C13: No byte is lost or duplicated on the sending side: after any sequence of calls, what a
  stream has not yet sent is still queued, in order, and every position below the send
  offset is either acknowledged or in exactly one packet in flight, never both.
\<close>
theorem send_no_byte_lost:
  assumes "snd_reachable c s" and "snd_streams (sys_buf s) sid = Some st"
  shows "queuedData st = drop (unat (bytesSentOffset st)) (sys_written s sid) \<and>
    sys_acked s sid \<subseteq> {..<unat (bytesSentOffset st)} \<and>
    (\<forall>x < unat (bytesSentOffset st).
       (x \<in> sys_acked s sid) \<noteq> (\<exists>!k. k \<in> fst ` flight st \<and> x \<in> krange k))"
proof -
  have "stream_inv (sys_written s sid) (sys_acked s sid) st"
    using stream_inv_stream[OF snd_reachable_inv[OF assms(1)], of sid] assms(2) by (simp add: getOrCreate_Some)
  then have f: "flight_inv (sys_written s sid) (sys_acked s sid) (unat (bytesSentOffset st)) (flight st)"
    and q: "queuedData st = drop (unat (bytesSentOffset st)) (sys_written s sid)"
    by (auto simp: stream_inv_def)
  have "(x \<in> sys_acked s sid) \<noteq> (\<exists>!k. k \<in> fst ` flight st \<and> x \<in> krange k)"
    if x: "x < unat (bytesSentOffset st)" for x
  proof (cases "x \<in> sys_acked s sid")
    case True
    then have "x \<notin> krange (fst e)" if "e \<in> flight st" for e
      using flight_inv_entry(4)[OF f, of "fst e" "snd e"] that by (auto simp: disjnt_def)
    with True show ?thesis by auto
  next
    case False
    have "x \<in> sys_acked s sid \<union> (\<Union>e \<in> flight st. krange (fst e))"
      using f x by (simp add: flight_inv_def)
    with False obtain k i where k: "(k, i) \<in> flight st" "x \<in> krange k" by auto
    have uniq: "k' = k" if "k' \<in> fst ` flight st" "x \<in> krange k'" for k'
      using flight_inv_disjoint[OF f k(1)] k(2) that by (auto simp: disjnt_def)
    have "k \<in> fst ` flight st" using k(1) by force
    with k(2) have "k \<in> fst ` flight st \<and> x \<in> krange k" by (rule conjI[rotated])
    then have "\<exists>!k. k \<in> fst ` flight st \<and> x \<in> krange k"
      by (rule ex1I) (elim conjE, rule uniq)
    with False show ?thesis by simp
  qed
  with q f show ?thesis by (auto simp: flight_inv_def)
qed

theorem send_no_byte_lost_witness:
  "(2 \<in> sys_acked demo_sent 1) \<noteq> (\<exists>!k. k \<in> fst ` flight demo_sent_stream \<and> 2 \<in> krange k)"
  using send_no_byte_lost[OF demo_sent_reachable, of 1 demo_sent_stream] by (simp add: demo_defs)

text \<open>
  C17: A packet made by \<^verbatim>\<open>ReadyToSend\<close> carries exactly the bytes the application wrote at the
  offset it reports, and these are below the send offset afterwards.
\<close>
theorem send_content:
  assumes "snd_reachable c s" and "mtu_ok msgType mtu"
    and "SendBuffer_ReadyToSend (sys_buf s) sid msgType ack mtu now = ((Some b, off, cl), sb')"
  shows "b = take (length b) (drop (unat off) (sys_written s sid)) \<and>
    (\<exists>st'. snd_streams sb' sid = Some st' \<and> unat off + length b \<le> unat (bytesSentOffset st'))"
proof -
  obtain st where st: "snd_streams (sys_buf s) sid = Some st"
    using assms(3) by (cases "snd_streams (sys_buf s) sid") (auto simp: SendBuffer_ReadyToSend_def)
  note inv = stream_inv_stream[OF snd_reachable_inv[OF assms(1)], of sid, unfolded getOrCreate_Some[OF st]]
  from ReadyToSend_inv[OF inv st assms(2,3)] obtain st' where "sb' = snd_put_stream (sys_buf s) sid st'"
    "b = take (length b) (drop (unat off) (sys_written s sid))" "unat off + length b \<le> unat (bytesSentOffset st')"
    by blast
  then show ?thesis by (simp add: snd_put_stream_def)
qed

theorem send_content_witness: "[7, 8, 9] = take 3 (drop 0 (sys_written demo_queued 1))"
  using send_content[OF demo_queued_reachable, of Data 1400 1 None 5 "[7, 8, 9]" 0 False "sys_buf demo_sent"]
  by (simp add: snd_eval demo_defs)

text \<open>
  C18: Retransmission never panics, and what it sends again, whole or as the left part of a
  packet split for a smaller size, is exactly the bytes the application wrote at that offset.
\<close>
theorem retransmit_content:
  assumes "snd_reachable c s" and "mtu_ok msgType mtu"
  shows "case SendBuffer_ReadyToRetransmit (sys_buf s) sid ack mtu rto msgType now of
      Inl (Panic _) \<Rightarrow> False
    | Inl (Err _) \<Rightarrow> True
    | Inr ((None, _, _), _) \<Rightarrow> True
    | Inr ((Some b, off, _), _) \<Rightarrow> b = take (length b) (drop (unat off) (sys_written s sid))"
proof (cases "snd_streams (sys_buf s) sid")
  case None
  then show ?thesis by (simp add: SendBuffer_ReadyToRetransmit_def)
next
  case (Some st)
  note inv = stream_inv_stream[OF snd_reachable_inv[OF assms(1)], of sid, unfolded getOrCreate_Some[OF Some]]
  from ReadyToRetransmit_inv[OF inv Some assms(2)]
  have "resend_ok (sys_written s sid) (sys_acked s sid) (sys_buf s) sid
      (SendBuffer_ReadyToRetransmit (sys_buf s) sid ack mtu rto msgType now)" .
  then show ?thesis by (auto simp: resend_ok_def split: option.splits)
qed

theorem retransmit_content_witness:
  "case SendBuffer_ReadyToRetransmit (sys_buf demo_sent) 1 None 121 100000000 InitCryptoSnd 300000000 of
      Inr ((Some b, off, _), _) \<Rightarrow> b = take (length b) (drop (unat off) [7, 8, 9]) | _ \<Rightarrow> True"
  using retransmit_content[OF demo_sent_reachable, of InitCryptoSnd 121 1 None 100000000 300000000]
  by (auto simp: mtu_ok_def demo_defs split: sum.splits option.splits prod.splits)

text \<open>
  \<^verbatim>\<open>QueueData\<close> takes as many bytes as fit: it queues the longest prefix for which the
  capacity suffices, reports its length, adds exactly that to the size, and leaves what was
  queued before in front.
\<close>
theorem queue_data_accepts:
  assumes "snd_reachable c s" and "d \<noteq> []"
  shows "\<exists>n status sb'. SendBuffer_QueueData (sys_buf s) sid d = Some ((n, status), sb') \<and>
    n = min (int c - snd_size (sys_buf s)) (int (length d)) \<and>
    status = (if n = int (length d) then InsertStatusOk else InsertStatusSndFull) \<and>
    snd_size sb' = snd_size (sys_buf s) + n \<and>
    queuedData (snd_getOrCreateStream sb' sid) = queuedData (snd_getOrCreateStream (sys_buf s) sid) @ take (nat n) d"
proof -
  have "snd_size (sys_buf s) \<le> snd_capacity (sys_buf s)"
    using snd_reachable_inv[OF assms(1)] by (simp add: snd_inv_def)
  from QueueData_eq[OF this, of sid d] show ?thesis
    using assms(2) snd_reachable_capacity[OF assms(1)] by (auto simp: min_def)
qed

theorem queue_data_accepts_witness:
  "\<exists>n status sb'. SendBuffer_QueueData (sys_buf demo_sent) 1 [4, 5] = Some ((n, status), sb') \<and> n = 2"
  using queue_data_accepts[OF demo_sent_reachable, of "[4, 5]" 1] by (auto simp: demo_defs)

text \<open>The packet just made is in flight under the offset and length on the wire.\<close>

lemma ReadyToSend_entry:
  assumes inv: "stream_inv W A st" and st: "snd_streams sb sid = Some st" and mtu: "mtu_ok msgType mtu"
    and ping: "\<not> pingRequest st"
    and run: "SendBuffer_ReadyToSend sb sid msgType ack mtu now = ((Some b, off, cl), sb')"
  obtains st' where "snd_streams sb' sid = Some st'" "length b < 2 ^ 16"
    "lm_get (dataInFlightMap st') (createPacketKey off (word_of_nat (length b))) = Some (newSendInfo b now False)"
proof (cases "queuedData st = []")
  case True
  then show thesis
    using st run ping stream_inv_sent(1)[OF inv]
    by (intro that) (auto simp: SendBuffer_ReadyToSend_def Let_def snd_put_stream_def lmc.get_put simp del: lm_reads
        split: if_splits option.splits)
next
  case False
  obtain n where n: "n \<le> 65535" "maxData msgType ack mtu (bytesSentOffset st) = int n"
    using maxData_range[OF mtu] by blast
  define len where "len = min (word_of_int (int n)) (word_of_nat (length (queuedData st)) :: u64)"
  note p = stream_inv_data_packet[OF inv n(1) len_def refl]
  have r: "b = take (unat len) (queuedData st)" "off = bytesSentOffset st"
    "\<exists>st'. snd_streams sb' sid = Some st' \<and> dataInFlightMap st' = lm_put (dataInFlightMap st)
       (createPacketKey (bytesSentOffset st) (ucast len)) (newSendInfo (take (unat len) (queuedData st)) now False)"
    using run st False ping n(2) p(2) unfolding len_def
    by (auto simp: SendBuffer_ReadyToSend_def Let_def snd_put_stream_def)
  have lb: "length b = unat len" using p(5) r(1) by simp
  have k: "unat (ucast len :: u16) = length b" using p(3) lb by simp
  then have "(ucast len :: u16) = word_of_nat (length b)" by (simp only: k[symmetric]) simp
  moreover have "length b < 2 ^ 16" using k unsigned_less[of "ucast len :: u16", where 'a = nat] by simp
  ultimately show thesis using r that by (auto simp: lmc.get_put simp del: lm_reads)
qed

text \<open>
  The acknowledgement of a packet just made is accepted exactly once: it reports the time
  of the transmission and releases the bytes of the packet, and the same acknowledgement
  again is a duplicate that changes nothing.
\<close>
theorem ack_of_sent_packet:
  assumes "snd_reachable c s" and "mtu_ok msgType mtu"
    and "snd_streams (sys_buf s) sid = Some st" and "\<not> pingRequest st"
    and "SendBuffer_ReadyToSend (sys_buf s) sid msgType ack mtu now = ((Some b, off, cl), sb1)"
    and "a = \<lparr>ack_streamID = sid, ack_offset = off, ack_len = word_of_nat (length b), ack_rcvWnd = w\<rparr>"
  shows "\<exists>sb2. SendBuffer_AcknowledgeRange sb1 a = ((AckStatusOk, now), sb2) \<and>
    snd_size sb2 = snd_size sb1 - int (length b) \<and>
    SendBuffer_AcknowledgeRange sb2 a = ((AckDup, 0), sb2)"
proof -
  note inv = stream_inv_stream[OF snd_reachable_inv[OF assms(1)], of sid, unfolded getOrCreate_Some[OF assms(3)]]
  from ReadyToSend_entry[OF inv assms(3,2,4,5)] obtain st' where "snd_streams sb1 sid = Some st'"
    "lm_get (dataInFlightMap st') (createPacketKey off (word_of_nat (length b))) = Some (newSendInfo b now False)"
    by blast
  then show ?thesis
    by (simp add: assms(6) SendBuffer_AcknowledgeRange_def Let_def snd_put_stream_def newSendInfo_def
        lmc.get_remove del: lm_reads)
qed

theorem ack_of_sent_packet_witness:
  "\<exists>sb2. SendBuffer_AcknowledgeRange (sys_buf demo_sent)
     \<lparr>ack_streamID = 1, ack_offset = 0, ack_len = word_of_nat (length [7, 8, 9 :: u8]), ack_rcvWnd = 0\<rparr> =
     ((AckStatusOk, 5), sb2) \<and> snd_size sb2 = 0"
proof -
  have "SendBuffer_ReadyToSend (sys_buf demo_queued) 1 Data None 1400 5 =
      ((Some [7, 8, 9], 0, False), sys_buf demo_sent)"
    by (simp add: snd_eval demo_defs)
  from ack_of_sent_packet[OF demo_queued_reachable _ _ _ this refl, of demo_stream 0]
  show ?thesis by (auto simp: mtu_ok_def demo_defs)
qed

section \<open>The acknowledged offset after a split\<close>

text \<open>
  \<^verbatim>\<open>GetOffsetAcked\<close> reads the first entry in insertion order. A split appends the left part
  at the end of that order, so the offset can pass bytes still in flight: eighty bytes and a
  close packet are sent, the data is split for a retransmission that also carries an
  acknowledgement, and the right part is acknowledged first.
\<close>

definition split_events :: "snd_event list" where
  "split_events =
     [Queue_ev 1 (replicate 80 0), Send_ev 1 Data None 119 1, Close_ev 1, Send_ev 1 Data None 119 2,
      Retransmit_ev 1 (Some \<lparr>ack_streamID = 1, ack_offset = 0, ack_len = 0, ack_rcvWnd = 0\<rparr>) 119 100 Data 1000,
      Ack_ev \<lparr>ack_streamID = 1, ack_offset = 70, ack_len = 10, ack_rcvWnd = 0\<rparr>]"

lemma offset_acked_passes_unacked_bytes:
  "\<exists>s. snd_reachable 1000 s \<and> SendBuffer_GetOffsetAcked (sys_buf s) 1 = 80 \<and>
     SendBuffer_GetOffsetClosedAt (sys_buf s) 1 = Some 80 \<and> sys_acked s 1 = {70..<80}"
proof -
  have "\<exists>s. run (guarded snd_ok snd_step) (snd_init (int 1000)) split_events = Some s \<and>
     SendBuffer_GetOffsetAcked (sys_buf s) 1 = 80 \<and>
     SendBuffer_GetOffsetClosedAt (sys_buf s) 1 = Some 80 \<and> sys_acked s 1 = {70..<80}"
    by (simp add: split_events_def guarded_def snd_init_def NewSendBuffer_def snd_eval SendBuffer_Close_def
        SendBuffer_AcknowledgeRange_def SendBuffer_GetOffsetAcked_def SendBuffer_GetOffsetClosedAt_def
        al_put_def al_remove_def al_replace_def entry_result_def backoff_def meas_consts krange_def
        packetKey_length_def)
  then show ?thesis by (blast intro: snd_reachable_run)
qed

end
