(* ===== verification/Receive_Buffer.thy ===== *)
theory Receive_Buffer
  imports Proto Sorted_Map Step_System
begin

text \<open>
  \<^verbatim>\<open>rcv.go\<close>: per stream, the segments that arrived and are not read yet, in a sorted map keyed
  by offset, and the list of acknowledgements to send. The streams map is a partial function;
  a \<^verbatim>\<open>RcvBuffer\<close> is referenced from its map entry only.

  The second half runs the buffer against an arbitrary content of every stream. Whatever
  segments of that content arrive, in whatever order and with whatever overlaps, the bytes
  read are a prefix of it. For segments that overlap at most one stored segment, which
  includes every network that duplicates, reorders and loses packets of fixed boundaries,
  nothing acknowledged is lost. Everything that arrived in order can then be read unless a
  stored segment starts below the read position; such a segment, which an overlap with bytes
  already read or with two stored segments leaves behind, blocks its stream.
\<close>

section \<open>State\<close>

datatype RcvInsertStatus = RcvInsertOk | RcvInsertDuplicate | RcvInsertBufferFull

record RcvValue =
  rv_data :: bytes
  rv_receiveTimeNano :: u64

record RcvBuffer =
  segments :: "(u64, RcvValue) sorted_map"
  nextInOrderOffsetToWaitFor :: u64
  rcv_closeAtOffset :: "u64 option"

record ReceiveBuffer =
  rcv_streams :: "u32 \<rightharpoonup> RcvBuffer"
  rcv_capacity :: int
  rcv_size :: int
  ackList :: "Ack list"

definition NewRcvBuffer :: RcvBuffer where
  "NewRcvBuffer = \<lparr>segments = sm_new, nextInOrderOffsetToWaitFor = 0, rcv_closeAtOffset = None\<rparr>"

definition NewReceiveBuffer :: "int \<Rightarrow> ReceiveBuffer" where
  "NewReceiveBuffer capacity =
     \<lparr>rcv_streams = Map.empty, rcv_capacity = capacity, rcv_size = 0, ackList = []\<rparr>"

section \<open>Operations\<close>

text \<open>
  \<^verbatim>\<open>getOrCreateStream\<close> returns the stream; the callers store it back, which also enters a new
  stream into the map.
\<close>

definition rcv_getOrCreateStream :: "ReceiveBuffer \<Rightarrow> u32 \<Rightarrow> RcvBuffer" where
  "rcv_getOrCreateStream rb streamID =
     (case rcv_streams rb streamID of None \<Rightarrow> NewRcvBuffer | Some s \<Rightarrow> s)"

definition rcv_put_stream :: "ReceiveBuffer \<Rightarrow> u32 \<Rightarrow> RcvBuffer \<Rightarrow> ReceiveBuffer" where
  "rcv_put_stream rb streamID s = rb\<lparr>rcv_streams := (rcv_streams rb)(streamID \<mapsto> s)\<rparr>"

definition mkAck :: "u32 \<Rightarrow> u64 \<Rightarrow> u16 \<Rightarrow> Ack" where
  "mkAck streamID offset len =
     \<lparr>ack_streamID = streamID, ack_offset = offset, ack_len = len, ack_rcvWnd = 0\<rparr>"

definition ReceiveBuffer_EmptyInsert ::
  "ReceiveBuffer \<Rightarrow> u32 \<Rightarrow> u64 \<Rightarrow> u64 \<Rightarrow> RcvInsertStatus \<times> ReceiveBuffer" where
  "ReceiveBuffer_EmptyInsert rb streamID offset nowNano =
     (RcvInsertOk, rb\<lparr>ackList := ackList rb @ [mkAck streamID offset 0]\<rparr>)"

text \<open>
  \<open>b[i:j]\<close> with \<open>uint64\<close> bounds. The upper bounds below are never between the length and the
  capacity of the slice, so the length is the limit.
\<close>

definition go_slice :: "bytes \<Rightarrow> u64 \<Rightarrow> u64 \<Rightarrow> bytes option" where
  "go_slice b i j =
     (if i \<le> j \<and> unat j \<le> length b then Some (take (unat j - unat i) (drop (unat i) b)) else None)"

abbreviation len64 :: "bytes \<Rightarrow> u64" where
  "len64 b \<equiv> word_of_nat (length b)"

text \<open>
  The overlap with the previous segment: \<open>None\<close> is the panic, \<open>Some None\<close> a duplicate, and
  otherwise the adjusted offset and data.
\<close>

definition trim_prev :: "(u64, RcvValue) sorted_map \<Rightarrow> u64 \<Rightarrow> bytes \<Rightarrow> (u64 \<times> bytes) option option" where
  "trim_prev segs offset userData =
     (case sm_prev segs offset of
        (prevOffset, Some prevData, True) \<Rightarrow>
          let prevEnd = prevOffset + len64 (rv_data prevData)
          in if prevEnd > offset then
               let overlapLen = prevOffset + len64 (rv_data prevData) - offset
               in if overlapLen \<ge> len64 userData then Some None
                  else do {
                    existingOverlap \<leftarrow> go_slice (rv_data prevData) (offset - prevOffset) (len64 (rv_data prevData));
                    incomingOverlap \<leftarrow> go_slice userData 0 overlapLen;
                    if existingOverlap \<noteq> incomingOverlap then None
                    else do {
                      rest \<leftarrow> go_slice userData overlapLen (len64 userData);
                      Some (Some (prevEnd, rest))
                    }
                  }
             else Some (Some (offset, userData))
      | _ \<Rightarrow> Some (Some (offset, userData)))"

text \<open>The overlap with the next segment: the segments, the size and the data to store.\<close>

definition trim_next ::
  "(u64, RcvValue) sorted_map \<Rightarrow> int \<Rightarrow> u64 \<Rightarrow> u64 \<Rightarrow> bytes \<Rightarrow>
   ((u64, RcvValue) sorted_map \<times> int \<times> bytes) option" where
  "trim_next segs sz offset finalOffset finalUserData =
     (case sm_next segs offset of
        (nextOffset, Some nextData, True) \<Rightarrow>
          let ourEnd = finalOffset + len64 finalUserData
          in if ourEnd > nextOffset then
               let nextEnd = nextOffset + len64 (rv_data nextData);
                   ourOverlapStart = nextOffset - finalOffset
               in if ourEnd \<ge> nextEnd then do {
                    incomingOverlap \<leftarrow> go_slice finalUserData ourOverlapStart
                                        (ourOverlapStart + len64 (rv_data nextData));
                    if rv_data nextData \<noteq> incomingOverlap then None
                    else Some (sm_remove segs nextOffset, sz - int (length (rv_data nextData)), finalUserData)
                  }
                  else do {
                    existingOverlap \<leftarrow> go_slice (rv_data nextData) 0 (ourEnd - nextOffset);
                    incomingOverlap \<leftarrow> go_slice finalUserData ourOverlapStart (len64 finalUserData);
                    if existingOverlap \<noteq> incomingOverlap then None
                    else do {
                      shortened \<leftarrow> go_slice finalUserData 0 ourOverlapStart;
                      Some (segs, sz, shortened)
                    }
                  }
             else Some (segs, sz, finalUserData)
      | _ \<Rightarrow> Some (segs, sz, finalUserData))"

definition ReceiveBuffer_Insert ::
  "ReceiveBuffer \<Rightarrow> u32 \<Rightarrow> u64 \<Rightarrow> u64 \<Rightarrow> bytes \<Rightarrow> (RcvInsertStatus \<times> ReceiveBuffer) option" where
  "ReceiveBuffer_Insert rb streamID offset nowNano userData =
     (let stream = rcv_getOrCreateStream rb streamID;
          rb = rcv_put_stream rb streamID stream;
          dataLen = int (length userData)
      in if rcv_size rb + dataLen > rcv_capacity rb then Some (RcvInsertBufferFull, rb)
         else
           let rb = rb\<lparr>ackList := ackList rb @ [mkAck streamID offset (word_of_nat (length userData))]\<rparr>;
               val = (\<lambda>d. \<lparr>rv_data = d, rv_receiveTimeNano = nowNano\<rparr>);
               store = (\<lambda>segs sz off d.
                 (rcv_put_stream rb streamID (stream\<lparr>segments := sm_put segs off (val d)\<rparr>))
                 \<lparr>rcv_size := sz + int (length d)\<rparr>)
           in if offset + len64 userData \<le> nextInOrderOffsetToWaitFor stream then Some (RcvInsertDuplicate, rb)
              else case sm_get (segments stream) offset of
                Some existingData \<Rightarrow>
                  if length userData \<le> length (rv_data existingData) then Some (RcvInsertDuplicate, rb)
                  else Some (RcvInsertOk, store (sm_remove (segments stream) offset)
                         (rcv_size rb - int (length (rv_data existingData))) offset userData)
              | None \<Rightarrow> do {
                  adjusted \<leftarrow> trim_prev (segments stream) offset userData;
                  case adjusted of
                    None \<Rightarrow> Some (RcvInsertDuplicate, rb)
                  | Some (finalOffset, finalUserData) \<Rightarrow> do {
                      (segs, sz, finalUserData) \<leftarrow>
                        trim_next (segments stream) (rcv_size rb) offset finalOffset finalUserData;
                      Some (RcvInsertOk, store segs sz finalOffset finalUserData)
                    }
                })"

definition ReceiveBuffer_Close :: "ReceiveBuffer \<Rightarrow> u32 \<Rightarrow> u64 \<Rightarrow> ReceiveBuffer" where
  "ReceiveBuffer_Close rb streamID closeOffset =
     (let stream = rcv_getOrCreateStream rb streamID
      in rcv_put_stream rb streamID
           (if rcv_closeAtOffset stream = None then stream\<lparr>rcv_closeAtOffset := Some closeOffset\<rparr> else stream))"

definition ReceiveBuffer_GetOffsetClosedAt :: "ReceiveBuffer \<Rightarrow> u32 \<Rightarrow> u64 option" where
  "ReceiveBuffer_GetOffsetClosedAt rb streamID =
     (case rcv_streams rb streamID of None \<Rightarrow> None | Some stream \<Rightarrow> rcv_closeAtOffset stream)"

text \<open>
  The test for an empty streams map is subsumed by the lookup. In the first branch the offset
  is the one waited for, so the code that drops a delivered part is not reached.
\<close>

definition ReceiveBuffer_RemoveOldestInOrder ::
  "ReceiveBuffer \<Rightarrow> u32 \<Rightarrow> (u64 \<times> bytes option \<times> u64) \<times> ReceiveBuffer" where
  "ReceiveBuffer_RemoveOldestInOrder rb streamID =
     (case rcv_streams rb streamID of
        None \<Rightarrow> ((0, None, 0), rb)
      | Some stream \<Rightarrow>
          (case sm_min (segments stream) of
             (oldestOffset, Some oldestValue, True) \<Rightarrow>
               if oldestOffset = nextInOrderOffsetToWaitFor stream then
                 let d = rv_data oldestValue;
                     d' = (if oldestOffset < nextInOrderOffsetToWaitFor stream
                           then drop (unat (nextInOrderOffsetToWaitFor stream - oldestOffset)) d else d);
                     nextOffset = (if oldestOffset < nextInOrderOffsetToWaitFor stream
                           then nextInOrderOffsetToWaitFor stream else oldestOffset)
                 in ((oldestOffset, Some d', rv_receiveTimeNano oldestValue),
                     (rcv_put_stream rb streamID
                       (stream\<lparr>segments := sm_remove (segments stream) oldestOffset,
                          nextInOrderOffsetToWaitFor := nextOffset + len64 d'\<rparr>))
                     \<lparr>rcv_size := rcv_size rb - int (length d)\<rparr>)
               else ((0, None, 0), rb)
           | _ \<Rightarrow> ((0, None, 0), rb)))"

definition ReceiveBuffer_Size :: "ReceiveBuffer \<Rightarrow> int" where
  "ReceiveBuffer_Size rb = rcv_size rb"

definition ReceiveBuffer_Available :: "ReceiveBuffer \<Rightarrow> int" where
  "ReceiveBuffer_Available rb = rcv_capacity rb - rcv_size rb"

definition ReceiveBuffer_GetSndAck :: "ReceiveBuffer \<Rightarrow> Ack option \<times> ReceiveBuffer" where
  "ReceiveBuffer_GetSndAck rb =
     (case ackList rb of [] \<Rightarrow> (None, rb) | ack # rest \<Rightarrow> (Some ack, rb\<lparr>ackList := rest\<rparr>))"

section \<open>Segments of a content\<close>

definition seg_of :: "bytes \<Rightarrow> u64 \<Rightarrow> bytes \<Rightarrow> bool" where
  "seg_of W k d \<longleftrightarrow> unat k + length d \<le> length W \<and> d = take (length d) (drop (unat k) W)"

definition content_ok :: "bytes \<Rightarrow> bool" where
  "content_ok W \<longleftrightarrow> length W < 2 ^ 48"

abbreviation seg_start :: "u64 \<times> RcvValue \<Rightarrow> nat" where
  "seg_start e \<equiv> unat (fst e)"

abbreviation seg_end :: "u64 \<times> RcvValue \<Rightarrow> nat" where
  "seg_end e \<equiv> unat (fst e) + length (rv_data (snd e))"

lemma seg_of_sub:
  assumes "seg_of W k d" and "i \<le> j" and "j \<le> length d"
  shows "take (j - i) (drop i d) = take (j - i) (drop (unat k + i) W)"
proof -
  have d: "d = take (length d) (drop (unat k) W)" using assms(1) by (simp add: seg_of_def)
  show ?thesis using assms(2,3) by (subst d) (simp add: drop_take add.commute)
qed

lemma seg_of_slice:
  assumes s: "seg_of W k d" and "i \<le> j" and "j \<le> length d" and "unat k' = unat k + i"
  shows "seg_of W k' (take (j - i) (drop i d))"
proof -
  have "unat k' + (j - i) \<le> length W" using assms by (simp add: seg_of_def)
  moreover have "length (take (j - i) (drop i d)) = j - i" using assms(3) by simp
  ultimately show ?thesis unfolding seg_of_def using seg_of_sub[OF assms(1-3)] assms(4) by simp
qed

lemma seg_len: "content_ok W \<Longrightarrow> seg_of W k d \<Longrightarrow> unat (len64 d) = length d"
  by (intro unat_of_nat_small) (simp add: seg_of_def content_ok_def)

lemma seg_end_word: "content_ok W \<Longrightarrow> seg_of W k d \<Longrightarrow> unat (k + len64 d) = unat k + length d"
  using seg_len by (subst unat_add_small) (auto simp: seg_of_def content_ok_def)

lemma go_slice_eq: "i \<le> j \<Longrightarrow> unat j \<le> length b \<Longrightarrow> go_slice b i j = Some (take (unat j - unat i) (drop (unat i) b))"
  by (simp add: go_slice_def)

lemmas seg_words = unat_sub_le seg_end_word seg_len word_le_nat_alt word_less_nat_alt

definition segs_of :: "bytes \<Rightarrow> (u64, RcvValue) sorted_map \<Rightarrow> bool" where
  "segs_of W m \<longleftrightarrow> (\<forall>e \<in> set (sm_entries m). seg_of W (fst e) (rv_data (snd e)))"

text \<open>
  What the two trims do on segments of one content: the comparison of the overlaps never
  fails, and only an adjusted offset beyond the next segment is a panic.
\<close>

lemma trim_prev_overlap:
  assumes W: "content_ok W" and p: "seg_of W k (rv_data v)" and d: "seg_of W offset d"
    and prev: "sm_prev segs offset = (k, Some v, True)" and k: "k < offset"
    and o: "unat offset < seg_end (k, v)" and e: "seg_end (k, v) < unat offset + length d"
  shows "trim_prev segs offset d = Some (Some (k + len64 (rv_data v), drop (seg_end (k, v) - unat offset) d))"
proof -
  let ?n = "k + len64 (rv_data v) - offset" and ?m = "offset - k"
  have pe: "unat (k + len64 (rv_data v)) = seg_end (k, v)" using seg_end_word[OF W p] by simp
  have n: "unat ?n = seg_end (k, v) - unat offset"
    using o pe by (subst unat_sub_le) (simp_all add: word_le_nat_alt)
  have m: "unat ?m = unat offset - unat k" using k by (simp add: unat_sub_le)
  note ld = seg_len[OF W d] and lp = seg_len[OF W p]
  have "take (seg_end (k, v) - unat offset) d = take (seg_end (k, v) - unat offset) (drop (unat offset) W)"
    using seg_of_sub[OF d, of 0 "seg_end (k, v) - unat offset"] e by simp
  moreover have "drop (unat ?m) (rv_data v) = take (seg_end (k, v) - unat offset) (drop (unat offset) W)"
    using seg_of_sub[OF p, of "unat ?m" "length (rv_data v)"] o k m by (simp add: word_less_nat_alt add.commute)
  ultimately have "go_slice (rv_data v) ?m (len64 (rv_data v)) = go_slice d 0 ?n"
    using o e k by (simp add: go_slice_def word_le_nat_alt word_less_nat_alt m n ld lp add.commute) arith
  moreover have "go_slice d 0 ?n \<noteq> None" using e by (simp add: go_slice_def n)
  moreover have "go_slice d ?n (len64 d) = Some (drop (seg_end (k, v) - unat offset) d)"
    using e by (simp add: go_slice_def word_le_nat_alt n ld)
  moreover have "\<not> len64 d \<le> ?n" "offset < k + len64 (rv_data v)"
    using e o pe n by (simp_all add: word_le_nat_alt word_less_nat_alt ld)
  ultimately show ?thesis using prev by (auto simp: trim_prev_def Let_def simp del: sm_reads)
qed

lemma neighbour_result: "sm_prev m k = (k', v, b) \<Longrightarrow> b \<longleftrightarrow> v \<noteq> None" "sm_next m k = (k', v, b) \<Longrightarrow> b \<longleftrightarrow> v \<noteq> None"
  "sm_min m = (k', v, b) \<Longrightarrow> b \<longleftrightarrow> v \<noteq> None"
  by (auto simp: entry_result_def split: option.splits list.splits)

lemma trim_prev_cases:
  assumes W: "content_ok W" and m: "segs_of W m" and d: "seg_of W offset d"
  obtains (clear) "trim_prev m offset d = Some (Some (offset, d))"
      "\<And>k v. sm_prev m offset = (k, Some v, True) \<Longrightarrow> seg_end (k, v) \<le> unat offset"
  | (inside) k v where "trim_prev m offset d = Some None" "(k, v) \<in> set (sm_entries m)"
      "unat k < unat offset" "unat offset < seg_end (k, v)" "unat offset + length d \<le> seg_end (k, v)"
  | (overlap) k v where
      "trim_prev m offset d = Some (Some (k + len64 (rv_data v), drop (seg_end (k, v) - unat offset) d))"
      "(k, v) \<in> set (sm_entries m)" "unat k < unat offset" "unat offset < seg_end (k, v)"
      "seg_end (k, v) < unat offset + length d"
proof -
  obtain k v b where p: "sm_prev m offset = (k, v, b)" by (metis prod.exhaust)
  show thesis
  proof (cases v)
    case None
    then show thesis using p clear by (simp add: trim_prev_def del: sm_reads)
  next
    case (Some w)
    then have p': "sm_prev m offset = (k, Some w, True)" using p neighbour_result(1)[OF p] by simp
    from smc.prev_greatest[OF this] have k: "(k, w) \<in> set (sm_entries m)" "k < offset"
      by (auto simp: smc.get_iff simp del: sm_reads)
    then have s: "seg_of W k (rv_data w)" using m by (fastforce simp: segs_of_def)
    have pe: "unat (k + len64 (rv_data w)) = seg_end (k, w)" using seg_end_word[OF W s] by simp
    consider "seg_end (k, w) \<le> unat offset" | "unat offset < seg_end (k, w)" "unat offset + length d \<le> seg_end (k, w)"
      | "unat offset < seg_end (k, w)" "seg_end (k, w) < unat offset + length d" by linarith
    then show thesis
    proof cases
      case 1
      then show thesis using p' pe clear by (simp add: trim_prev_def Let_def word_less_nat_alt del: sm_reads)
    next
      case 2
      then have "unat (k + len64 (rv_data w) - offset) = seg_end (k, w) - unat offset"
        using pe by (subst unat_sub_le) (simp_all add: word_le_nat_alt)
      moreover have "length d \<le> seg_end (k, w) - unat offset" using 2 by arith
      ultimately have "trim_prev m offset d = Some None"
        using 2 p' pe seg_len[OF W d]
        by (simp add: trim_prev_def Let_def word_less_nat_alt word_le_nat_alt del: sm_reads)
      then show thesis using inside 2 k by (simp add: word_less_nat_alt)
    next
      case 3
      then show thesis
        using overlap trim_prev_overlap[OF W s d p' k(2)] k by (simp add: word_less_nat_alt)
    qed
  qed
qed

lemma trim_next_panic:
  assumes W: "content_ok W" and n: "seg_of W k (rv_data v)" and d: "seg_of W fo d"
    and nx: "sm_next m offset = (k, Some v, True)" and k: "unat k < unat fo"
  shows "trim_next m z offset fo d = None"
proof -
  have lt: "unat k < unat fo + length d" using k by simp
  have "unat (k - fo) = 2 ^ 64 - (unat fo - unat k)"
    using k by (simp add: unat_sub_if' word_size)
  moreover have "unat fo < 2 ^ 48" using W d by (simp add: content_ok_def seg_of_def)
  ultimately have big: "2 ^ 48 < unat (k - fo)" by simp
  have ld: "length d < 2 ^ 48" "length (rv_data v) < 2 ^ 48" using W d n by (simp_all add: content_ok_def seg_of_def)
  have "\<not> unat (k - fo + len64 (rv_data v)) \<le> length d \<or> \<not> k - fo \<le> k - fo + len64 (rv_data v)"
    using big ld by (auto simp: word_le_nat_alt)
  then have "go_slice d (k - fo) (k - fo + len64 (rv_data v)) = None" by (auto simp: go_slice_def)
  moreover have "go_slice d (k - fo) (len64 d) = None"
    using big ld seg_len[OF W d] by (simp add: go_slice_def word_le_nat_alt)
  ultimately show ?thesis
    using nx lt seg_end_word[OF W d]
    by (simp add: trim_next_def Let_def word_less_nat_alt bind_eq_None_conv del: sm_reads)
qed

lemma trim_next_overlap:
  assumes W: "content_ok W" and n: "seg_of W k (rv_data v)" and d: "seg_of W fo d"
    and nx: "sm_next m offset = (k, Some v, True)" and k: "unat fo \<le> unat k" "unat k < unat fo + length d"
  shows "trim_next m z offset fo d =
    (if seg_end (k, v) \<le> unat fo + length d then Some (sm_remove m k, z - int (length (rv_data v)), d)
     else Some (m, z, take (unat k - unat fo) d))"
proof -
  let ?b = "k - fo"
  have b: "unat ?b = unat k - unat fo" using k by (simp add: unat_sub_le word_le_nat_alt)
  note oe = seg_end_word[OF W d] and ne = seg_end_word[OF W n] and ld = seg_len[OF W d] and ln = seg_len[OF W n]
  have lt: "k < fo + len64 d" using oe k by (simp add: word_less_nat_alt)
  have x: "unat (fo + len64 d - k) = unat fo + length d - unat k"
    using oe k by (subst unat_sub_le) (simp_all add: word_le_nat_alt)
  show ?thesis
  proof (cases "seg_end (k, v) \<le> unat fo + length d")
    case True
    have "unat (?b + len64 (rv_data v)) = unat k - unat fo + length (rv_data v)"
      using W n b ln by (subst unat_add_small) (auto simp: content_ok_def seg_of_def)
    moreover have "take (length (rv_data v)) (drop (unat k - unat fo) d) = rv_data v"
      using seg_of_sub[OF d, of "unat k - unat fo" "unat k - unat fo + length (rv_data v)"] True k n
      by (simp add: seg_of_def)
    ultimately have "go_slice d ?b (?b + len64 (rv_data v)) = Some (rv_data v)"
      using True k by (simp add: go_slice_def word_le_nat_alt b) arith
    then show ?thesis
      using True nx lt oe ne by (simp add: trim_next_def Let_def word_le_nat_alt del: sm_reads)
  next
    case False
    have "take (unat fo + length d - unat k) (rv_data v) = drop (unat k - unat fo) d"
      using seg_of_sub[OF n, of 0 "unat fo + length d - unat k"] seg_of_sub[OF d, of "unat k - unat fo" "length d"] False k
      by (simp add: add.commute)
    then have "go_slice (rv_data v) 0 (fo + len64 d - k) = go_slice d ?b (len64 d)"
      using False k by (simp add: go_slice_def word_le_nat_alt b x ld) arith
    moreover have "go_slice d ?b (len64 d) \<noteq> None" using k by (simp add: go_slice_def word_le_nat_alt b ld)
    moreover have "go_slice d 0 ?b = Some (take (unat k - unat fo) d)" using k by (simp add: go_slice_def b)
    ultimately show ?thesis
      using False nx lt oe ne by (auto simp: trim_next_def Let_def word_le_nat_alt simp del: sm_reads)
  qed
qed

section \<open>The outcomes of an insertion\<close>

text \<open>The buffer with the acknowledgement added, and with a segment stored.\<close>

definition rcv_acked :: "ReceiveBuffer \<Rightarrow> u32 \<Rightarrow> u64 \<Rightarrow> bytes \<Rightarrow> ReceiveBuffer" where
  "rcv_acked rb sid off d =
     (rcv_put_stream rb sid (rcv_getOrCreateStream rb sid))
     \<lparr>ackList := ackList rb @ [mkAck sid off (word_of_nat (length d))]\<rparr>"

definition rcv_stored ::
  "ReceiveBuffer \<Rightarrow> u32 \<Rightarrow> u64 \<Rightarrow> bytes \<Rightarrow> u64 \<Rightarrow> (u64, RcvValue) sorted_map \<Rightarrow> int \<Rightarrow> u64 \<Rightarrow> bytes \<Rightarrow> ReceiveBuffer" where
  "rcv_stored rb sid off d now segs z fo fd =
     (rcv_put_stream (rcv_acked rb sid off d) sid ((rcv_getOrCreateStream rb sid)
        \<lparr>segments := sm_put segs fo \<lparr>rv_data = fd, rv_receiveTimeNano = now\<rparr>\<rparr>))
     \<lparr>rcv_size := z + int (length fd)\<rparr>"

lemma rcv_stored_eq:
  "rcv_stored rb sid off d now segs z fo fd =
     (rcv_put_stream rb sid ((rcv_getOrCreateStream rb sid)
        \<lparr>segments := sm_put segs fo \<lparr>rv_data = fd, rv_receiveTimeNano = now\<rparr>\<rparr>))
     \<lparr>ackList := ackList rb @ [mkAck sid off (word_of_nat (length d))], rcv_size := z + int (length fd)\<rparr>"
  by (cases rb) (simp add: rcv_stored_def rcv_acked_def rcv_put_stream_def)

lemma Insert_eq:
  "ReceiveBuffer_Insert rb sid off now d =
    (let st = rcv_getOrCreateStream rb sid
     in if rcv_size rb + int (length d) > rcv_capacity rb
        then Some (RcvInsertBufferFull, rcv_put_stream rb sid st)
        else if off + len64 d \<le> nextInOrderOffsetToWaitFor st then Some (RcvInsertDuplicate, rcv_acked rb sid off d)
        else case sm_get (segments st) off of
          Some v \<Rightarrow>
            if length d \<le> length (rv_data v) then Some (RcvInsertDuplicate, rcv_acked rb sid off d)
            else Some (RcvInsertOk, rcv_stored rb sid off d now (sm_remove (segments st) off)
              (rcv_size rb - int (length (rv_data v))) off d)
        | None \<Rightarrow>
            (case trim_prev (segments st) off d of
               None \<Rightarrow> None
             | Some None \<Rightarrow> Some (RcvInsertDuplicate, rcv_acked rb sid off d)
             | Some (Some (fo, fd)) \<Rightarrow>
                 (case trim_next (segments st) (rcv_size rb) off fo fd of
                    None \<Rightarrow> None
                  | Some (segs, z, fd') \<Rightarrow> Some (RcvInsertOk, rcv_stored rb sid off d now segs z fo fd'))))"
  by (simp add: ReceiveBuffer_Insert_def rcv_acked_def rcv_stored_def Let_def rcv_put_stream_def
      del: sm_reads split: option.split prod.split)

definition seg_range :: "u64 \<times> RcvValue \<Rightarrow> nat set" where
  "seg_range e = {seg_start e..<seg_end e}"

definition data_range :: "u64 \<Rightarrow> bytes \<Rightarrow> nat set" where
  "data_range off d = {unat off..<unat off + length d}"

abbreviation segs_at :: "RcvBuffer \<Rightarrow> (u64 \<times> RcvValue) set" where
  "segs_at st \<equiv> set (sm_entries (segments st))"

abbreviation rcv_pos :: "RcvBuffer \<Rightarrow> nat" where
  "rcv_pos st \<equiv> unat (nextInOrderOffsetToWaitFor st)"

text \<open>
  The invariant of a stream with content \<open>W\<close> of which the positions \<open>A\<close> have arrived: the stored
  segments are disjoint, non-empty parts of the content, and with what was read they are all
  that arrived.
\<close>

definition rstream_inv :: "bytes \<Rightarrow> nat set \<Rightarrow> RcvBuffer \<Rightarrow> bool" where
  "rstream_inv W A st \<longleftrightarrow>
     content_ok W \<and> rcv_pos st \<le> length W \<and> segs_of W (segments st) \<and>
     (\<forall>e \<in> segs_at st. rv_data (snd e) \<noteq> []) \<and>
     (\<forall>e \<in> segs_at st. \<forall>f \<in> segs_at st. e \<noteq> f \<longrightarrow> disjnt (seg_range e) (seg_range f)) \<and>
     {..<rcv_pos st} \<union> \<Union> (seg_range ` segs_at st) = A"

text \<open>Segments that overlap at most one stored segment.\<close>

definition meets_one :: "RcvBuffer \<Rightarrow> u64 \<Rightarrow> bytes \<Rightarrow> bool" where
  "meets_one st off d \<longleftrightarrow>
     (\<forall>e \<in> segs_at st. \<forall>f \<in> segs_at st.
        \<not> disjnt (seg_range e) (data_range off d) \<longrightarrow> \<not> disjnt (seg_range f) (data_range off d) \<longrightarrow> e = f)"

definition stored :: "(u64, RcvValue) sorted_map \<Rightarrow> nat" where
  "stored m = (\<Sum>e \<leftarrow> sm_entries m. length (rv_data (snd e)))"

lemma rstream_invD:
  assumes "rstream_inv W A st"
  shows "content_ok W" "rcv_pos st \<le> length W" "segs_of W (segments st)"
    "\<And>e. e \<in> segs_at st \<Longrightarrow> rv_data (snd e) \<noteq> []"
    "\<And>e f. e \<in> segs_at st \<Longrightarrow> f \<in> segs_at st \<Longrightarrow> e \<noteq> f \<Longrightarrow> disjnt (seg_range e) (seg_range f)"
    "{..<rcv_pos st} \<union> \<Union> (seg_range ` segs_at st) = A"
  using assms unfolding rstream_inv_def by blast+

lemma rstream_seg: "rstream_inv W A st \<Longrightarrow> (k, v) \<in> segs_at st \<Longrightarrow> seg_of W k (rv_data v)"
  using rstream_invD(3) by (fastforce simp: segs_of_def)

text \<open>
  Storing \<open>fd\<close> at \<open>fo\<close> in place of the segments \<open>R\<close>, where the union of the ranges grows by the
  range of the data that arrived.
\<close>

definition store_ok :: "bytes \<Rightarrow> RcvBuffer \<Rightarrow> u64 \<Rightarrow> bytes \<Rightarrow> (u64, RcvValue) sorted_map \<Rightarrow> int \<Rightarrow> u64 \<Rightarrow> bytes \<Rightarrow> bool" where
  "store_ok W st off d segs z fo fd \<longleftrightarrow>
     (\<exists>R \<subseteq> segs_at st. set (sm_entries segs) = segs_at st - R \<and>
        (\<forall>e \<in> segs_at st - R. disjnt (seg_range e) (data_range fo fd)) \<and>
        \<Union> (seg_range ` (segs_at st - R)) \<union> data_range fo fd = \<Union> (seg_range ` segs_at st) \<union> data_range off d) \<and>
     seg_of W fo fd \<and> fd \<noteq> [] \<and> int (stored segs) = int (stored (segments st)) + z \<and>
     z \<le> 0 \<and> length fd \<le> length d"

lemma disjnt_ivl: "disjnt {a..<b} {c..<d} \<longleftrightarrow> b \<le> a \<or> d \<le> c \<or> b \<le> c \<or> d \<le> a" for a b c d :: nat
  by (auto simp: disjnt_def disjoint_iff)

lemma store_inv:
  assumes inv: "rstream_inv W A st" and ok: "store_ok W st off d segs z fo fd"
  shows "rstream_inv W (A \<union> data_range off d) (st\<lparr>segments := sm_put segs fo \<lparr>rv_data = fd, rv_receiveTimeNano = now\<rparr>\<rparr>)"
      (is "rstream_inv W _ ?st")
    and "int (stored (sm_put segs fo \<lparr>rv_data = fd, rv_receiveTimeNano = now\<rparr>)) =
      int (stored (segments st)) + z + int (length fd)"
proof -
  let ?v = "\<lparr>rv_data = fd, rv_receiveTimeNano = now\<rparr>"
  obtain R where R: "set (sm_entries segs) = segs_at st - R"
    "\<And>e. e \<in> segs_at st - R \<Longrightarrow> disjnt (seg_range e) (data_range fo fd)"
    "\<Union> (seg_range ` (segs_at st - R)) \<union> data_range fo fd = \<Union> (seg_range ` segs_at st) \<union> data_range off d"
    and fd: "seg_of W fo fd" "fd \<noteq> []" "int (stored segs) = int (stored (segments st)) + z"
    using ok by (auto simp: store_ok_def)
  have fresh: "(fo, w) \<notin> segs_at st - R" for w
  proof
    assume e: "(fo, w) \<in> segs_at st - R"
    then have "rv_data w \<noteq> []" using rstream_invD(4)[OF inv, of "(fo, w)"] by simp
    then show False using R(2)[OF e] fd(2) by (simp add: seg_range_def data_range_def disjnt_ivl)
  qed
  have "{e \<in> segs_at st - R. fst e \<noteq> fo} = segs_at st - R" using fresh by (auto; metis prod.collapse)
  then have E: "segs_at ?st = insert (fo, ?v) (segs_at st - R)"
    using smc.set_put[of segs fo ?v] R(1) by simp
  have r: "seg_range (fo, ?v) = data_range fo fd" by (simp add: seg_range_def data_range_def)
  have get: "sm_get segs fo = None" using fresh R(1) by (metis not_None_eq smc.get_iff)
  show "int (stored (sm_put segs fo ?v)) = int (stored (segments st)) + z + int (length fd)"
    using smc.total_put[of "\<lambda>e. length (rv_data (snd e))" segs fo ?v] get fd(3) by (simp add: stored_def)
  have dj: "disjnt (seg_range e) (seg_range f)" if "e \<in> segs_at ?st" "f \<in> segs_at ?st" "e \<noteq> f" for e f
    using that R(2)[of e] R(2)[of f] rstream_invD(5)[OF inv, of e f] unfolding E by (auto simp: r intro: disjnt_sym)
  have "\<Union> (seg_range ` segs_at ?st) = \<Union> (seg_range ` segs_at st) \<union> data_range off d"
    unfolding E using R(3) by (simp add: r Un_commute)
  then have "{..<rcv_pos st} \<union> \<Union> (seg_range ` segs_at ?st) = A \<union> data_range off d"
    using rstream_invD(6)[OF inv] by blast
  moreover have "segs_of W (segments ?st)" using rstream_invD(3)[OF inv] fd(1) unfolding segs_of_def E by auto
  moreover have "rv_data (snd e) \<noteq> []" if "e \<in> segs_at ?st" for e
    using that rstream_invD(4)[OF inv, of e] fd(2) unfolding E by auto
  ultimately show "rstream_inv W (A \<union> data_range off d) ?st"
    using dj rstream_invD(1,2)[OF inv] unfolding rstream_inv_def by simp
qed

text \<open>The ways a segment is stored: as it is, in place of one, or cut at either end.\<close>

lemma stored_remove:
  "(k, v) \<in> set (sm_entries m) \<Longrightarrow> int (stored (sm_remove m k)) = int (stored m) - int (length (rv_data v))"
  using smc.total_remove[of "\<lambda>e. length (rv_data (snd e))" m k] smc.get_iff[of m k v]
  by (simp add: stored_def del: sm_reads)

lemma entries_remove:
  "(k, v) \<in> set (sm_entries m) \<Longrightarrow> set (sm_entries (sm_remove m k)) = set (sm_entries m) - {(k, v)}"
  using smc.get_iff[of m k] unfolding smc.set_remove by (auto simp del: sm_reads) (metis option.inject)

lemma store_ok_plain:
  assumes inv: "rstream_inv W A st" and d: "seg_of W off d" "d \<noteq> []"
    and dj: "\<And>e. e \<in> segs_at st \<Longrightarrow> disjnt (seg_range e) (data_range off d)"
  shows "store_ok W st off d (segments st) 0 off d"
  using d dj by (auto simp: store_ok_def)

lemma store_ok_cut:
  assumes inv: "rstream_inv W A st" and d: "seg_of W fo fd" "fd \<noteq> []"
    and e: "(k, v) \<in> segs_at st"
    and u: "seg_range (k, v) \<union> data_range fo fd = seg_range (k, v) \<union> data_range off d"
      "disjnt (seg_range (k, v)) (data_range fo fd)"
    and dj: "\<And>f. f \<in> segs_at st \<Longrightarrow> f \<noteq> (k, v) \<Longrightarrow> disjnt (seg_range f) (data_range off d)"
  shows "store_ok W st off d (segments st) 0 fo fd"
proof -
  have "data_range fo fd \<subseteq> data_range off d" using u by (auto simp: disjnt_def)
  then have "\<forall>f \<in> segs_at st. disjnt (seg_range f) (data_range fo fd)"
    using dj u(2) by (metis disjnt_subset2)
  moreover have "\<Union> (seg_range ` segs_at st) \<union> data_range fo fd = \<Union> (seg_range ` segs_at st) \<union> data_range off d"
    using u(1) e by blast
  moreover have "length fd \<le> length d"
    using card_mono[OF _ \<open>data_range fo fd \<subseteq> data_range off d\<close>] by (simp add: data_range_def)
  ultimately show ?thesis using d by (auto simp: store_ok_def intro!: exI[of _ "{}"])
qed

lemma store_ok_replace:
  assumes inv: "rstream_inv W A st" and d: "seg_of W off d" "d \<noteq> []"
    and e: "(k, v) \<in> segs_at st" and sub: "seg_range (k, v) \<subseteq> data_range off d"
    and dj: "\<And>f. f \<in> segs_at st \<Longrightarrow> f \<noteq> (k, v) \<Longrightarrow> disjnt (seg_range f) (data_range off d)"
  shows "store_ok W st off d (sm_remove (segments st) k) (- int (length (rv_data v))) off d"
proof -
  have "\<Union> (seg_range ` (segs_at st - {(k, v)})) \<union> data_range off d = \<Union> (seg_range ` segs_at st) \<union> data_range off d"
    using sub e by blast
  then show ?thesis
    using d dj e entries_remove[OF e] stored_remove[OF e]
    unfolding store_ok_def by (intro conjI exI[of _ "{(k, v)}"]) auto
qed

lemma trim_next_clear:
  assumes W: "content_ok W" and d: "seg_of W fo fd"
    and clear: "\<And>k v. sm_next m off = (k, Some v, True) \<Longrightarrow> unat fo + length fd \<le> unat k"
  shows "trim_next m z off fo fd = Some (m, z, fd)"
proof -
  obtain k v b where n: "sm_next m off = (k, v, b)" by (metis prod.exhaust)
  show ?thesis
  proof (cases v)
    case (Some w)
    then have "unat fo + length fd \<le> unat k" using n neighbour_result(2)[OF n] clear by simp
    then show ?thesis
      using n Some seg_end_word[OF W d] neighbour_result(2)[OF n]
      by (simp add: trim_next_def Let_def word_less_nat_alt del: sm_reads)
  qed (simp add: trim_next_def n del: sm_reads)
qed

lemma before_prev:
  assumes inv: "rstream_inv W A st" and e: "e \<in> segs_at st" "fst e < off"
  obtains k v where "sm_prev (segments st) off = (k, Some v, True)" "seg_end e \<le> seg_end (k, v)"
proof -
  obtain k v b where p: "sm_prev (segments st) off = (k, v, b)" by (metis prod.exhaust)
  have b using smc.no_prev[of "segments st" off k v] p e by fastforce
  then have p': "sm_prev (segments st) off = (k, v, True)" using p by simp
  obtain w where w: "v = Some w" "(k, w) \<in> segs_at st" "fst e \<le> k"
    using smc.prev_greatest[OF p'] e by (auto simp: smc.get_iff simp del: sm_reads)
  have "seg_end e \<le> seg_end (k, w)"
  proof (cases "e = (k, w)")
    case False
    then show ?thesis
      using rstream_invD(5)[OF inv e(1) w(2)] rstream_invD(4)[OF inv w(2)] rstream_invD(4)[OF inv e(1)] w(3)
      by (auto simp: seg_range_def disjnt_ivl word_le_nat_alt simp flip: length_greater_0_conv)
  qed simp
  then show thesis using that p' w(1) by simp
qed

lemma after_next:
  assumes n: "sm_next (segments st) off = (k, Some v, True)"
  shows "(k, v) \<in> segs_at st" "unat off < unat k" "e \<in> segs_at st \<Longrightarrow> off < fst e \<Longrightarrow> unat k \<le> seg_start e"
  using smc.next_least[OF n] by (auto simp: smc.get_iff word_less_nat_alt word_le_nat_alt simp del: sm_reads)

lemma no_next_all:
  assumes "\<And>k v. sm_next (segments st) off = (k, Some v, True) \<Longrightarrow> n \<le> unat k" and "e \<in> segs_at st" and "off < fst e"
  shows "n \<le> seg_start e"
proof -
  obtain k v b where p: "sm_next (segments st) off = (k, v, b)" by (metis prod.exhaust)
  have b using smc.no_next[of "segments st" off k v] p assms(2,3) by fastforce
  then obtain w where "sm_next (segments st) off = (k, Some w, True)" using p neighbour_result(2)[OF p] by auto
  from assms(1)[OF this] after_next(3)[OF this assms(2,3)] show ?thesis by simp
qed

lemma meets_one_disjnt:
  assumes "meets_one st off d" and "e \<in> segs_at st" and "\<not> disjnt (seg_range e) (data_range off d)"
    and "f \<in> segs_at st" and "f \<noteq> e"
  shows "disjnt (seg_range f) (data_range off d)"
  using assms unfolding meets_one_def by blast

text \<open>The segment does not start where a stored one does, and is clear of the one before.\<close>

lemma Insert_after_prev:
  assumes inv: "rstream_inv W A st" and d: "seg_of W off d" "d \<noteq> []"
    and one: "meets_one st off d" and get: "sm_get (segments st) off = None"
    and prev: "\<And>k v. sm_prev (segments st) off = (k, Some v, True) \<Longrightarrow> seg_end (k, v) \<le> unat off"
  shows "\<exists>segs z fd. trim_next (segments st) sz off off d = Some (segs, sz + z, fd) \<and> store_ok W st off d segs z off fd"
proof (cases "\<exists>k v. sm_next (segments st) off = (k, Some v, True) \<and> unat k < unat off + length d")
  case False
  have "disjnt (seg_range e) (data_range off d)" if e: "e \<in> segs_at st" for e
  proof (cases "fst e < off")
    case True
    obtain k v where "sm_prev (segments st) off = (k, Some v, True)" "seg_end e \<le> seg_end (k, v)"
      by (rule before_prev[OF inv e True])
    then have "seg_end e \<le> unat off" using prev[of k v] by linarith
    then show ?thesis by (simp add: seg_range_def data_range_def disjnt_ivl)
  next
    case no: False
    have "fst e \<noteq> off" using get e smc.get_iff[of "segments st" off "snd e"] by (cases e) (auto simp del: sm_reads)
    then have gt: "off < fst e" using no by simp
    have clear: "unat off + length d \<le> unat k" if "sm_next (segments st) off = (k, Some v, True)" for k v
      using False that by (auto simp: not_less simp del: sm_reads)
    have "unat off + length d \<le> seg_start e" by (rule no_next_all[OF clear e gt])
    then show ?thesis by (simp add: seg_range_def data_range_def disjnt_ivl)
  qed
  then have "store_ok W st off d (segments st) 0 off d" by (intro store_ok_plain[OF inv d])
  moreover have "trim_next (segments st) sz off off d = Some (segments st, sz, d)"
    using False by (intro trim_next_clear[OF rstream_invD(1)[OF inv] d(1)]) (auto simp: not_less simp del: sm_reads)
  ultimately show ?thesis by (intro exI[of _ "segments st"] exI[of _ 0] exI[of _ d]) simp
next
  case True
  then obtain k v where n: "sm_next (segments st) off = (k, Some v, True)" "unat k < unat off + length d" by blast
  note e = after_next[OF n(1)]
  have m: "\<not> disjnt (seg_range (k, v)) (data_range off d)"
    using rstream_invD(4)[OF inv e(1)] n(2) e(2) d(2) by (auto simp: seg_range_def data_range_def disjnt_ivl)
  have dj: "disjnt (seg_range f) (data_range off d)" if "f \<in> segs_at st" "f \<noteq> (k, v)" for f
    using that meets_one_disjnt[OF one e(1)] m by simp
  have seg: "seg_of W k (rv_data v)" using rstream_seg[OF inv e(1)] .
  note tn = trim_next_overlap[OF rstream_invD(1)[OF inv] seg d(1) n(1) _ n(2), of sz]
  show ?thesis
  proof (cases "seg_end (k, v) \<le> unat off + length d")
    case True
    then have "store_ok W st off d (sm_remove (segments st) k) (- int (length (rv_data v))) off d"
      using e(2) by (intro store_ok_replace[OF inv d e(1) _ dj]) (auto simp: seg_range_def data_range_def)
    then show ?thesis using tn True e(2)
      by (intro exI[of _ "sm_remove (segments st) k"] exI[of _ "- int (length (rv_data v))"] exI[of _ d]) simp
  next
    case False
    let ?fd = "take (unat k - unat off) d"
    have len: "length ?fd = unat k - unat off" using n(2) by simp
    have "seg_of W off ?fd" using seg_of_slice[OF d(1), of 0 "unat k - unat off" off] n(2) by simp
    moreover have "?fd \<noteq> []" using len e(2) by (metis length_0_conv zero_less_diff less_numeral_extra(3))
    ultimately have "store_ok W st off d (segments st) 0 off ?fd"
      using e(2) False n(2) len by (intro store_ok_cut[OF inv _ _ e(1) _ _ dj])
        (auto simp: seg_range_def data_range_def disjnt_ivl)
    then show ?thesis using tn False e(2) by (intro exI[of _ "segments st"] exI[of _ 0] exI[of _ ?fd]) simp
  qed
qed

lemma seg_in_arrived: "rstream_inv W A st \<Longrightarrow> e \<in> segs_at st \<Longrightarrow> seg_range e \<subseteq> A"
  using rstream_invD(6) by fastforce

text \<open>The segment starts inside a stored one and ends after it.\<close>

lemma Insert_cut_front:
  assumes inv: "rstream_inv W A st" and d: "seg_of W off d"
    and one: "meets_one st off d" and e: "(k, v) \<in> segs_at st" and k: "unat k < unat off"
      "unat off < seg_end (k, v)" "seg_end (k, v) < unat off + length d"
  defines "fo \<equiv> k + len64 (rv_data v)" and "fd \<equiv> drop (seg_end (k, v) - unat off) d"
  shows "trim_next (segments st) sz off fo fd = Some (segments st, sz, fd)" "store_ok W st off d (segments st) 0 fo fd"
proof -
  have fo: "unat fo = seg_end (k, v)"
    using seg_end_word[OF rstream_invD(1)[OF inv] rstream_seg[OF inv e]] by (simp add: fo_def)
  have len: "length fd = unat off + length d - seg_end (k, v)" using k by (simp add: fd_def)
  have fd: "seg_of W fo fd" "fd \<noteq> []"
    using seg_of_slice[OF d, of "seg_end (k, v) - unat off" "length d" fo] k fo len by (auto simp: fd_def)
  have "\<not> disjnt (seg_range (k, v)) (data_range off d)"
    using k by (auto simp: seg_range_def data_range_def disjnt_ivl)
  note dj = meets_one_disjnt[OF one e this]
  show "store_ok W st off d (segments st) 0 fo fd"
    using k fo len by (intro store_ok_cut[OF inv fd e _ _ dj]) (auto simp: seg_range_def data_range_def disjnt_ivl)
  show "trim_next (segments st) sz off fo fd = Some (segments st, sz, fd)"
  proof (rule trim_next_clear[OF rstream_invD(1)[OF inv] fd(1)])
    fix k' v'
    assume n: "sm_next (segments st) off = (k', Some v', True)"
    note a = after_next(1,2)[OF n]
    have "k' \<noteq> k" using a(2) k(1) by auto
    then have "disjnt (seg_range (k', v')) (data_range off d)" using dj[OF a(1)] by auto
    then show "unat fo + length fd \<le> unat k'"
      using a(2) k rstream_invD(4)[OF inv a(1)] by (auto simp: seg_range_def data_range_def disjnt_ivl fo len)
  qed
qed

text \<open>An insertion either finds the data there already or stores it well.\<close>

definition insert_fits :: "bytes \<Rightarrow> nat set \<Rightarrow> ReceiveBuffer \<Rightarrow> u32 \<Rightarrow> u64 \<Rightarrow> u64 \<Rightarrow> bytes \<Rightarrow> bool" where
  "insert_fits W A rb sid off now d \<longleftrightarrow>
     (ReceiveBuffer_Insert rb sid off now d = Some (RcvInsertDuplicate, rcv_acked rb sid off d) \<and> data_range off d \<subseteq> A) \<or>
     (\<exists>segs z fo fd. store_ok W (rcv_getOrCreateStream rb sid) off d segs z fo fd \<and>
        ReceiveBuffer_Insert rb sid off now d = Some (RcvInsertOk, rcv_stored rb sid off d now segs (rcv_size rb + z) fo fd))"

lemma insert_fits_dup:
  "ReceiveBuffer_Insert rb sid off now d = Some (RcvInsertDuplicate, rcv_acked rb sid off d) \<Longrightarrow>
   data_range off d \<subseteq> A \<Longrightarrow> insert_fits W A rb sid off now d"
  by (simp add: insert_fits_def)

lemma insert_fits_store:
  "store_ok W (rcv_getOrCreateStream rb sid) off d segs z fo fd \<Longrightarrow>
   ReceiveBuffer_Insert rb sid off now d = Some (RcvInsertOk, rcv_stored rb sid off d now segs (rcv_size rb + z) fo fd) \<Longrightarrow>
   insert_fits W A rb sid off now d"
  unfolding insert_fits_def by blast

lemma Insert_same_start:
  assumes inv: "rstream_inv W A (rcv_getOrCreateStream rb sid)"
    and d: "seg_of W off d" "d \<noteq> []" and one: "meets_one (rcv_getOrCreateStream rb sid) off d"
    and room: "\<not> rcv_capacity rb < rcv_size rb + int (length d)"
    and new: "\<not> off + len64 d \<le> nextInOrderOffsetToWaitFor (rcv_getOrCreateStream rb sid)" and get: "sm_get (segments (rcv_getOrCreateStream rb sid)) off = Some v"
  shows "insert_fits W A rb sid off now d"
proof -
  let ?st = "rcv_getOrCreateStream rb sid"
  have e: "(off, v) \<in> segs_at ?st" using get by (simp only: smc.get_iff)
  have m: "\<not> disjnt (seg_range (off, v)) (data_range off d)"
    using rstream_invD(4)[OF inv e] d(2) by (simp add: seg_range_def data_range_def disjnt_ivl)
  show ?thesis
  proof (cases "length d \<le> length (rv_data v)")
    case True
    then have "data_range off d \<subseteq> seg_range (off, v)" by (auto simp: seg_range_def data_range_def)
    then show ?thesis using True room new get seg_in_arrived[OF inv e]
      by (intro insert_fits_dup) (simp_all add: Insert_eq Let_def del: sm_reads)
  next
    case False
    then have "store_ok W ?st off d (sm_remove (segments ?st) off) (- int (length (rv_data v))) off d"
      using meets_one_disjnt[OF one e m]
      by (intro store_ok_replace[OF inv d e]) (auto simp: seg_range_def data_range_def)
    then show ?thesis
      by (rule insert_fits_store) (use False room new get in \<open>simp add: Insert_eq Let_def del: sm_reads\<close>)
  qed
qed

lemma Insert_new_start:
  assumes inv: "rstream_inv W A (rcv_getOrCreateStream rb sid)"
    and d: "seg_of W off d" "d \<noteq> []" and one: "meets_one (rcv_getOrCreateStream rb sid) off d"
    and room: "\<not> rcv_capacity rb < rcv_size rb + int (length d)"
    and new: "\<not> off + len64 d \<le> nextInOrderOffsetToWaitFor (rcv_getOrCreateStream rb sid)" and get: "sm_get (segments (rcv_getOrCreateStream rb sid)) off = None"
  shows "insert_fits W A rb sid off now d"
  using rstream_invD(1)[OF inv] rstream_invD(3)[OF inv] d(1)
proof (cases rule: trim_prev_cases)
  case clear
  obtain segs z fd where n: "trim_next (segments (rcv_getOrCreateStream rb sid)) (rcv_size rb) off off d = Some (segs, rcv_size rb + z, fd)"
    and s: "store_ok W (rcv_getOrCreateStream rb sid) off d segs z off fd"
    using Insert_after_prev[OF inv d one get clear(2), of "rcv_size rb"] by blast
  show ?thesis by (rule insert_fits_store[OF s]) (use clear(1) n room new get in \<open>simp add: Insert_eq Let_def del: sm_reads\<close>)
next
  case (inside k v)
  then have "data_range off d \<subseteq> seg_range (k, v)" by (auto simp: seg_range_def data_range_def)
  then show ?thesis using room new get inside(1) seg_in_arrived[OF inv inside(2)]
    by (intro insert_fits_dup) (simp_all add: Insert_eq Let_def del: sm_reads)
next
  case (overlap k v)
  note c = Insert_cut_front[OF inv d(1) one overlap(2-5)]
  show ?thesis by (rule insert_fits_store[OF c(2)])
      (use overlap(1) c(1)[of "rcv_size rb"] room new get in \<open>simp add: Insert_eq Let_def del: sm_reads\<close>)
qed

lemma Insert_fit:
  assumes inv: "rstream_inv W A (rcv_getOrCreateStream rb sid)"
    and d: "seg_of W off d" "d \<noteq> []" and one: "meets_one (rcv_getOrCreateStream rb sid) off d"
    and room: "rcv_size rb + int (length d) \<le> rcv_capacity rb"
  shows "insert_fits W A rb sid off now d"
proof (cases "unat off + length d \<le> rcv_pos (rcv_getOrCreateStream rb sid)")
  case True
  then have "data_range off d \<subseteq> A" using rstream_invD(6)[OF inv] by (fastforce simp: data_range_def)
  then show ?thesis using True room seg_end_word[OF rstream_invD(1)[OF inv] d(1)]
    by (intro insert_fits_dup) (simp_all add: Insert_eq Let_def word_le_nat_alt del: sm_reads)
next
  case False
  then have "\<not> off + len64 d \<le> nextInOrderOffsetToWaitFor (rcv_getOrCreateStream rb sid)"
    using seg_end_word[OF rstream_invD(1)[OF inv] d(1)] by (simp add: word_le_nat_alt)
  then show ?thesis
    using Insert_same_start[OF inv d one] Insert_new_start[OF inv d one] room
    by (cases "sm_get (segments (rcv_getOrCreateStream rb sid)) off") (auto simp: not_less simp del: sm_reads)
qed

text \<open>
  What an insertion of any segment of the content can leave, whatever it overlaps: a segment of
  the content is stored at some offset, and at most one segment from that offset on is removed.
\<close>

definition stores_at :: "bytes \<Rightarrow> (u64, RcvValue) sorted_map \<Rightarrow> (u64, RcvValue) sorted_map \<Rightarrow> bool" where
  "stores_at W m m' \<longleftrightarrow> (\<exists>segs fo v. m' = sm_put segs fo v \<and> seg_of W fo (rv_data v) \<and>
     (segs = m \<or> (\<exists>k. segs = sm_remove m k \<and> fo \<le> k)))"

lemma trim_next_outcome:
  assumes W: "content_ok W" and m: "segs_of W m" and d: "seg_of W fo fd"
    and t: "trim_next m z off fo fd = Some (segs, z', fd')"
  shows "seg_of W fo fd' \<and> (segs = m \<or> (\<exists>k. segs = sm_remove m k \<and> fo \<le> k))"
proof (cases "\<exists>k v. sm_next m off = (k, Some v, True) \<and> unat k < unat fo + length fd")
  case False
  then have "trim_next m z off fo fd = Some (m, z, fd)"
    by (intro trim_next_clear[OF W d]) (auto simp: not_less simp del: sm_reads)
  then show ?thesis using t d by simp
next
  case True
  then obtain k v where n: "sm_next m off = (k, Some v, True)" "unat k < unat fo + length fd" by blast
  have "(k, v) \<in> set (sm_entries m)" using smc.next_least[OF n(1)] by (auto simp: smc.get_iff simp del: sm_reads)
  then have s: "seg_of W k (rv_data v)" using m by (fastforce simp: segs_of_def)
  have le: "unat fo \<le> unat k" using trim_next_panic[OF W s d n(1)] t by (metis not_less option.distinct(1))
  have "seg_of W fo (take (unat k - unat fo) fd)"
    using seg_of_slice[OF d, of 0 "unat k - unat fo" fo] n(2) by simp
  then show ?thesis
    using trim_next_overlap[OF W s d n(1) le n(2), of z] t d le by (auto simp: word_le_nat_alt split: if_splits)
qed

lemma Insert_outcome:
  assumes W: "content_ok W" and m: "segs_of W (segments (rcv_getOrCreateStream rb sid))" and d: "seg_of W off d"
    and i: "ReceiveBuffer_Insert rb sid off now d = Some (status, rb')"
  shows "\<exists>m'. rcv_streams rb' = (rcv_streams rb)(sid \<mapsto> (rcv_getOrCreateStream rb sid)\<lparr>segments := m'\<rparr>) \<and>
    (m' = segments (rcv_getOrCreateStream rb sid) \<or> stores_at W (segments (rcv_getOrCreateStream rb sid)) m')"
proof -
  let ?st = "rcv_getOrCreateStream rb sid" and ?m = "segments (rcv_getOrCreateStream rb sid)"
  have same: ?thesis if "rb' = rcv_put_stream rb sid ?st \<or> rb' = rcv_acked rb sid off d"
    using that by (intro exI[of _ ?m]) (auto simp: rcv_put_stream_def rcv_acked_def)
  have put: ?thesis if "rb' = rcv_stored rb sid off d now segs z fo fd" "seg_of W fo fd"
      "segs = ?m \<or> (\<exists>k. segs = sm_remove ?m k \<and> fo \<le> k)" for segs z fo fd
    using that by (intro exI[of _ "sm_put segs fo \<lparr>rv_data = fd, rv_receiveTimeNano = now\<rparr>"])
      (auto simp: rcv_put_stream_def rcv_acked_def rcv_stored_def stores_at_def fun_upd_def intro!: exI)
  have trim: ?thesis if t: "trim_prev ?m off d = Some (Some (fo, fd))" "seg_of W fo fd"
      "trim_next ?m (rcv_size rb) off fo fd = Some (segs, z, fd')" "rb' = rcv_stored rb sid off d now segs z fo fd'"
      for segs z fo fd fd'
    using put[OF t(4)] trim_next_outcome[OF W m t(2,3)] by blast
  have adj: "seg_of W fo fd" if "trim_prev ?m off d = Some (Some (fo, fd))" for fo fd
    using W m d
  proof (cases rule: trim_prev_cases)
    case (overlap k v)
    have "seg_of W k (rv_data v)" using m overlap(2) by (fastforce simp: segs_of_def)
    then have "unat (k + len64 (rv_data v)) = seg_end (k, v)" using seg_end_word[OF W] by simp
    then show ?thesis
      using that overlap seg_of_slice[OF d, of "seg_end (k, v) - unat off" "length d" fo] by auto
  qed (use that d in auto)
  show ?thesis
    using i same put[of "sm_remove ?m off" _ off d] d trim adj unfolding Insert_eq Let_def
    by (auto simp del: sm_reads split: if_splits option.splits prod.splits)
qed

section \<open>The buffer as a transition system\<close>

text \<open>
  Ghost state: the positions whose insertion was accepted, which are those acknowledged, and
  the bytes read.
\<close>

record rcv_sys =
  rs_buf :: ReceiveBuffer
  rs_arrived :: "u32 \<Rightarrow> nat set"
  rs_read :: "u32 \<Rightarrow> bytes"

datatype rcv_event =
    Insert_seg u32 u64 u64 bytes
  | Insert_empty u32 u64 u64
  | Close_at u32 u64
  | Read_next u32
  | Take_ack

definition rcv_init :: "int \<Rightarrow> rcv_sys" where
  "rcv_init capacity = \<lparr>rs_buf = NewReceiveBuffer capacity, rs_arrived = (\<lambda>_. {}), rs_read = (\<lambda>_. [])\<rparr>"

fun rcv_step :: "rcv_sys \<Rightarrow> rcv_event \<Rightarrow> rcv_sys option" where
  "rcv_step s (Insert_seg sid off now d) =
     (case ReceiveBuffer_Insert (rs_buf s) sid off now d of
        None \<Rightarrow> None
      | Some (status, rb) \<Rightarrow>
          Some (s\<lparr>rs_buf := rb,
                  rs_arrived := (if status = RcvInsertBufferFull then rs_arrived s
                    else (rs_arrived s)(sid := rs_arrived s sid \<union> data_range off d))\<rparr>))"
| "rcv_step s (Insert_empty sid off now) =
     Some (s\<lparr>rs_buf := snd (ReceiveBuffer_EmptyInsert (rs_buf s) sid off now)\<rparr>)"
| "rcv_step s (Close_at sid off) = Some (s\<lparr>rs_buf := ReceiveBuffer_Close (rs_buf s) sid off\<rparr>)"
| "rcv_step s (Read_next sid) =
     (case ReceiveBuffer_RemoveOldestInOrder (rs_buf s) sid of
        ((_, d, _), rb) \<Rightarrow>
          Some (s\<lparr>rs_buf := rb,
                  rs_read := (rs_read s)(sid := rs_read s sid @ (case d of None \<Rightarrow> [] | Some d \<Rightarrow> d))\<rparr>))"
| "rcv_step s Take_ack = Some (s\<lparr>rs_buf := snd (ReceiveBuffer_GetSndAck (rs_buf s))\<rparr>)"

text \<open>
  Two sets of calls, for a content \<open>W\<close> of the streams: any segment of it, and those segments
  that overlap at most one stored segment.
\<close>

definition contents_ok :: "(u32 \<Rightarrow> bytes) \<Rightarrow> bool" where
  "contents_ok W \<longleftrightarrow> (\<forall>sid. content_ok (W sid))"

fun any_segment :: "(u32 \<Rightarrow> bytes) \<Rightarrow> rcv_sys \<Rightarrow> rcv_event \<Rightarrow> bool" where
  "any_segment W s (Insert_seg sid off now d) = (contents_ok W \<and> seg_of (W sid) off d)"
| "any_segment W s _ = contents_ok W"

fun fitting_segment :: "(u32 \<Rightarrow> bytes) \<Rightarrow> rcv_sys \<Rightarrow> rcv_event \<Rightarrow> bool" where
  "fitting_segment W s (Insert_seg sid off now d) =
     (contents_ok W \<and> seg_of (W sid) off d \<and> d \<noteq> [] \<and> length d < 2 ^ 16 \<and>
      meets_one (rcv_getOrCreateStream (rs_buf s) sid) off d)"
| "fitting_segment W s _ = contents_ok W"

lemma fitting_any: "fitting_segment W s e \<Longrightarrow> any_segment W s e"
  by (cases e) auto

subsection \<open>What is read is a prefix of the content\<close>

definition read_inv :: "(u32 \<Rightarrow> bytes) \<Rightarrow> rcv_sys \<Rightarrow> bool" where
  "read_inv W s \<longleftrightarrow> (\<forall>sid. let st = rcv_getOrCreateStream (rs_buf s) sid in
     segs_of (W sid) (segments st) \<and> rcv_pos st \<le> length (W sid) \<and> rs_read s sid = take (rcv_pos st) (W sid))"

lemma rcv_streams_get: "rcv_streams rb' = (rcv_streams rb)(sid \<mapsto> st) \<Longrightarrow>
  rcv_getOrCreateStream rb' sid' = (if sid' = sid then st else rcv_getOrCreateStream rb sid')"
  by (simp add: rcv_getOrCreateStream_def)

lemma rcv_getOrCreate_simps [simp]:
  "rcv_getOrCreateStream (rcv_put_stream rb sid st) sid' = (if sid' = sid then st else rcv_getOrCreateStream rb sid')"
  "rcv_getOrCreateStream (rb\<lparr>rcv_size := z\<rparr>) sid' = rcv_getOrCreateStream rb sid'"
  "rcv_getOrCreateStream (rb\<lparr>ackList := as\<rparr>) sid' = rcv_getOrCreateStream rb sid'"
  "rcv_capacity (rcv_put_stream rb sid st) = rcv_capacity rb" "rcv_size (rcv_put_stream rb sid st) = rcv_size rb"
  "ackList (rcv_put_stream rb sid st) = ackList rb"
  by (simp_all add: rcv_getOrCreateStream_def rcv_put_stream_def)

lemma rcv_put_same [simp]:
  "rcv_getOrCreateStream (rcv_put_stream rb sid (rcv_getOrCreateStream rb sid)) sid' = rcv_getOrCreateStream rb sid'"
  by (simp add: rcv_getOrCreateStream_def rcv_put_stream_def)

lemma segs_of_put: "segs_of W m \<Longrightarrow> seg_of W k (rv_data v) \<Longrightarrow> segs_of W (sm_put m k v)"
  unfolding segs_of_def smc.set_put by auto

lemma segs_of_remove: "segs_of W m \<Longrightarrow> segs_of W (sm_remove m k)"
  unfolding segs_of_def smc.set_remove by auto

lemma segs_of_new: "segs_of W sm_new"
  by (simp add: segs_of_def)

lemma stores_at_segs: "stores_at W m m' \<Longrightarrow> segs_of W m \<Longrightarrow> segs_of W m'"
  unfolding stores_at_def using segs_of_put segs_of_remove by metis

text \<open>\<^verbatim>\<open>RemoveOldestInOrder\<close> either leaves everything or takes the segment at the read position.\<close>

lemma RemoveOldest_cases:
  obtains (none) "ReceiveBuffer_RemoveOldestInOrder rb sid = ((0, None, 0), rb)"
  | (taken) v where
      "ReceiveBuffer_RemoveOldestInOrder rb sid =
        ((nextInOrderOffsetToWaitFor (rcv_getOrCreateStream rb sid), Some (rv_data v), rv_receiveTimeNano v),
         (rcv_put_stream rb sid ((rcv_getOrCreateStream rb sid)
            \<lparr>segments := sm_remove (segments (rcv_getOrCreateStream rb sid))
                (nextInOrderOffsetToWaitFor (rcv_getOrCreateStream rb sid)),
             nextInOrderOffsetToWaitFor :=
               nextInOrderOffsetToWaitFor (rcv_getOrCreateStream rb sid) + len64 (rv_data v)\<rparr>))
         \<lparr>rcv_size := rcv_size rb - int (length (rv_data v))\<rparr>)"
      "(nextInOrderOffsetToWaitFor (rcv_getOrCreateStream rb sid), v) \<in> segs_at (rcv_getOrCreateStream rb sid)"
proof (cases "rcv_streams rb sid")
  case None
  then show thesis using none by (simp add: ReceiveBuffer_RemoveOldestInOrder_def)
next
  case (Some st)
  then have g: "rcv_getOrCreateStream rb sid = st" by (simp add: rcv_getOrCreateStream_def)
  obtain k v b where m: "sm_min (segments st) = (k, v, b)" by (metis prod.exhaust)
  show thesis
  proof (cases "b \<and> k = nextInOrderOffsetToWaitFor st")
    case True
    then have m': "sm_min (segments st) = (k, v, True)" using m by simp
    obtain w where w: "v = Some w" "(k, w) \<in> segs_at st"
      using smc.min_least[OF m'] by (auto simp: smc.get_iff simp del: sm_reads)
    then show thesis
      using taken[of w] True m Some unfolding g
      by (simp add: ReceiveBuffer_RemoveOldestInOrder_def Let_def del: sm_reads)
  next
    case False
    then show thesis
      using none m Some neighbour_result(3)[OF m]
      by (cases v) (auto simp: ReceiveBuffer_RemoveOldestInOrder_def simp del: sm_reads)
  qed
qed

lemma read_inv_stream:
  assumes "read_inv W s"
  shows "segs_of (W sid) (segments (rcv_getOrCreateStream (rs_buf s) sid))"
    "rcv_pos (rcv_getOrCreateStream (rs_buf s) sid) \<le> length (W sid)"
    "rs_read s sid = take (rcv_pos (rcv_getOrCreateStream (rs_buf s) sid)) (W sid)"
  using assms by (simp_all add: read_inv_def Let_def)

lemma Close_streams:
  "\<exists>st. ReceiveBuffer_Close rb sid off = rcv_put_stream rb sid st \<and>
     segments st = segments (rcv_getOrCreateStream rb sid) \<and>
     nextInOrderOffsetToWaitFor st = nextInOrderOffsetToWaitFor (rcv_getOrCreateStream rb sid)"
  by (auto simp: ReceiveBuffer_Close_def Let_def)

lemma GetSndAck_buf: "snd (ReceiveBuffer_GetSndAck rb) = rb\<lparr>ackList := tl (ackList rb)\<rparr>"
  by (cases rb) (auto simp: ReceiveBuffer_GetSndAck_def split: list.split)

lemma read_inv_step:
  assumes inv: "read_inv W s" and ok: "any_segment W s e" and step: "rcv_step s e = Some s'"
  shows "read_inv W s'"
proof (cases e)
  case (Insert_seg sid off now d)
  then obtain status rb where i: "ReceiveBuffer_Insert (rs_buf s) sid off now d = Some (status, rb)"
    and s': "rs_buf s' = rb" "rs_read s' = rs_read s"
    using step by (auto split: option.splits prod.splits)
  have W: "content_ok (W sid)" "seg_of (W sid) off d" using ok Insert_seg by (simp_all add: contents_ok_def)
  from Insert_outcome[OF W(1) read_inv_stream(1)[OF inv] W(2) i] obtain m' where
    m: "rcv_streams rb = (rcv_streams (rs_buf s))(sid \<mapsto> (rcv_getOrCreateStream (rs_buf s) sid)\<lparr>segments := m'\<rparr>)"
    "m' = segments (rcv_getOrCreateStream (rs_buf s) sid) \<or>
     stores_at (W sid) (segments (rcv_getOrCreateStream (rs_buf s) sid)) m'" by blast
  have "segs_of (W sid) m'" using m(2) read_inv_stream(1)[OF inv] stores_at_segs by blast
  then show ?thesis using inv s' by (simp add: read_inv_def Let_def rcv_streams_get[OF m(1)])
next
  case (Read_next sid)
  let ?st = "rcv_getOrCreateStream (rs_buf s) sid"
  show ?thesis
  proof (cases rule: RemoveOldest_cases[of "rs_buf s" sid])
    case none
    then show ?thesis using Read_next step inv by (auto simp: read_inv_def)
  next
    case (taken v)
    have W: "content_ok (W sid)" using ok Read_next by (simp add: contents_ok_def)
    have s: "seg_of (W sid) (nextInOrderOffsetToWaitFor ?st) (rv_data v)"
      using taken(2) read_inv_stream(1)[OF inv, of sid] by (fastforce simp: segs_of_def)
    have "take (rcv_pos ?st) (W sid) @ rv_data v = take (rcv_pos ?st + length (rv_data v)) (W sid)"
      using s by (simp add: take_add seg_of_def)
    then show ?thesis
      using Read_next step taken(1) inv seg_end_word[OF W s] s read_inv_stream(3)[OF inv, of sid]
        segs_of_remove[OF read_inv_stream(1)[OF inv, of sid]]
      by (auto simp: read_inv_def Let_def seg_of_def simp del: sm_entries_remove)
  qed
next
  case (Close_at sid off)
  then show ?thesis using step inv Close_streams[of "rs_buf s" sid off] by (auto simp: read_inv_def Let_def)
qed (use step inv in \<open>auto simp: read_inv_def Let_def ReceiveBuffer_EmptyInsert_def GetSndAck_buf\<close>)

lemma read_inv_init: "read_inv W (rcv_init capacity)"
  by (simp add: read_inv_def rcv_init_def NewReceiveBuffer_def rcv_getOrCreateStream_def NewRcvBuffer_def segs_of_new)

interpretation rcva: invariant_system "rcv_init (int c)" rcv_step "any_segment W" "read_inv W" for c W
  by unfold_locales (simp_all add: read_inv_init read_inv_step)

subsection \<open>Nothing that arrived is lost\<close>

definition ack_range :: "Ack \<Rightarrow> nat set" where
  "ack_range a = {unat (ack_offset a)..<unat (ack_offset a) + unat (ack_len a)}"

definition rcv_inv :: "(u32 \<Rightarrow> bytes) \<Rightarrow> rcv_sys \<Rightarrow> bool" where
  "rcv_inv W s \<longleftrightarrow>
     (\<forall>sid. rstream_inv (W sid) (rs_arrived s sid) (rcv_getOrCreateStream (rs_buf s) sid)) \<and>
     rcv_size (rs_buf s) = (\<Sum>sid \<in> UNIV. int (stored (segments (rcv_getOrCreateStream (rs_buf s) sid)))) \<and>
     rcv_size (rs_buf s) \<le> rcv_capacity (rs_buf s) \<and>
     (\<forall>a \<in> set (ackList (rs_buf s)). ack_range a \<subseteq> rs_arrived s (ack_streamID a))"

lemma rcv_inv_change:
  assumes inv: "rcv_inv W s" and st: "rstream_inv (W sid) A st" and A: "rs_arrived s sid \<subseteq> A"
    and z: "z = rcv_size (rs_buf s) - int (stored (segments (rcv_getOrCreateStream (rs_buf s) sid))) + int (stored (segments st))"
      "z \<le> rcv_capacity (rs_buf s)"
    and acks: "\<And>a. a \<in> set as \<Longrightarrow> a \<in> set (ackList (rs_buf s)) \<or> (ack_streamID a = sid \<and> ack_range a \<subseteq> A)"
    and s': "rs_buf s' = (rcv_put_stream (rs_buf s) sid st)\<lparr>ackList := as, rcv_size := z\<rparr>"
      "rs_arrived s' = (rs_arrived s)(sid := A)"
  shows "rcv_inv W s'"
proof -
  let ?f = "\<lambda>s sid. int (stored (segments (rcv_getOrCreateStream (rs_buf s) sid)))"
  have "(\<Sum>x \<in> UNIV. ?f s' x) = (\<Sum>x \<in> UNIV. ?f s x) - ?f s sid + ?f s' sid"
    by (rule sum_change_one) (simp add: s')
  then have "z = (\<Sum>x \<in> UNIV. ?f s' x)" using inv z(1) by (simp add: rcv_inv_def s')
  moreover have "ack_range a \<subseteq> rs_arrived s' (ack_streamID a)" if "a \<in> set as" for a
    using acks[OF that] inv A by (auto simp: rcv_inv_def s')
  ultimately show ?thesis
    using inv st z(2) by (simp add: rcv_inv_def s')
qed

lemma rstream_inv_read:
  assumes inv: "rstream_inv W A st" and e: "(nextInOrderOffsetToWaitFor st, v) \<in> segs_at st"
  shows "rstream_inv W A (st\<lparr>segments := sm_remove (segments st) (nextInOrderOffsetToWaitFor st),
    nextInOrderOffsetToWaitFor := nextInOrderOffsetToWaitFor st + len64 (rv_data v)\<rparr>)" (is "rstream_inv W A ?st")
proof -
  let ?n = "nextInOrderOffsetToWaitFor st"
  have E: "segs_at ?st = segs_at st - {(?n, v)}" using entries_remove[OF e] by simp
  have s: "seg_of W ?n (rv_data v)" by (rule rstream_seg[OF inv e])
  have pos: "rcv_pos ?st = rcv_pos st + length (rv_data v)" using seg_end_word[OF rstream_invD(1)[OF inv] s] by simp
  have "{..<rcv_pos ?st} = {..<rcv_pos st} \<union> seg_range (?n, v)" using pos by (auto simp: seg_range_def)
  then have "{..<rcv_pos ?st} \<union> \<Union> (seg_range ` segs_at ?st) = A"
    using rstream_invD(6)[OF inv] e unfolding E by blast
  moreover have "segs_of W (segments ?st)" using segs_of_remove[OF rstream_invD(3)[OF inv]] by simp
  moreover have "rcv_pos ?st \<le> length W" using pos s by (simp add: seg_of_def)
  moreover have "\<forall>f \<in> segs_at ?st. rv_data (snd f) \<noteq> []"
    using rstream_invD(4)[OF inv] unfolding E by blast
  moreover have "\<forall>e \<in> segs_at ?st. \<forall>f \<in> segs_at ?st. e \<noteq> f \<longrightarrow> disjnt (seg_range e) (seg_range f)"
    using rstream_invD(5)[OF inv] unfolding E by blast
  ultimately show ?thesis using rstream_invD(1)[OF inv] unfolding rstream_inv_def by blast
qed

lemma ack_range_mkAck: "length d < 2 ^ 16 \<Longrightarrow> ack_range (mkAck sid off (word_of_nat (length d))) = data_range off d"
  by (simp add: ack_range_def mkAck_def data_range_def unat_of_nat_small)

lemma rcv_inv_stream: "rcv_inv W s \<Longrightarrow> rstream_inv (W sid) (rs_arrived s sid) (rcv_getOrCreateStream (rs_buf s) sid)"
  by (simp add: rcv_inv_def)

lemma rcv_inv_insert:
  assumes inv: "rcv_inv W s" and ok: "fitting_segment W s (Insert_seg sid off now d)"
  shows "\<exists>s'. rcv_step s (Insert_seg sid off now d) = Some s' \<and> rcv_inv W s'"
proof (cases "rcv_size (rs_buf s) + int (length d) \<le> rcv_capacity (rs_buf s)")
  case False
  then have "ReceiveBuffer_Insert (rs_buf s) sid off now d =
      Some (RcvInsertBufferFull, rcv_put_stream (rs_buf s) sid (rcv_getOrCreateStream (rs_buf s) sid))"
    by (simp add: Insert_eq)
  then show ?thesis using inv by (auto simp: rcv_inv_def simp del: rcv_getOrCreate_simps(1))
next
  case True
  let ?rb = "rs_buf s" and ?st = "rcv_getOrCreateStream (rs_buf s) sid" and ?A = "rs_arrived s sid \<union> data_range off d"
  note st = rcv_inv_stream[OF inv, of sid]
  have d: "seg_of (W sid) off d" "d \<noteq> []" "meets_one ?st off d" "length d < 2 ^ 16" using ok by simp_all
  have ack: "a \<in> set (ackList ?rb) \<or> (ack_streamID a = sid \<and> ack_range a \<subseteq> ?A)"
    if "a \<in> set (ackList ?rb @ [mkAck sid off (word_of_nat (length d))])" for a
    using that ack_range_mkAck[OF d(4), of sid off] by (auto simp: mkAck_def)
  note change = rcv_inv_change[OF inv, where A = ?A and sid = sid and
    as = "ackList ?rb @ [mkAck sid off (word_of_nat (length d))]", OF _ _ _ _ ack]
  have cap: "rcv_size ?rb \<le> rcv_capacity ?rb" using inv by (simp add: rcv_inv_def)
  from Insert_fit[OF st d(1-3) True, of now] consider
      "ReceiveBuffer_Insert ?rb sid off now d = Some (RcvInsertDuplicate, rcv_acked ?rb sid off d)" "data_range off d \<subseteq> rs_arrived s sid"
    | segs z fo fd where "store_ok (W sid) ?st off d segs z fo fd"
      "ReceiveBuffer_Insert ?rb sid off now d = Some (RcvInsertOk, rcv_stored ?rb sid off d now segs (rcv_size ?rb + z) fo fd)"
    unfolding insert_fits_def by blast
  then show ?thesis
  proof cases
    case 1
    then have "?A = rs_arrived s sid" by blast
    then have "rcv_inv W (s\<lparr>rs_buf := rcv_acked ?rb sid off d, rs_arrived := (rs_arrived s)(sid := ?A)\<rparr>)"
      using st cap by (intro change[where z = "rcv_size ?rb" and st = ?st]) (simp_all add: rcv_acked_def rcv_put_stream_def)
    then show ?thesis using 1(1) by simp
  next
    case (2 segs z fo fd)
    have le: "rcv_size ?rb + z + int (length fd) \<le> rcv_capacity ?rb" using 2(1) True by (simp add: store_ok_def)
    note si = store_inv[OF st 2(1), of now]
    have "rcv_inv W (s\<lparr>rs_buf := rcv_stored ?rb sid off d now segs (rcv_size ?rb + z) fo fd,
        rs_arrived := (rs_arrived s)(sid := ?A)\<rparr>)"
      using si(2) le by (intro change[OF si(1), where z = "rcv_size ?rb + z + int (length fd)"])
        (simp_all add: rcv_stored_eq)
    then show ?thesis using 2(2) by simp
  qed
qed

lemma rcv_inv_read:
  assumes inv: "rcv_inv W s"
  shows "\<exists>s'. rcv_step s (Read_next sid) = Some s' \<and> rcv_inv W s'"
proof (cases rule: RemoveOldest_cases[of "rs_buf s" sid])
  case none
  then show ?thesis using inv by (simp add: rcv_inv_def)
next
  case (taken v)
  let ?rb = "rs_buf s" and ?st = "rcv_getOrCreateStream (rs_buf s) sid"
  let ?n = "nextInOrderOffsetToWaitFor ?st"
  let ?st' = "?st\<lparr>segments := sm_remove (segments ?st) ?n, nextInOrderOffsetToWaitFor := ?n + len64 (rv_data v)\<rparr>"
  let ?z = "rcv_size ?rb - int (length (rv_data v))"
  define s' where "s' = s\<lparr>rs_buf := (rcv_put_stream ?rb sid ?st')\<lparr>rcv_size := ?z\<rparr>,
    rs_read := (rs_read s)(sid := rs_read s sid @ rv_data v)\<rparr>"
  have "rcv_inv W s'"
  proof (rule rcv_inv_change[OF inv rstream_inv_read[OF rcv_inv_stream[OF inv] taken(2)] order.refl])
    show "?z = rcv_size ?rb - int (stored (segments ?st)) + int (stored (segments ?st'))"
      using stored_remove[OF taken(2)] by simp
    show "?z \<le> rcv_capacity ?rb" using inv unfolding rcv_inv_def by linarith
    show "rs_buf s' = (rcv_put_stream ?rb sid ?st')\<lparr>ackList := ackList ?rb, rcv_size := ?z\<rparr>"
      by (simp add: s'_def rcv_put_stream_def)
  qed (simp_all add: s'_def)
  then show ?thesis using taken(1) by (simp add: s'_def)
qed

lemma rcv_inv_step:
  assumes inv: "rcv_inv W s" and ok: "fitting_segment W s e"
  shows "\<exists>s'. rcv_step s e = Some s' \<and> rcv_inv W s'"
proof (cases e)
  case (Insert_seg sid off now d)
  then show ?thesis using rcv_inv_insert[OF inv] ok by simp
next
  case (Read_next sid)
  then show ?thesis using rcv_inv_read[OF inv] by simp
next
  case (Insert_empty sid off now)
  then show ?thesis using inv by (auto simp: rcv_inv_def ReceiveBuffer_EmptyInsert_def mkAck_def ack_range_def)
next
  case (Close_at sid off)
  obtain st where st: "ReceiveBuffer_Close (rs_buf s) sid off = rcv_put_stream (rs_buf s) sid st"
    "segments st = segments (rcv_getOrCreateStream (rs_buf s) sid)"
    "nextInOrderOffsetToWaitFor st = nextInOrderOffsetToWaitFor (rcv_getOrCreateStream (rs_buf s) sid)"
    using Close_streams by blast
  have "rstream_inv (W sid) (rs_arrived s sid) st"
    using rcv_inv_stream[OF inv, of sid] st(2,3) by (simp add: rstream_inv_def)
  then have "rcv_inv W (s\<lparr>rs_buf := rcv_put_stream (rs_buf s) sid st\<rparr>)"
    using inv st(2)
    by (intro rcv_inv_change[OF inv _ order.refl, where z = "rcv_size (rs_buf s)" and as = "ackList (rs_buf s)" and st = st and sid = sid])
      (simp_all add: rcv_put_stream_def rcv_inv_def)
  then show ?thesis using Close_at st(1) by simp
next
  case Take_ack
  have "set (tl xs) \<subseteq> set xs" for xs :: "Ack list" by (cases xs) auto
  then show ?thesis using Take_ack inv by (fastforce simp: rcv_inv_def GetSndAck_buf)
qed

lemma rcv_inv_init: "contents_ok W \<Longrightarrow> 0 \<le> capacity \<Longrightarrow> rcv_inv W (rcv_init capacity)"
  by (simp add: rcv_inv_def rcv_init_def NewReceiveBuffer_def rcv_getOrCreateStream_def NewRcvBuffer_def
      rstream_inv_def contents_ok_def segs_of_new stored_def)

lemma fitting_contents: "fitting_segment W s e \<Longrightarrow> contents_ok W"
  by (cases e) simp_all

interpretation rcvf: safe_system "rcv_init (int c)" rcv_step "fitting_segment W"
  "\<lambda>s. contents_ok W \<longrightarrow> rcv_inv W s" for c W
  by unfold_locales (use rcv_inv_init[of W "int c"] rcv_inv_step[of W] fitting_contents[of W] in fastforce)+

definition rcv_any :: "nat \<Rightarrow> (u32 \<Rightarrow> bytes) \<Rightarrow> rcv_sys \<Rightarrow> bool" where
  "rcv_any c W = reachable (rcv_init (int c)) (guarded (any_segment W) rcv_step)"

definition rcv_fitting :: "nat \<Rightarrow> (u32 \<Rightarrow> bytes) \<Rightarrow> rcv_sys \<Rightarrow> bool" where
  "rcv_fitting c W = reachable (rcv_init (int c)) (guarded (fitting_segment W) rcv_step)"

lemma rcv_fitting_any: "rcv_fitting c W s \<Longrightarrow> rcv_any c W s"
  unfolding rcv_fitting_def rcv_any_def by (erule reachable_weaken) (rule fitting_any)

lemma rcv_any_inv: "rcv_any c W s \<Longrightarrow> read_inv W s"
  unfolding rcv_any_def by (rule rcva.reachable_inv)

lemma rcv_fitting_inv: "contents_ok W \<Longrightarrow> rcv_fitting c W s \<Longrightarrow> rcv_inv W s"
  using rcvf.reachable_inv[of c W s] by (simp add: rcv_fitting_def)

subsection \<open>Reading\<close>

text \<open>Some stored segment starts below the read position.\<close>

definition stale :: "RcvBuffer \<Rightarrow> bool" where
  "stale st \<longleftrightarrow> (\<exists>e \<in> segs_at st. fst e < nextInOrderOffsetToWaitFor st)"

lemma not_stale: "\<not> stale st \<Longrightarrow> e \<in> segs_at st \<Longrightarrow> rcv_pos st \<le> seg_start e"
  unfolding stale_def by (meson not_less word_le_nat_alt)

text \<open>If the byte at the read position has arrived, the next read returns it, unless a segment is stale.\<close>

lemma rstream_next_stored:
  assumes inv: "rstream_inv W A st" and fresh: "\<not> stale st" and a: "rcv_pos st \<in> A"
  shows "\<exists>v. (nextInOrderOffsetToWaitFor st, v) \<in> segs_at st"
proof -
  obtain k v where e: "(k, v) \<in> segs_at st" "rcv_pos st \<in> seg_range (k, v)"
    using a rstream_invD(6)[OF inv] by fastforce
  then have "unat k = rcv_pos st" using not_stale[OF fresh e(1)] by (simp add: seg_range_def)
  then show ?thesis using e(1) by (metis word_unat_eq_iff)
qed

lemma RemoveOldest_next:
  assumes inv: "rstream_inv W A (rcv_getOrCreateStream rb sid)" and fresh: "\<not> stale (rcv_getOrCreateStream rb sid)"
    and a: "rcv_pos (rcv_getOrCreateStream rb sid) \<in> A"
  shows "ReceiveBuffer_RemoveOldestInOrder rb sid \<noteq> ((0, None, 0), rb)"
proof -
  let ?st = "rcv_getOrCreateStream rb sid"
  obtain v where v: "(nextInOrderOffsetToWaitFor ?st, v) \<in> segs_at ?st" using rstream_next_stored[OF assms] by blast
  then have some: "rcv_streams rb sid = Some ?st"
    by (auto simp: rcv_getOrCreateStream_def NewRcvBuffer_def split: option.splits)
  obtain k w b where m: "sm_min (segments ?st) = (k, w, b)" by (metis prod.exhaust)
  have b using m v by (auto simp: entry_result_def split: list.splits)
  then have m': "sm_min (segments ?st) = (k, w, True)" using m by simp
  obtain w' where w: "w = Some w'" "(k, w') \<in> segs_at ?st" "k \<le> nextInOrderOffsetToWaitFor ?st"
    using smc.min_least[OF m'] v by (auto simp: smc.get_iff simp del: sm_reads)
  have "rcv_pos ?st \<le> unat k" using not_stale[OF fresh w(2)] by simp
  then have "k = nextInOrderOffsetToWaitFor ?st" using w(3) by (simp add: word_le_nat_alt word_unat_eq_iff)
  then show ?thesis
    using some m' w(1) by (simp add: ReceiveBuffer_RemoveOldestInOrder_def Let_def del: sm_reads)
qed

lemma not_stale_read:
  assumes inv: "rstream_inv W A st" and fresh: "\<not> stale st" and e: "(nextInOrderOffsetToWaitFor st, v) \<in> segs_at st"
  shows "\<not> stale (st\<lparr>segments := sm_remove (segments st) (nextInOrderOffsetToWaitFor st),
    nextInOrderOffsetToWaitFor := nextInOrderOffsetToWaitFor st + len64 (rv_data v)\<rparr>)" (is "\<not> stale ?st")
proof -
  let ?n = "nextInOrderOffsetToWaitFor st"
  have E: "segs_at ?st = segs_at st - {(?n, v)}" using entries_remove[OF e] by simp
  have pos: "rcv_pos ?st = rcv_pos st + length (rv_data v)"
    using seg_end_word[OF rstream_invD(1)[OF inv] rstream_seg[OF inv e]] by simp
  have "rcv_pos ?st \<le> seg_start f" if f: "f \<in> segs_at st" "f \<noteq> (?n, v)" for f
    using rstream_invD(5)[OF inv f(1) e f(2)] rstream_invD(4)[OF inv f(1)] rstream_invD(4)[OF inv e] not_stale[OF fresh f(1)] pos
    by (auto simp: seg_range_def disjnt_ivl simp flip: length_greater_0_conv)
  then show ?thesis unfolding stale_def E by (auto simp: word_less_nat_alt not_less)
qed

lemma read_pos: "read_inv W s \<Longrightarrow> rcv_pos (rcv_getOrCreateStream (rs_buf s) sid) = length (rs_read s sid)"
  using read_inv_stream(2,3)[of W s sid] by (simp add: min_def)

lemma Read_next_grows: "\<exists>s'. rcv_step s (Read_next sid) = Some s' \<and> length (rs_read s sid) \<le> length (rs_read s' sid)"
  by (auto split: prod.splits)

lemma reads_keep:
  assumes "read_inv W s" and "contents_ok W" and "n \<le> length (rs_read s sid)"
  shows "\<exists>s'. run rcv_step s (replicate k (Read_next sid)) = Some s' \<and> take n (rs_read s' sid) = take n (W sid)"
  using assms
proof (induction k arbitrary: s)
  case 0
  let ?p = "rcv_pos (rcv_getOrCreateStream (rs_buf s) sid)"
  have "n \<le> ?p" using 0(3) by (simp only: read_pos[OF 0(1)])
  moreover have "take n (rs_read s sid) = take n (take ?p (W sid))" by (simp only: read_inv_stream(3)[OF 0(1), of sid])
  ultimately show ?case by (simp add: min_def)
next
  case (Suc k)
  obtain s1 where s1: "rcv_step s (Read_next sid) = Some s1" "length (rs_read s sid) \<le> length (rs_read s1 sid)"
    using Read_next_grows by blast
  have "read_inv W s1" by (rule read_inv_step[OF Suc.prems(1) _ s1(1)]) (simp add: Suc.prems(2))
  then show ?case using Suc.IH[of s1] Suc.prems(2,3) s1 by (simp del: rcv_step.simps)
qed

lemma reads_end:
  assumes "rcv_inv W s" and "read_inv W s" and "contents_ok W" and "{..<n} \<subseteq> rs_arrived s sid"
    and "card (segs_at (rcv_getOrCreateStream (rs_buf s) sid)) \<le> k" and "\<not> stale (rcv_getOrCreateStream (rs_buf s) sid)"
  shows "\<exists>s'. run rcv_step s (replicate k (Read_next sid)) = Some s' \<and> take n (rs_read s' sid) = take n (W sid)"
  using assms
proof (induction k arbitrary: s)
  case 0
  then have "rs_arrived s sid = {..<length (rs_read s sid)}"
    using rstream_invD(6)[OF rcv_inv_stream[OF 0(1), of sid]] read_pos[OF 0(2), of sid] by auto
  then have "n \<le> length (rs_read s sid)" using 0(4) by (metis lessThan_subset_iff)
  then show ?case by (rule reads_keep[OF 0(2,3)])
next
  case (Suc k)
  let ?st = "rcv_getOrCreateStream (rs_buf s) sid"
  show ?case
  proof (cases "n \<le> length (rs_read s sid)")
    case False
    then have a: "rcv_pos ?st \<in> rs_arrived s sid" using Suc.prems(4) read_pos[OF Suc.prems(2), of sid] by auto
    obtain s1 where s1: "rcv_step s (Read_next sid) = Some s1" "rcv_inv W s1"
      using rcv_inv_read[OF Suc.prems(1)] by blast
    have r1: "read_inv W s1" by (rule read_inv_step[OF Suc.prems(2) _ s1(1)]) (simp add: Suc.prems(3))
    have a1: "rs_arrived s1 = rs_arrived s" using s1(1) by (auto split: prod.splits)
    have "card (segs_at (rcv_getOrCreateStream (rs_buf s1) sid)) \<le> k \<and> \<not> stale (rcv_getOrCreateStream (rs_buf s1) sid)"
    proof (cases rule: RemoveOldest_cases[of "rs_buf s" sid])
      case (taken v)
      have "rs_buf s1 = snd (ReceiveBuffer_RemoveOldestInOrder (rs_buf s) sid)" using s1(1) by (auto split: prod.splits)
      then have st1: "rcv_getOrCreateStream (rs_buf s1) sid = ?st\<lparr>segments := sm_remove (segments ?st) (nextInOrderOffsetToWaitFor ?st),
          nextInOrderOffsetToWaitFor := nextInOrderOffsetToWaitFor ?st + len64 (rv_data v)\<rparr>"
        by (simp add: taken(1))
      have "segs_at (rcv_getOrCreateStream (rs_buf s1) sid) = segs_at ?st - {(nextInOrderOffsetToWaitFor ?st, v)}"
        unfolding st1 using entries_remove[OF taken(2)] by simp
      then show ?thesis
        using Suc.prems(5) taken(2) not_stale_read[OF rcv_inv_stream[OF Suc.prems(1)] Suc.prems(6) taken(2)] unfolding st1[symmetric]
        by (simp add: card_Diff_singleton)
    qed (use RemoveOldest_next[OF rcv_inv_stream[OF Suc.prems(1)] Suc.prems(6) a] in simp)
    then show ?thesis using Suc.IH[OF s1(2) r1 Suc.prems(3)] Suc.prems(4) a1 s1(1) by (simp del: rcv_step.simps)
  qed (rule reads_keep[OF Suc.prems(2,3)])
qed

subsection \<open>Stale segments\<close>

lemma stale_no_read:
  assumes "stale (rcv_getOrCreateStream rb sid)"
  shows "ReceiveBuffer_RemoveOldestInOrder rb sid = ((0, None, 0), rb)"
proof -
  let ?st = "rcv_getOrCreateStream rb sid"
  obtain e where e: "e \<in> segs_at ?st" "fst e < nextInOrderOffsetToWaitFor ?st" using assms by (auto simp: stale_def)
  obtain k v b where m: "sm_min (segments ?st) = (k, v, b)" by (metis prod.exhaust)
  have b using m e(1) by (auto simp: entry_result_def split: list.splits)
  then have "k \<le> fst e" using smc.min_least[of "segments ?st" k v] m e(1) by auto
  then have "k \<noteq> nextInOrderOffsetToWaitFor ?st" using e(2) by auto
  moreover have "rcv_streams rb sid = Some ?st"
    using e(1) by (auto simp: rcv_getOrCreateStream_def NewRcvBuffer_def split: option.splits)
  ultimately show ?thesis
    using m by (cases v) (auto simp: ReceiveBuffer_RemoveOldestInOrder_def simp del: sm_reads split: bool.splits)
qed

lemma stale_reads: "stale (rcv_getOrCreateStream (rs_buf s) sid) \<Longrightarrow> run rcv_step s (replicate k (Read_next sid)) = Some s"
  by (induction k) (simp_all add: stale_no_read)

lemma stores_at_stale:
  assumes st: "stores_at W (segments st) m'" and e: "stale st"
  shows "stale (st\<lparr>segments := m'\<rparr>)"
proof -
  obtain segs fo v where m: "m' = sm_put segs fo v" "segs = segments st \<or> (\<exists>k. segs = sm_remove (segments st) k \<and> fo \<le> k)"
    using st unfolding stores_at_def by blast
  obtain f where f: "f \<in> segs_at st" "fst f < nextInOrderOffsetToWaitFor st" using e by (auto simp: stale_def)
  have E: "set (sm_entries m') = insert (fo, v) {e \<in> set (sm_entries segs). fst e \<noteq> fo}" using m(1) smc.set_put by simp
  show ?thesis
  proof (cases "fo < nextInOrderOffsetToWaitFor st")
    case True
    then show ?thesis by (simp add: stale_def E)
  next
    case False
    then have "f \<in> set (sm_entries segs) \<and> fst f \<noteq> fo" using m(2) f smc.set_remove[of "segments st"] by fastforce
    then show ?thesis using f(2) unfolding stale_def by (intro bexI[of _ f]) (simp_all add: E)
  qed
qed

lemma stale_step:
  assumes inv: "read_inv W s" and ok: "any_segment W s e" and step: "rcv_step s e = Some s'"
    and stale: "stale (rcv_getOrCreateStream (rs_buf s) sid)"
  shows "stale (rcv_getOrCreateStream (rs_buf s') sid) \<and> rs_read s' sid = rs_read s sid"
proof (cases e)
  case (Insert_seg sid' off now d)
  then obtain status rb where i: "ReceiveBuffer_Insert (rs_buf s) sid' off now d = Some (status, rb)"
    and s': "rs_buf s' = rb" "rs_read s' = rs_read s"
    using step by (auto split: option.splits prod.splits)
  have W: "content_ok (W sid')" "seg_of (W sid') off d" using ok Insert_seg by (simp_all add: contents_ok_def)
  from Insert_outcome[OF W(1) read_inv_stream(1)[OF inv] W(2) i] obtain m' where
    m: "rcv_streams rb = (rcv_streams (rs_buf s))(sid' \<mapsto> (rcv_getOrCreateStream (rs_buf s) sid')\<lparr>segments := m'\<rparr>)"
    "m' = segments (rcv_getOrCreateStream (rs_buf s) sid') \<or>
     stores_at (W sid') (segments (rcv_getOrCreateStream (rs_buf s) sid')) m'" by blast
  show ?thesis using m(2) stale stores_at_stale s' by (auto simp: rcv_streams_get[OF m(1)])
next
  case (Read_next sid')
  then show ?thesis
    using step stale stale_no_read by (cases "sid' = sid"; cases rule: RemoveOldest_cases[of "rs_buf s" sid']) auto
next
  case (Close_at sid' off)
  obtain st where st: "ReceiveBuffer_Close (rs_buf s) sid' off = rcv_put_stream (rs_buf s) sid' st"
    "segments st = segments (rcv_getOrCreateStream (rs_buf s) sid')"
    "nextInOrderOffsetToWaitFor st = nextInOrderOffsetToWaitFor (rcv_getOrCreateStream (rs_buf s) sid')"
    using Close_streams by blast
  then have "stale st = stale (rcv_getOrCreateStream (rs_buf s) sid')" by (simp add: stale_def)
  then show ?thesis using step stale Close_at st(1) by auto
qed (use step stale in \<open>auto simp: ReceiveBuffer_EmptyInsert_def GetSndAck_buf\<close>)

section \<open>Properties\<close>

lemma rcv_any_run: "run (guarded (any_segment W) rcv_step) (rcv_init (int c)) es = Some s \<Longrightarrow> rcv_any c W s"
  unfolding rcv_any_def by (rule run_reachable[OF reachable_init])

lemma rcv_fitting_run: "run (guarded (fitting_segment W) rcv_step) (rcv_init (int c)) es = Some s \<Longrightarrow> rcv_fitting c W s"
  unfolding rcv_fitting_def by (rule run_reachable[OF reachable_init])

text \<open>A stream of four bytes, and the buffer with its second half and then with all of it.\<close>

definition demo_content :: "u32 \<Rightarrow> bytes" where
  "demo_content sid = [1, 2, 3, 4]"

definition demo_half :: rcv_sys where
  "demo_half =
     \<lparr>rs_buf = \<lparr>rcv_streams = [7 \<mapsto> \<lparr>segments = sm_put sm_new 2 \<lparr>rv_data = [3, 4], rv_receiveTimeNano = 5\<rparr>,
          nextInOrderOffsetToWaitFor = 0, rcv_closeAtOffset = None\<rparr>],
        rcv_capacity = 100, rcv_size = 2, ackList = [mkAck 7 2 2]\<rparr>,
      rs_arrived = (\<lambda>_. {})(7 := {2..<4}), rs_read = (\<lambda>_. [])\<rparr>"

definition demo_all :: rcv_sys where
  "demo_all =
     \<lparr>rs_buf = \<lparr>rcv_streams = [7 \<mapsto> \<lparr>segments = sm_put (sm_put sm_new 2 \<lparr>rv_data = [3, 4], rv_receiveTimeNano = 5\<rparr>)
            0 \<lparr>rv_data = [1, 2], rv_receiveTimeNano = 6\<rparr>,
          nextInOrderOffsetToWaitFor = 0, rcv_closeAtOffset = None\<rparr>],
        rcv_capacity = 100, rcv_size = 4, ackList = [mkAck 7 2 2, mkAck 7 0 2]\<rparr>,
      rs_arrived = (\<lambda>_. {})(7 := {2..<4} \<union> {0..<Suc (Suc 0)}), rs_read = (\<lambda>_. [])\<rparr>"

lemma demo_contents_ok: "contents_ok demo_content"
  by (simp add: contents_ok_def content_ok_def demo_content_def)

lemmas rcv_eval = ReceiveBuffer_Insert_def trim_prev_def trim_next_def go_slice_def rcv_put_stream_def
  rcv_getOrCreateStream_def NewRcvBuffer_def NewReceiveBuffer_def rcv_init_def guarded_def seg_of_def
  demo_content_def demo_half_def demo_all_def data_range_def entry_result_def Let_def
  meets_one_def seg_range_def disjnt_ivl sl_prev_def sl_next_def sl_put_def sl_remove_def

lemma demo_half_reachable: "rcv_fitting 100 demo_content demo_half"
  by (rule rcv_fitting_run[where es = "[Insert_seg 7 2 5 [3, 4]]"])
     (simp add: demo_contents_ok rcv_eval)

lemma demo_all_reachable: "rcv_fitting 100 demo_content demo_all"
  by (rule rcv_fitting_run[where es = "[Insert_seg 7 2 5 [3, 4], Insert_seg 7 0 6 [1, 2]]"])
     (simp add: demo_contents_ok rcv_eval)

text \<open>
  For any content of the streams and any sequence of inserted segments of that content, in
  any order and with any duplicates and overlaps, mixed with reads and closes, the bytes read
  from a stream are a prefix of its content.
\<close>
theorem receive_prefix:
  assumes "rcv_any c W s"
  shows "\<exists>rest. W sid = rs_read s sid @ rest"
  using read_inv_stream(3)[OF rcv_any_inv[OF assms], of sid] by (metis append_take_drop_id)

theorem receive_prefix_witness: "\<exists>rest. demo_content 7 = rs_read demo_all 7 @ rest"
  by (rule receive_prefix[OF rcv_fitting_any[OF demo_all_reachable]])

text \<open>
  C12: As long as every inserted segment of the content is non-empty, shorter than 65536 bytes and
  overlaps at most one stored segment, whatever it overlaps of the bytes already read, no call
  panics, what is stored and read is exactly what arrived, the stored bytes are those of the
  content, and every acknowledgement in the list is for bytes that arrived: nothing
  acknowledged is lost. Whether it can also be read depends on where the stored segments start.
\<close>
theorem receive_keeps_acknowledged:
  assumes "contents_ok W" and "rcv_fitting c W s"
  shows "rs_arrived s sid = {..<length (rs_read s sid)} \<union>
      \<Union> (seg_range ` segs_at (rcv_getOrCreateStream (rs_buf s) sid)) \<and>
    segs_of (W sid) (segments (rcv_getOrCreateStream (rs_buf s) sid)) \<and>
    (\<forall>a \<in> set (ackList (rs_buf s)). ack_range a \<subseteq> rs_arrived s (ack_streamID a)) \<and>
    (fitting_segment W s e \<longrightarrow> rcv_step s e \<noteq> None)"
proof (intro conjI impI)
  note inv = rcv_fitting_inv[OF assms]
  show "rs_arrived s sid = {..<length (rs_read s sid)} \<union>
      \<Union> (seg_range ` segs_at (rcv_getOrCreateStream (rs_buf s) sid))"
    using rstream_invD(6)[OF rcv_inv_stream[OF inv, of sid]] read_pos[OF rcv_any_inv[OF rcv_fitting_any[OF assms(2)]], of sid]
    by simp
  show "segs_of (W sid) (segments (rcv_getOrCreateStream (rs_buf s) sid))"
    by (rule rstream_invD(3)[OF rcv_inv_stream[OF inv]])
  show "\<forall>a \<in> set (ackList (rs_buf s)). ack_range a \<subseteq> rs_arrived s (ack_streamID a)"
    using inv by (simp add: rcv_inv_def)
  show "rcv_step s e \<noteq> None" if "fitting_segment W s e"
    using rcv_inv_step[OF inv that] by fastforce
qed

theorem receive_keeps_acknowledged_witness:
  "ack_range (mkAck 7 2 2) \<subseteq> rs_arrived demo_all 7 \<and> rcv_step demo_all (Read_next 7) \<noteq> None"
proof -
  have "mkAck 7 2 2 \<in> set (ackList (rs_buf demo_all))" "ack_streamID (mkAck 7 2 2) = 7"
    "fitting_segment demo_content demo_all (Read_next 7)"
    by (simp_all add: demo_contents_ok demo_all_def mkAck_def)
  then show ?thesis
    using receive_keeps_acknowledged[OF demo_contents_ok demo_all_reachable, of 7 "Read_next 7"] by metis
qed

text \<open>
  The size counter of the receive buffer is the number of bytes stored in all streams, and
  it never exceeds the capacity.
\<close>
theorem receive_size_accounting:
  assumes "contents_ok W" and "rcv_fitting c W s"
  shows "rcv_size (rs_buf s) = (\<Sum>sid \<in> UNIV. int (stored (segments (rcv_getOrCreateStream (rs_buf s) sid)))) \<and>
    0 \<le> ReceiveBuffer_Available (rs_buf s)"
  using rcv_fitting_inv[OF assms] by (simp add: rcv_inv_def ReceiveBuffer_Available_def)

theorem receive_size_accounting_witness: "0 \<le> ReceiveBuffer_Available (rs_buf demo_half)"
  using receive_size_accounting[OF demo_contents_ok demo_half_reachable] by (rule conjunct2)

text \<open>
  Everything that arrived without a gap can be read: if the first \<open>n\<close> bytes have arrived, as
  many reads as there are stored segments return them, unless a stored segment is stale.
\<close>
theorem receive_drains:
  assumes "contents_ok W" and "rcv_fitting c W s" and "{..<n} \<subseteq> rs_arrived s sid"
    and "\<not> stale (rcv_getOrCreateStream (rs_buf s) sid)"
  shows "\<exists>s'. run rcv_step s (replicate (sm_size (segments (rcv_getOrCreateStream (rs_buf s) sid))) (Read_next sid)) = Some s' \<and>
    take n (rs_read s' sid) = take n (W sid)"
proof (rule reads_end[OF rcv_fitting_inv[OF assms(1,2)] rcv_any_inv[OF rcv_fitting_any[OF assms(2)]] assms(1,3) _ assms(4)])
  show "card (segs_at (rcv_getOrCreateStream (rs_buf s) sid)) \<le> sm_size (segments (rcv_getOrCreateStream (rs_buf s) sid))"
    by (simp add: card_length)
qed

theorem receive_drains_witness:
  "\<exists>s'. run rcv_step demo_all (replicate (sm_size (segments (rcv_getOrCreateStream (rs_buf demo_all) 7))) (Read_next 7)) = Some s' \<and>
    take 4 (rs_read s' 7) = take 4 (demo_content 7)"
  by (rule receive_drains[OF demo_contents_ok demo_all_reachable]) (auto simp: demo_all_def stale_def rcv_eval)

text \<open>
  An insertion is refused exactly when it would exceed the capacity, and then nothing is
  acknowledged or stored; otherwise an acknowledgement of the segment is added at the end of the
  list, also for duplicates.
\<close>
lemma Insert_acks:
  assumes "ReceiveBuffer_Insert rb sid off now d = Some (status, rb')"
  shows "if rcv_capacity rb < rcv_size rb + int (length d)
    then status = RcvInsertBufferFull \<and> rb' = rcv_put_stream rb sid (rcv_getOrCreateStream rb sid)
    else status \<noteq> RcvInsertBufferFull \<and> ackList rb' = ackList rb @ [mkAck sid off (word_of_nat (length d))]"
  using assms unfolding Insert_eq Let_def
  by (auto simp: rcv_acked_def rcv_stored_eq simp del: sm_reads split: if_splits option.splits prod.splits)

text \<open>
  C28: A stored segment that starts below the read position blocks its stream for good: whatever
  segments of the content are inserted and whatever else is called from then on, a read returns
  nothing and the bytes read stay the same. The instance is a packet that was resent in two
  parts: the parts arrive first, the original last, and after the original is read the second
  part is left behind.
\<close>
theorem stale_segment_blocks:
  assumes "rcv_any c W s" and "stale (rcv_getOrCreateStream (rs_buf s) sid)"
    and "run (guarded (any_segment W) rcv_step) s es = Some s'"
  shows "ReceiveBuffer_RemoveOldestInOrder (rs_buf s') sid = ((0, None, 0), rs_buf s') \<and> rs_read s' sid = rs_read s sid"
proof -
  have "stale (rcv_getOrCreateStream (rs_buf s') sid) \<and> rs_read s' sid = rs_read s sid"
    using assms
  proof (induction es arbitrary: s)
    case (Cons e es)
    then obtain s1 where g: "guarded (any_segment W) rcv_step s e = Some s1" "run (guarded (any_segment W) rcv_step) s1 es = Some s'"
      by (auto split: option.splits)
    have s1: "any_segment W s e" "rcv_step s e = Some s1" using g(1) by (auto simp: guarded_def split: if_splits)
    have "rcv_any c W s1" using reachable_step[OF Cons.prems(1)[unfolded rcv_any_def] g(1)] by (simp add: rcv_any_def)
    then show ?case using stale_step[OF rcv_any_inv[OF Cons.prems(1)] s1 Cons.prems(2)] Cons.IH g(2) by metis
  qed simp
  then show ?thesis using stale_no_read by blast
qed

definition demo_late :: rcv_sys where
  "demo_late =
     \<lparr>rs_buf = \<lparr>rcv_streams = [7 \<mapsto> \<lparr>segments =
          sm_remove (sm_put (sm_remove (sm_put (sm_put sm_new 2 \<lparr>rv_data = [3, 4], rv_receiveTimeNano = 5\<rparr>)
            0 \<lparr>rv_data = [1, 2], rv_receiveTimeNano = 6\<rparr>) 0) 0 \<lparr>rv_data = [1, 2, 3, 4], rv_receiveTimeNano = 7\<rparr>) 0,
          nextInOrderOffsetToWaitFor = 4, rcv_closeAtOffset = None\<rparr>],
        rcv_capacity = 100, rcv_size = 2, ackList = [mkAck 7 2 2, mkAck 7 0 2, mkAck 7 0 4]\<rparr>,
      rs_arrived = (\<lambda>_. {})(7 := {2..<4} \<union> {0..<Suc (Suc 0)} \<union> {0..<Suc (Suc (Suc (Suc 0)))}),
      rs_read = (\<lambda>_. [])(7 := [1, 2, 3, 4])\<rparr>"

lemma demo_late_reachable: "rcv_any 100 demo_content demo_late"
  by (rule rcv_any_run[where es = "[Insert_seg 7 2 5 [3, 4], Insert_seg 7 0 6 [1, 2], Insert_seg 7 0 7 [1, 2, 3, 4], Read_next 7]"])
     (simp add: demo_contents_ok rcv_eval demo_late_def ReceiveBuffer_RemoveOldestInOrder_def)

theorem stale_segment_blocks_witness:
  "ReceiveBuffer_RemoveOldestInOrder (rs_buf demo_late) 7 = ((0, None, 0), rs_buf demo_late)"
proof -
  have "stale (rcv_getOrCreateStream (rs_buf demo_late) 7)"
    by (simp add: stale_def demo_late_def rcv_eval)
  from stale_segment_blocks[OF demo_late_reachable this, of "[]" demo_late] show ?thesis by simp
qed

text \<open>
  Another way to a stale segment, within the restriction to one overlap: the first part of a
  packet that was resent in two parts is read, and then the original arrives. It is stored from
  its own offset on, which is below the read position.
\<close>

lemma straddling_segment_stale:
  "\<exists>s. run (guarded (fitting_segment demo_content) rcv_step) (rcv_init 100)
       [Insert_seg 7 0 5 [1, 2], Read_next 7, Insert_seg 7 0 6 [1, 2, 3, 4]] = Some s \<and>
     {..<4} \<subseteq> rs_arrived s 7 \<and> rs_read s 7 = [1, 2] \<and> stale (rcv_getOrCreateStream (rs_buf s) 7)"
  by (auto simp: demo_contents_ok rcv_eval stale_def ReceiveBuffer_RemoveOldestInOrder_def word_le_nat_alt)

text \<open>
  The restriction to segments that overlap one stored segment is needed. A segment across the
  border of two stored ones empties the second, which was acknowledged; and once a longer
  segment with the same start has replaced a stored one without regard to the next, a segment
  of the content can make the insertion panic.
\<close>

lemma spanning_segment_empties_next:
  "\<exists>rb. ReceiveBuffer_Insert (rs_buf demo_all) 7 1 8 [2, 3] = Some (RcvInsertOk, rb) \<and>
     sm_entries (segments (rcv_getOrCreateStream rb 7)) =
       [(0, \<lparr>rv_data = [1, 2], rv_receiveTimeNano = 6\<rparr>), (2, \<lparr>rv_data = [], rv_receiveTimeNano = 8\<rparr>)] \<and>
     rcv_size rb = 4"
  by (simp add: rcv_eval word_le_nat_alt)

lemma overlapping_segments_panic:
  "run rcv_step (rcv_init 100) [Insert_seg 7 2 5 [3, 4], Insert_seg 7 0 6 [1], Insert_seg 7 0 7 [1, 2, 3]] \<noteq> None"
  "run rcv_step (rcv_init 100) [Insert_seg 7 2 5 [3, 4], Insert_seg 7 0 6 [1], Insert_seg 7 0 7 [1, 2, 3],
     Insert_seg 7 1 8 [2, 3, 4]] = None"
  by (simp_all add: rcv_eval word_le_nat_alt unsigned_minus_1_eq_mask mask_eq_exp_minus_1)

end
