(* ===== verification/Crypto.thy ===== *)
theory Crypto
  imports Crypto_Layout
begin

text \<open>
  \<^verbatim>\<open>crypto.go\<close> and \<^verbatim>\<open>pcap.go\<close>: the five packet kinds, encrypted and decrypted. The X25519
  function and the ciphers of \<^verbatim>\<open>golang.org/x/crypto\<close> are a parameter of the model, the record
  \<open>crypto_lib\<close>; \<open>lib_ok\<close> states what is used of them: the commutation of Diffie-Hellman, the
  length of a sealed text, that opening inverts sealing exactly, and that the extended-nonce
  cipher encrypts with the stream that \<^verbatim>\<open>XORKeyStream\<close> produces from block one.

  Public keys are their 32 bytes, a nil key is \<open>None\<close>. A received packet is a slice of a larger
  buffer, and a slice expression may reach into the rest of that buffer: it is the argument
  \<open>spare\<close> of the decoders.
\<close>

section \<open>The libraries\<close>

type_synonym pubKey = bytes
type_synonym prvKey = bytes

record crypto_lib =
  x25519 :: "bytes \<Rightarrow> bytes \<Rightarrow> bytes"
  aead_seal :: "bytes \<Rightarrow> bytes \<Rightarrow> bytes \<Rightarrow> bytes \<Rightarrow> bytes"
  aead_open :: "bytes \<Rightarrow> bytes \<Rightarrow> bytes \<Rightarrow> bytes \<Rightarrow> bytes option"
  xaead_seal :: "bytes \<Rightarrow> bytes \<Rightarrow> bytes \<Rightarrow> bytes \<Rightarrow> bytes"
  xchacha_xor :: "bytes \<Rightarrow> bytes \<Rightarrow> bytes \<Rightarrow> bytes"

definition basepoint :: bytes where
  "basepoint = 9 # replicate 31 0"

text \<open>
  The arguments of the ciphers are key, nonce, text and additional data. A key of the wrong
  length is an error of the constructors, so the laws are for 32 bytes.
\<close>

definition lib_ok :: "crypto_lib \<Rightarrow> bool" where
  "lib_ok L \<longleftrightarrow>
     (\<forall>a b. x25519 L a (x25519 L b basepoint) = x25519 L b (x25519 L a basepoint)) \<and>
     (\<forall>a p. length (x25519 L a p) = 32) \<and>
     (\<forall>k n t ad. length k = 32 \<longrightarrow> length (aead_seal L k n t ad) = length t + 16) \<and>
     (\<forall>k n c ad t. length k = 32 \<longrightarrow> (aead_open L k n c ad = Some t \<longleftrightarrow> c = aead_seal L k n t ad)) \<and>
     (\<forall>k n t ad. length k = 32 \<longrightarrow> take (length t) (xaead_seal L k n t ad) = xchacha_xor L k n t) \<and>
     (\<forall>k n t. length (xchacha_xor L k n t) = length t) \<and>
     (\<forall>k n t. xchacha_xor L k n (xchacha_xor L k n t) = t)"

text \<open>The calls of \<^verbatim>\<open>crypto/ecdh\<close>, whose X25519 refuses an all-zero result.\<close>

definition ecdh_NewPublicKey :: "bytes \<Rightarrow> pubKey result" where
  "ecdh_NewPublicKey b = (if length b \<noteq> 32 then Inl (Err ''invalid public key'') else Inr b)"

definition ecdh_PublicKey :: "crypto_lib \<Rightarrow> prvKey \<Rightarrow> pubKey" where
  "ecdh_PublicKey L prv = x25519 L prv basepoint"

definition ECDH :: "crypto_lib \<Rightarrow> prvKey \<Rightarrow> pubKey \<Rightarrow> bytes result" where
  "ECDH L prv pub =
     (let s = x25519 L prv pub
      in if s = replicate 32 0 then Inl (Err ''bad X25519 remote ECDH input: low order point'') else Inr s)"

section \<open>Slices\<close>

definition or_panic :: "'a option \<Rightarrow> 'a result" where
  "or_panic x = (case x of None \<Rightarrow> Inl (Panic ''slice bounds out of range'') | Some v \<Rightarrow> Inr v)"

lemma or_panic_simps [simp]: "or_panic (Some v) = Inr v" "or_panic None = Inl (Panic ''slice bounds out of range'')"
  by (simp_all add: or_panic_def)

text \<open>\<open>b[i:j]\<close> may extend beyond the length of \<open>b\<close>, \<open>b[i:]\<close> may not.\<close>

definition slice_to :: "bytes \<Rightarrow> bytes \<Rightarrow> nat \<Rightarrow> nat \<Rightarrow> bytes result" where
  "slice_to b spare i j =
     or_panic (if i \<le> j \<and> j \<le> length b + length spare then Some (take (j - i) (drop i (b @ spare))) else None)"

definition slice_from :: "bytes \<Rightarrow> nat \<Rightarrow> bytes result" where
  "slice_from b i = or_panic (if i \<le> length b then Some (drop i b) else None)"

definition make_bytes :: "int \<Rightarrow> bytes result" where
  "make_bytes n = (if n < 0 then Inl (Panic ''makeslice: len out of range'') else Inr (replicate (nat n) 0))"

text \<open>\<open>copy(b[off:], src)\<close>\<close>

definition copy_at :: "bytes \<Rightarrow> nat \<Rightarrow> bytes \<Rightarrow> bytes result" where
  "copy_at b off src = or_panic (map_option fst (at_slice b off (\<lambda>s. Some (go_copy s src))))"

definition put_at :: "bytes \<Rightarrow> nat \<Rightarrow> (bytes \<Rightarrow> (bytes \<times> nat) option) \<Rightarrow> bytes result" where
  "put_at b off put = or_panic (map_option fst (at_slice b off put))"

section \<open>Sealing and opening\<close>

record Message =
  SnConn :: u64
  currentEpochCrypt :: u64
  PayloadRaw :: bytes

fun msg_code :: "CryptoMsgType \<Rightarrow> u8" where
  "msg_code InitSnd = 0"
| "msg_code InitRcv = 1"
| "msg_code InitCryptoSnd = 2"
| "msg_code InitCryptoRcv = 3"
| "msg_code Data = 4"

definition header_byte :: "CryptoMsgType \<Rightarrow> u8" where
  "header_byte t = push_bit 5 (msg_code t) OR CryptoVersion"

text \<open>The nonce: epoch and sequence number, with one bit of the first byte for the direction.\<close>

definition set_direction :: "bool \<Rightarrow> bytes \<Rightarrow> bytes" where
  "set_direction highBit nonce = nonce[0 := (if highBit then nonce ! 0 OR 0x80 else nonce ! 0 AND NOT 0x80)]"

definition nonceDet :: "u64 \<Rightarrow> u64 \<Rightarrow> bool \<Rightarrow> bytes result" where
  "nonceDet epoch sn highBit =
     and_then (put_at (replicate 12 0) 0 (\<lambda>b. PutUint48 b epoch)) (\<lambda>n.
     and_then (put_at n 6 (\<lambda>b. PutUint48 b sn)) (\<lambda>n.
     Inr (set_direction highBit n)))"

definition chacha_New :: "bytes \<Rightarrow> unit result" where
  "chacha_New key = (if length key = 32 then Inr () else Inl (Err ''chacha20poly1305: bad key length''))"

definition chainedEncrypt :: "crypto_lib \<Rightarrow> u64 \<Rightarrow> u64 \<Rightarrow> bool \<Rightarrow> bytes \<Rightarrow> bytes \<Rightarrow> bytes \<Rightarrow> bytes result" where
  "chainedEncrypt L snCrypt epochConn isSender sharedSecret headerAndCrypto packetData =
     and_then (nonceDet epochConn snCrypt isSender) (\<lambda>nonce.
     and_then (chacha_New sharedSecret) (\<lambda>_.
     let sealed = aead_seal L sharedSecret nonce packetData headerAndCrypto;
         encData = replicate (length headerAndCrypto + SnSize + length sealed) 0
     in and_then (copy_at encData 0 headerAndCrypto) (\<lambda>encData.
        and_then (chacha_New sharedSecret) (\<lambda>_.
        and_then (slice_to sealed [] 0 24) (\<lambda>nonceRand.
        and_then (slice_to (xaead_seal L sharedSecret nonceRand (take 6 (drop 6 nonce)) []) [] 0 SnSize) (\<lambda>encSn.
        and_then (copy_at encData (length headerAndCrypto) encSn) (\<lambda>encData.
        copy_at encData (length headerAndCrypto + SnSize) sealed)))))))"

definition openNoVerify :: "crypto_lib \<Rightarrow> bytes \<Rightarrow> bytes \<Rightarrow> bytes \<Rightarrow> bytes result" where
  "openNoVerify L sharedSecret nonce encoded =
     (if length sharedSecret \<noteq> 32 then Inl (Err ''chacha20: wrong key size'')
      else if length nonce \<noteq> 24 then Inl (Err ''chacha20: wrong nonce size'')
      else Inr (xchacha_xor L sharedSecret nonce encoded))"

text \<open>The epochs are tried in order; the error is that of the last one.\<close>

fun try_epochs :: "crypto_lib \<Rightarrow> bool \<Rightarrow> bytes \<Rightarrow> u64 \<Rightarrow> bytes \<Rightarrow> bytes \<Rightarrow> u64 list \<Rightarrow> (u64 \<times> u64 \<times> bytes) result" where
  "try_epochs L isSender sharedSecret snConn encData header [] =
     Inl (Err ''chacha20poly1305: message authentication failed'')"
| "try_epochs L isSender sharedSecret snConn encData header (epochTry # epochs) =
     and_then (nonceDet epochTry snConn (\<not> isSender)) (\<lambda>nonce.
     case aead_open L sharedSecret nonce encData header of
       Some packetData \<Rightarrow> Inr (snConn, epochTry, packetData)
     | None \<Rightarrow> try_epochs L isSender sharedSecret snConn encData header epochs)"

definition epochs_around :: "u64 \<Rightarrow> u64 list" where
  "epochs_around e = [e] @ (if e > 0 then [e - 1] else []) @ [e + 1]"

definition chainedDecrypt ::
  "crypto_lib \<Rightarrow> bool \<Rightarrow> u64 \<Rightarrow> bytes \<Rightarrow> bytes \<Rightarrow> bytes \<Rightarrow> bytes \<Rightarrow> (u64 \<times> u64 \<times> bytes) result" where
  "chainedDecrypt L isSender epochCrypt sharedSecret header encData spare =
     and_then (slice_to encData spare 0 SnSize) (\<lambda>encSn.
     and_then (slice_from encData SnSize) (\<lambda>encData.
     and_then (slice_to encData spare 0 24) (\<lambda>nonceRand.
     and_then (openNoVerify L sharedSecret nonceRand encSn) (\<lambda>snConnBytes.
     and_then (or_panic (Uint48 snConnBytes)) (\<lambda>snConn.
     and_then (chacha_New sharedSecret) (\<lambda>_.
     try_epochs L isSender sharedSecret snConn encData header (epochs_around epochCrypt)))))))"

section \<open>Encoders\<close>

definition nil_key :: "'a option \<Rightarrow> 'a result" where
  "nil_key k = (case k of None \<Rightarrow> Inl (Panic ''handshake keys cannot be nil'') | Some k \<Rightarrow> Inr k)"

definition encryptInitSnd :: "pubKey option \<Rightarrow> pubKey option \<Rightarrow> int \<Rightarrow> (u64 \<times> bytes) result" where
  "encryptInitSnd pubKeyIdSnd pubKeyEpSnd mtu =
     and_then (nil_key pubKeyIdSnd) (\<lambda>pubKeyIdSnd.
     and_then (nil_key pubKeyEpSnd) (\<lambda>pubKeyEpSnd.
     and_then (make_bytes mtu) (\<lambda>b.
     and_then (put_at b 0 (put_byte (header_byte InitSnd))) (\<lambda>b.
     and_then (copy_at b HeaderSize pubKeyEpSnd) (\<lambda>b.
     and_then (copy_at b (HeaderSize + PubKeySize) pubKeyIdSnd) (\<lambda>b.
     and_then (slice_from b HeaderSize) (\<lambda>t.
     and_then (or_panic (Uint64 t)) (\<lambda>connId. Inr (connId, b)))))))))"

definition encryptInitRcv ::
  "crypto_lib \<Rightarrow> u64 \<Rightarrow> pubKey option \<Rightarrow> pubKey option \<Rightarrow> prvKey option \<Rightarrow> u64 \<Rightarrow> bytes \<Rightarrow> bytes result" where
  "encryptInitRcv L connId pubKeyIdSnd pubKeyEpRcv prvKeyEpSnd snCrypto packetData =
     and_then (nil_key pubKeyIdSnd) (\<lambda>pubKeyIdSnd.
     and_then (nil_key pubKeyEpRcv) (\<lambda>pubKeyEpRcv.
     and_then (nil_key prvKeyEpSnd) (\<lambda>prvKeyEpSnd.
     and_then (make_bytes (int MinInitRcvSizeHdr)) (\<lambda>b.
     and_then (put_at b 0 (put_byte (header_byte InitRcv))) (\<lambda>b.
     and_then (put_at b HeaderSize (\<lambda>t. PutUint64 t connId)) (\<lambda>b.
     and_then (copy_at b (HeaderSize + ConnIdSize) (ecdh_PublicKey L prvKeyEpSnd)) (\<lambda>b.
     and_then (copy_at b (HeaderSize + ConnIdSize + PubKeySize) pubKeyIdSnd) (\<lambda>b.
     and_then (ECDH L prvKeyEpSnd pubKeyEpRcv) (\<lambda>sharedSecret.
     chainedEncrypt L snCrypto 0 False sharedSecret b packetData)))))))))"

definition encryptInitCryptoSnd ::
  "crypto_lib \<Rightarrow> pubKey option \<Rightarrow> pubKey option \<Rightarrow> prvKey option \<Rightarrow> u64 \<Rightarrow> int \<Rightarrow> bytes \<Rightarrow> (u64 \<times> bytes) result" where
  "encryptInitCryptoSnd L pubKeyIdRcv pubKeyIdSnd prvKeyEpSnd snCrypto mtu packetData =
     and_then (nil_key pubKeyIdRcv) (\<lambda>pubKeyIdRcv.
     and_then (nil_key pubKeyIdSnd) (\<lambda>pubKeyIdSnd.
     and_then (nil_key prvKeyEpSnd) (\<lambda>prvKeyEpSnd.
     and_then (make_bytes (int MinInitCryptoSndSizeHdr)) (\<lambda>b.
     and_then (put_at b 0 (put_byte (header_byte InitCryptoSnd))) (\<lambda>b.
     and_then (copy_at b HeaderSize (ecdh_PublicKey L prvKeyEpSnd)) (\<lambda>b.
     and_then (copy_at b (HeaderSize + PubKeySize) pubKeyIdSnd) (\<lambda>b.
     let fillLen = mtu - int (MinInitCryptoSndSizeHdr + FooterDataSize + MsgInitFillLenSize + length packetData)
     in if fillLen < 0 then Inl (Err ''packet dataToSend cannot be larger than MTU'')
        else
          and_then (make_bytes (int (length packetData + MsgInitFillLenSize) + fillLen)) (\<lambda>padded.
          and_then (put_at padded 0 (\<lambda>t. PutUint16 t (word_of_int fillLen))) (\<lambda>padded.
          and_then (copy_at padded (2 + nat fillLen) packetData) (\<lambda>padded.
          and_then (ECDH L prvKeyEpSnd pubKeyIdRcv) (\<lambda>nonForwardSecretKey.
          and_then (chainedEncrypt L snCrypto 0 True nonForwardSecretKey b padded) (\<lambda>encData.
          and_then (slice_from b HeaderSize) (\<lambda>t.
          and_then (or_panic (Uint64 t)) (\<lambda>connId. Inr (connId, encData)))))))))))))))"

definition encryptInitCryptoRcv ::
  "crypto_lib \<Rightarrow> u64 \<Rightarrow> pubKey option \<Rightarrow> prvKey option \<Rightarrow> u64 \<Rightarrow> bytes \<Rightarrow> bytes result" where
  "encryptInitCryptoRcv L connId pubKeyEpRcv prvKeyEpSnd snCrypto packetData =
     and_then (nil_key pubKeyEpRcv) (\<lambda>pubKeyEpRcv.
     and_then (nil_key prvKeyEpSnd) (\<lambda>prvKeyEpSnd.
     and_then (make_bytes (int MinInitCryptoRcvSizeHdr)) (\<lambda>b.
     and_then (put_at b 0 (put_byte (header_byte InitCryptoRcv))) (\<lambda>b.
     and_then (put_at b HeaderSize (\<lambda>t. PutUint64 t connId)) (\<lambda>b.
     and_then (copy_at b (HeaderSize + ConnIdSize) (ecdh_PublicKey L prvKeyEpSnd)) (\<lambda>b.
     and_then (ECDH L prvKeyEpSnd pubKeyEpRcv) (\<lambda>sharedSecret.
     chainedEncrypt L snCrypto 0 False sharedSecret b packetData)))))))"

definition encryptData :: "crypto_lib \<Rightarrow> u64 \<Rightarrow> bool \<Rightarrow> bytes option \<Rightarrow> u64 \<Rightarrow> u64 \<Rightarrow> bytes \<Rightarrow> bytes result" where
  "encryptData L connId isSender sharedSecret snCrypto epochCrypto packetData =
     (case sharedSecret of
        None \<Rightarrow> Inl (Panic ''pubKeyEpSnd/pubKeyEpRcv keys cannot be nil'')
      | Some sharedSecret \<Rightarrow>
          and_then (make_bytes (int (HeaderSize + ConnIdSize))) (\<lambda>b.
          and_then (put_at b 0 (put_byte (header_byte Data))) (\<lambda>b.
          and_then (put_at b HeaderSize (\<lambda>t. PutUint64 t connId)) (\<lambda>b.
          chainedEncrypt L snCrypto epochCrypto isSender sharedSecret b packetData))))"

section \<open>Decoders\<close>

definition mk_message :: "u64 \<times> u64 \<times> bytes \<Rightarrow> Message" where
  "mk_message r = (case r of (sn, epoch, d) \<Rightarrow> \<lparr>SnConn = sn, currentEpochCrypt = epoch, PayloadRaw = d\<rparr>)"

definition decryptInitSnd :: "bytes \<Rightarrow> bytes \<Rightarrow> int \<Rightarrow> (pubKey \<times> pubKey) result" where
  "decryptInitSnd encData spare mtu =
     (if int (length encData) < mtu then Inl (Err ''size is below minimum init'')
      else
        and_then (slice_to encData spare HeaderSize (HeaderSize + PubKeySize)) (\<lambda>b.
        and_then (ecdh_NewPublicKey b) (\<lambda>pubKeyEpSnd.
        and_then (slice_to encData spare (HeaderSize + PubKeySize) (HeaderSize + 2 * PubKeySize)) (\<lambda>b.
        and_then (ecdh_NewPublicKey b) (\<lambda>pubKeyIdSnd. Inr (pubKeyIdSnd, pubKeyEpSnd))))))"

definition decryptInitRcv ::
  "crypto_lib \<Rightarrow> bytes \<Rightarrow> bytes \<Rightarrow> prvKey \<Rightarrow> (bytes \<times> pubKey \<times> pubKey \<times> Message) result" where
  "decryptInitRcv L encData spare prvKeyEpSnd =
     (if length encData < MinInitRcvSizeHdr + FooterDataSize then Inl (Err ''size is below minimum init reply'')
      else
        and_then (slice_to encData spare (HeaderSize + ConnIdSize) (HeaderSize + ConnIdSize + PubKeySize)) (\<lambda>b.
        and_then (ecdh_NewPublicKey b) (\<lambda>pubKeyEpRcv.
        and_then (slice_to encData spare (HeaderSize + ConnIdSize + PubKeySize)
                    (HeaderSize + ConnIdSize + 2 * PubKeySize)) (\<lambda>b.
        and_then (ecdh_NewPublicKey b) (\<lambda>pubKeyIdRcv.
        and_then (ECDH L prvKeyEpSnd pubKeyEpRcv) (\<lambda>sharedSecret.
        and_then (slice_to encData spare 0 (HeaderSize + ConnIdSize + 2 * PubKeySize)) (\<lambda>header.
        and_then (slice_from encData (HeaderSize + ConnIdSize + 2 * PubKeySize)) (\<lambda>rest.
        and_then (chainedDecrypt L True 0 sharedSecret header rest spare) (\<lambda>r.
        Inr (sharedSecret, pubKeyIdRcv, pubKeyEpRcv, mk_message r))))))))))"

definition decryptInitCryptoSnd ::
  "crypto_lib \<Rightarrow> bytes \<Rightarrow> bytes \<Rightarrow> prvKey \<Rightarrow> int \<Rightarrow> (pubKey \<times> pubKey \<times> Message) result" where
  "decryptInitCryptoSnd L encData spare prvKeyIdRcv mtu =
     (if int (length encData) < mtu then Inl (Err ''size is below minimum init'')
      else
        and_then (slice_to encData spare HeaderSize (HeaderSize + PubKeySize)) (\<lambda>b.
        and_then (ecdh_NewPublicKey b) (\<lambda>pubKeyEpSnd.
        and_then (slice_to encData spare (HeaderSize + PubKeySize) (HeaderSize + 2 * PubKeySize)) (\<lambda>b.
        and_then (ecdh_NewPublicKey b) (\<lambda>pubKeyIdSnd.
        and_then (ECDH L prvKeyIdRcv pubKeyEpSnd) (\<lambda>nonForwardSecretKey.
        and_then (slice_to encData spare 0 (HeaderSize + 2 * PubKeySize)) (\<lambda>header.
        and_then (slice_from encData (HeaderSize + 2 * PubKeySize)) (\<lambda>rest.
        and_then (chainedDecrypt L False 0 nonForwardSecretKey header rest spare) (\<lambda>(sn, epoch, packetData).
        and_then (or_panic (Uint16 packetData)) (\<lambda>fillerLen.
        and_then (slice_from packetData (2 + unat fillerLen)) (\<lambda>actualData.
        Inr (pubKeyIdSnd, pubKeyEpSnd, mk_message (sn, epoch, actualData)))))))))))))"

definition decryptInitCryptoRcv ::
  "crypto_lib \<Rightarrow> bytes \<Rightarrow> bytes \<Rightarrow> prvKey \<Rightarrow> (bytes \<times> pubKey \<times> Message) result" where
  "decryptInitCryptoRcv L encData spare prvKeyEpSnd =
     (if length encData < MinInitCryptoRcvSizeHdr + FooterDataSize then Inl (Err ''size is below minimum init reply'')
      else
        and_then (slice_to encData spare (HeaderSize + ConnIdSize) (HeaderSize + ConnIdSize + PubKeySize)) (\<lambda>b.
        and_then (ecdh_NewPublicKey b) (\<lambda>pubKeyEpRcv.
        and_then (ECDH L prvKeyEpSnd pubKeyEpRcv) (\<lambda>sharedSecret.
        and_then (slice_to encData spare 0 (HeaderSize + ConnIdSize + PubKeySize)) (\<lambda>header.
        and_then (slice_from encData (HeaderSize + ConnIdSize + PubKeySize)) (\<lambda>rest.
        and_then (chainedDecrypt L True 0 sharedSecret header rest spare) (\<lambda>r.
        Inr (sharedSecret, pubKeyEpRcv, mk_message r))))))))"

definition decryptData :: "crypto_lib \<Rightarrow> bytes \<Rightarrow> bytes \<Rightarrow> bool \<Rightarrow> u64 \<Rightarrow> bytes \<Rightarrow> Message result" where
  "decryptData L encData spare isSender epochCrypt sharedSecret =
     (if length encData < MinDataSizeHdr + FooterDataSize then Inl (Err ''size is below minimum'')
      else
        and_then (slice_to encData spare 0 (HeaderSize + ConnIdSize)) (\<lambda>header.
        and_then (slice_from encData (HeaderSize + ConnIdSize)) (\<lambda>rest.
        and_then (chainedDecrypt L isSender epochCrypt sharedSecret header rest spare) (\<lambda>r.
        Inr (mk_message r)))))"

subsection \<open>For packet captures\<close>

definition DecryptDataForPcap :: "crypto_lib \<Rightarrow> bytes \<Rightarrow> bytes \<Rightarrow> bool \<Rightarrow> u64 \<Rightarrow> bytes \<Rightarrow> bytes result" where
  "DecryptDataForPcap L encData spare isSenderOnInit epoch sharedSecret =
     and_then (decryptData L encData spare isSenderOnInit epoch sharedSecret) (\<lambda>msg. Inr (PayloadRaw msg))"

definition DecryptInitCryptoSndForPcap :: "crypto_lib \<Rightarrow> bytes \<Rightarrow> bytes \<Rightarrow> prvKey \<Rightarrow> int \<Rightarrow> bytes result" where
  "DecryptInitCryptoSndForPcap L encData spare prvKeyIdRcv mtu =
     and_then (decryptInitCryptoSnd L encData spare prvKeyIdRcv mtu) (\<lambda>(_, _, msg). Inr (PayloadRaw msg))"

definition DecryptInitRcvForPcap :: "crypto_lib \<Rightarrow> bytes \<Rightarrow> bytes \<Rightarrow> prvKey \<Rightarrow> bytes result" where
  "DecryptInitRcvForPcap L encData spare prvKeyEpSnd =
     and_then (decryptInitRcv L encData spare prvKeyEpSnd) (\<lambda>(_, _, _, msg). Inr (PayloadRaw msg))"

definition DecryptInitCryptoRcvForPcap :: "crypto_lib \<Rightarrow> bytes \<Rightarrow> bytes \<Rightarrow> prvKey \<Rightarrow> bytes result" where
  "DecryptInitCryptoRcvForPcap L encData spare prvKeyEpSnd =
     and_then (decryptInitCryptoRcv L encData spare prvKeyEpSnd) (\<lambda>(_, _, msg). Inr (PayloadRaw msg))"

section \<open>Nonces\<close>

definition nonce :: "u64 \<Rightarrow> u64 \<Rightarrow> bool \<Rightarrow> bytes" where
  "nonce epoch sn highBit = set_direction highBit (le_bytes 6 epoch @ le_bytes 6 sn)"

lemma nonceDet_eq: "nonceDet epoch sn highBit = Inr (nonce epoch sn highBit)"
  by (simp add: nonceDet_def nonce_def put_at_def at_slice_def u48c.put_eq del: le_bytes_numeral)

lemma length_nonce [simp]: "length (nonce epoch sn highBit) = 12"
  by (simp add: nonce_def set_direction_def del: le_bytes_numeral)

lemma nonce_sn: "drop 6 (nonce epoch sn highBit) = le_bytes 6 sn"
  by (simp add: nonce_def set_direction_def drop_update_swap del: le_bytes_numeral)

text \<open>The direction is written into the lowest byte of the epoch, over its bit 7.\<close>

lemma bit_0x80: "bit (0x80 :: 'a::len word) n \<longleftrightarrow> n = 7 \<and> 7 < LENGTH('a)"
proof -
  have "(0x80 :: 'a word) = 2 ^ 7" by simp
  then show ?thesis by (simp only: bit_exp_iff possible_bit_word) auto
qed

definition epoch_bits :: "bool \<Rightarrow> u64 \<Rightarrow> u64" where
  "epoch_bits highBit epoch = (if highBit then epoch OR 0x80 else epoch AND NOT 0x80)"

lemma bit_epoch_bits: "bit (epoch_bits h e) n \<longleftrightarrow> (if n = 7 then h else bit e n)"
proof (cases h)
  case True
  show ?thesis by (simp only: epoch_bits_def True if_True bit_or_iff bit_0x80) auto
next
  case False
  show ?thesis
    by (simp only: epoch_bits_def False if_False bit_and_iff bit_not_iff bit_0x80 possible_bit_word)
       (auto dest: bit_imp_le_length)
qed

lemma set_direction_epoch: "set_direction h (le_bytes 6 e @ r) = le_bytes 6 (epoch_bits h e) @ r"
proof -
  have hi: "drop_bit 8 (epoch_bits h e) = drop_bit 8 e"
    by (rule bit_word_eqI) (simp add: bit_drop_bit_eq bit_epoch_bits)
  have lo: "ucast (epoch_bits h e) = (if h then ucast e OR 0x80 else ucast e AND NOT (0x80 :: u8))"
    by (rule bit_word_eqI, cases h)
       (simp_all only: bit_ucast_iff bit_epoch_bits bit_or_iff bit_and_iff bit_not_iff bit_0x80 if_True if_False possible_bit_word, auto)
  show ?thesis by (simp add: set_direction_def hi lo)
qed

lemma le_bytes_inj: "8 * k \<le> LENGTH('a) \<Longrightarrow> le_bytes k u = le_bytes k v \<longleftrightarrow> take_bit (8 * k) u = take_bit (8 * k) v"
  for u v :: "'a::len word"
  by (metis le_bytes_cong le_word_le_bytes)

lemma nonce_eq_iff:
  "nonce e sn h = nonce e' sn' h' \<longleftrightarrow>
     h = h' \<and> take_bit 48 sn = take_bit 48 sn' \<and> (\<forall>n < 48. n \<noteq> 7 \<longrightarrow> bit e n = bit e' n)"
proof -
  have "nonce e sn h = nonce e' sn' h' \<longleftrightarrow>
      take_bit 48 (epoch_bits h e) = take_bit 48 (epoch_bits h' e') \<and> take_bit 48 sn = take_bit 48 sn'"
    by (simp add: nonce_def set_direction_epoch le_bytes_inj del: le_bytes_numeral)
  moreover have "take_bit 48 (epoch_bits h e) = take_bit 48 (epoch_bits h' e') \<longleftrightarrow>
      h = h' \<and> (\<forall>n < 48. n \<noteq> 7 \<longrightarrow> bit e n = bit e' n)"
    by (auto simp: bit_eq_iff bit_take_bit_iff bit_epoch_bits)
  ultimately show ?thesis by auto
qed

section \<open>Sealed packets\<close>

lemma lib_okD:
  assumes "lib_ok L"
  shows "x25519 L a (x25519 L b basepoint) = x25519 L b (x25519 L a basepoint)"
    "length (x25519 L a p) = 32"
    "length k = 32 \<Longrightarrow> length (aead_seal L k n t ad) = length t + 16"
    "length k = 32 \<Longrightarrow> aead_open L k n c ad = Some t \<longleftrightarrow> c = aead_seal L k n t ad"
    "length k = 32 \<Longrightarrow> take (length t) (xaead_seal L k n t ad) = xchacha_xor L k n t"
    "length (xchacha_xor L k n t) = length t"
    "xchacha_xor L k n (xchacha_xor L k n t) = t"
  using assms by (simp_all add: lib_ok_def)

text \<open>The three parts of a sealed packet: header, sequence number and sealed payload.\<close>

definition sealed_with :: "crypto_lib \<Rightarrow> bytes \<Rightarrow> u64 \<Rightarrow> u64 \<Rightarrow> bool \<Rightarrow> bytes \<Rightarrow> bytes \<Rightarrow> bytes" where
  "sealed_with L secret sn epoch isSender header d =
     (let sealed = aead_seal L secret (nonce epoch sn isSender) d header
      in xchacha_xor L secret (take 24 sealed) (le_bytes 6 sn) @ sealed)"

lemma copy_at_zeros:
  "off = length pre \<Longrightarrow> length src \<le> n \<Longrightarrow> copy_at (pre @ replicate n 0) off src = Inr (pre @ src @ replicate (n - length src) 0)"
  by (simp add: copy_at_def at_slice_def go_copy_def min_def Let_def)

lemma xseal_sn:
  assumes "lib_ok L" and "length k = 32"
  shows "6 \<le> length (xaead_seal L k n (le_bytes 6 sn) ad)"
    "take 6 (xaead_seal L k n (le_bytes 6 sn) ad) = xchacha_xor L k n (le_bytes 6 sn)"
proof -
  have t: "take (length (le_bytes 6 sn)) (xaead_seal L k n (le_bytes 6 sn) ad) = xchacha_xor L k n (le_bytes 6 sn)"
    by (rule lib_okD(5)[OF assms])
  then show "take 6 (xaead_seal L k n (le_bytes 6 sn) ad) = xchacha_xor L k n (le_bytes 6 sn)"
    by (simp only: length_le_bytes)
  have "length (take 6 (xaead_seal L k n (le_bytes 6 sn) ad)) = 6"
    using t lib_okD(6)[OF assms(1), of k n "le_bytes 6 sn"] by (simp only: length_le_bytes)
  then show "6 \<le> length (xaead_seal L k n (le_bytes 6 sn) ad)" by simp
qed

lemma chainedEncrypt_eq:
  assumes L: "lib_ok L" and k: "length secret = 32" and d: "8 \<le> length d"
  shows "chainedEncrypt L sn epoch isSender secret header d = Inr (header @ sealed_with L secret sn epoch isSender header d)"
proof -
  let ?n = "nonce epoch sn isSender"
  let ?c = "aead_seal L secret ?n d header"
  let ?x = "xchacha_xor L secret (take 24 ?c) (le_bytes 6 sn)"
  have lc: "length ?c = length d + 16" by (rule lib_okD(3)[OF L k])
  have sn: "take 6 (drop 6 ?n) = le_bytes 6 sn" by (simp add: nonce_sn del: le_bytes_numeral)
  have lx: "length ?x = 6" using lib_okD(6)[OF L] by simp
  have c0: "copy_at (replicate (length header + 6 + length ?c) 0) 0 header = Inr (header @ replicate (6 + length ?c) 0)"
    using copy_at_zeros[of 0 "[]" header "length header + 6 + length ?c"] by (simp add: add.commute)
  have c1: "copy_at (header @ replicate (6 + length ?c) 0) (length header) ?x = Inr (header @ ?x @ replicate (length ?c) 0)"
    using copy_at_zeros[of "length header" header ?x "6 + length ?c"] lx by simp
  have c2: "copy_at (header @ ?x @ replicate (length ?c) 0) (length header + 6) ?c = Inr (header @ ?x @ ?c)"
    using copy_at_zeros[of "length header + 6" "header @ ?x" ?c "length ?c"] lx by simp
  have s1: "slice_to ?c [] 0 24 = Inr (take 24 ?c)" using lc d by (simp add: slice_to_def)
  have s2: "slice_to (xaead_seal L secret (take 24 ?c) (le_bytes 6 sn) []) [] 0 6 = Inr ?x"
    using xseal_sn[OF L k, of "take 24 ?c" sn "[]"] by (simp add: slice_to_def del: le_bytes_numeral)
  show ?thesis
    using s1 s2 c0 c1 c2 k
    by (simp add: chainedEncrypt_def nonceDet_eq chacha_New_def SnSize_def Let_def sn sealed_with_def del: le_bytes_numeral)
qed

lemma chainedDecrypt_eq:
  assumes L: "lib_ok L" and k: "length secret = 32" and e: "length encSn = 6" and c: "24 \<le> length c"
  shows "chainedDecrypt L isSender epoch secret header (encSn @ c) spare =
    try_epochs L isSender secret (le_word (xchacha_xor L secret (take 24 c) encSn)) c header (epochs_around epoch)"
proof -
  have "Uint48 (xchacha_xor L secret (take 24 c) encSn) = Some (le_word (xchacha_xor L secret (take 24 c) encSn))"
    using lib_okD(6)[OF L, of secret "take 24 c" encSn] e by (simp add: u48c.get_eq)
  then show ?thesis
    using e c k by (simp add: chainedDecrypt_def slice_to_def slice_from_def SnSize_def openNoVerify_def chacha_New_def)
qed

lemma try_epochs_hit:
  assumes "\<And>e. e \<in> set before \<Longrightarrow> aead_open L secret (nonce e sn (\<not> isSender)) c header = None"
    and "aead_open L secret (nonce epoch sn (\<not> isSender)) c header = Some d"
  shows "try_epochs L isSender secret sn c header (before @ epoch # after) = Inr (sn, epoch, d)"
  using assms by (induction before) (auto simp: nonceDet_eq)

lemma try_epochs_Inr:
  assumes "try_epochs L isSender secret sn c header es = Inr r"
  shows "\<exists>epoch \<in> set es. \<exists>d. r = (sn, epoch, d) \<and> aead_open L secret (nonce epoch sn (\<not> isSender)) c header = Some d"
  using assms by (induction es) (auto simp: nonceDet_eq split: option.splits)

lemma try_epochs_no_panic: "try_epochs L isSender secret sn c header es \<noteq> Inl (Panic msg)"
  by (induction es) (auto simp: nonceDet_eq split: option.splits)

text \<open>What was sealed for an epoch is opened with that epoch.\<close>

lemma chained_roundtrip:
  assumes L: "lib_ok L" and k: "length secret = 32" and d: "8 \<le> length d" and sn: "unat sn < 2 ^ 48"
    and ep: "epochs_around r = before @ epoch # after"
      "\<And>e. e \<in> set before \<Longrightarrow> aead_open L secret (nonce e sn isSender)
         (aead_seal L secret (nonce epoch sn isSender) d header) header = None"
  shows "chainedDecrypt L (\<not> isSender) r secret header (sealed_with L secret sn epoch isSender header d) spare =
    Inr (sn, epoch, d)"
proof -
  let ?c = "aead_seal L secret (nonce epoch sn isSender) d header"
  let ?x = "xchacha_xor L secret (take 24 ?c) (le_bytes 6 sn)"
  have "length ?c = length d + 16" "length ?x = 6" using lib_okD(3)[OF L k] lib_okD(6)[OF L] by simp_all
  then have c: "24 \<le> length ?c" "length ?x = 6" using d by simp_all
  have "le_word (xchacha_xor L secret (take 24 ?c) ?x) = (le_word (le_bytes 6 sn) :: u64)"
    by (simp only: lib_okD(7)[OF L])
  also have "\<dots> = sn" using take_bit_word_eq_self[of sn 48] sn by (simp del: le_bytes_numeral)
  finally have snr: "le_word (xchacha_xor L secret (take 24 ?c) ?x) = sn" .
  have "try_epochs L (\<not> isSender) secret sn ?c header (before @ epoch # after) = Inr (sn, epoch, d)"
    using ep(2) lib_okD(4)[OF L k] by (intro try_epochs_hit) simp_all
  then show ?thesis
    using chainedDecrypt_eq[OF L k c(2,1), of "\<not> isSender" r header spare] ep(1)
    by (simp add: sealed_with_def Let_def snr del: le_bytes_numeral)
qed

lemma chainedDecrypt_Inr:
  assumes L: "lib_ok L" and k: "length secret = 32" and e: "length encSn = 6" and c: "24 \<le> length c"
    and dec: "chainedDecrypt L isSender r secret header (encSn @ c) spare = Inr (sn, epoch, d)"
  shows "epoch \<in> set (epochs_around r)"
    "chainedEncrypt L sn epoch (\<not> isSender) secret header d = Inr (header @ encSn @ c)"
proof -
  let ?x = "xchacha_xor L secret (take 24 c) encSn"
  have lx: "length ?x = 6" using lib_okD(6)[OF L] e by simp
  obtain t: "epoch \<in> set (epochs_around r)" "sn = le_word ?x"
    "aead_open L secret (nonce epoch sn (\<not> isSender)) c header = Some d"
    using try_epochs_Inr dec unfolding chainedDecrypt_eq[OF L k e c] by blast
  then show "epoch \<in> set (epochs_around r)" by simp
  have cs: "c = aead_seal L secret (nonce epoch sn (\<not> isSender)) d header"
    using t(3) lib_okD(4)[OF L k] by simp
  have "le_bytes (length ?x) sn = ?x" unfolding t(2) using lx by (intro le_bytes_le_word) simp
  then have "le_bytes 6 sn = ?x" by (simp only: lx)
  then have "xchacha_xor L secret (take 24 c) (le_bytes 6 sn) = encSn" using lib_okD(7)[OF L] by simp
  then have "sealed_with L secret sn epoch (\<not> isSender) header d = encSn @ c"
    using cs by (simp add: sealed_with_def Let_def del: le_bytes_numeral)
  moreover have "8 \<le> length d" using cs c lib_okD(3)[OF L k, of "nonce epoch sn (\<not> isSender)" d header] by simp
  ultimately show "chainedEncrypt L sn epoch (\<not> isSender) secret header d = Inr (header @ encSn @ c)"
    using chainedEncrypt_eq[OF L k] by simp
qed

section \<open>Packets\<close>

definition id_header :: "CryptoMsgType \<Rightarrow> u64 \<Rightarrow> bytes" where
  "id_header t connId = header_byte t # le_bytes 8 connId"

lemma length_id_header [simp]: "length (id_header t connId) = 9"
  by (simp add: id_header_def del: le_bytes_numeral)

text \<open>Filling a buffer from the front.\<close>

lemma put_at_zeros: "off = length pre \<Longrightarrow> put (replicate n 0) = Some (b @ replicate (n - length b) 0, m) \<Longrightarrow>
  put_at (pre @ replicate n 0) off put = Inr (pre @ b @ replicate (n - length b) 0)"
  by (simp add: put_at_def at_slice_def)

lemma put_header_byte: "0 < n \<Longrightarrow> put_at (replicate n 0) 0 (put_byte h) = Inr ([h] @ replicate (n - 1) 0)"
  by (cases n) (simp_all add: put_at_def at_slice_def put_byte_def)

lemma put_connId: "8 \<le> n \<Longrightarrow> put_at ([h] @ replicate n 0) 1 (\<lambda>t. PutUint64 t connId) = Inr ((h # le_bytes 8 connId) @ replicate (n - 8) 0)"
  by (subst put_at_zeros[where b = "le_bytes 8 connId" and m = 8]) (simp_all add: u64c.put_eq del: le_bytes_numeral)

lemma copy_key:
  "off = length pre \<Longrightarrow> length key = 32 \<Longrightarrow> 32 \<le> n \<Longrightarrow> copy_at (pre @ replicate n 0) off key = Inr ((pre @ key) @ replicate (n - 32) 0)"
  by (simp add: copy_at_zeros)

lemma encryptData_eq:
  assumes "lib_ok L" and "length secret = 32" and "8 \<le> length d"
  shows "encryptData L connId isSender (Some secret) sn epoch d =
    Inr (id_header Data connId @ sealed_with L secret sn epoch isSender (id_header Data connId) d)"
  using chainedEncrypt_eq[OF assms] put_connId[of 8 "header_byte Data" connId] put_header_byte[of 9 "header_byte Data"]
  by (simp add: encryptData_def make_bytes_def crypto_consts id_header_def[symmetric] del: le_bytes_numeral)

lemma encryptInitRcv_eq:
  fixes connId :: u64
  assumes L: "lib_ok L" and "8 \<le> length d" and "length pubId = 32" and "ECDH L prv pubEp = Inr secret"
  defines "h \<equiv> id_header InitRcv connId @ ecdh_PublicKey L prv @ pubId"
  shows "encryptInitRcv L connId (Some pubId) (Some pubEp) (Some prv) sn d = Inr (h @ sealed_with L secret sn 0 False h d)"
proof -
  have "length secret = 32" using assms(4) lib_okD(2)[OF L] by (auto simp: ECDH_def Let_def split: if_splits)
  note ce = chainedEncrypt_eq[OF L this assms(2), of sn 0 False h]
  have pk: "length (ecdh_PublicKey L prv) = 32" using lib_okD(2)[OF L] by (simp add: ecdh_PublicKey_def)
  show ?thesis
    using ce assms(3,4) pk copy_key[of 9 "id_header InitRcv connId" "ecdh_PublicKey L prv" 64]
      copy_key[of 41 "id_header InitRcv connId @ ecdh_PublicKey L prv" pubId 32]
      put_connId[of 72 "header_byte InitRcv" connId] put_header_byte[of 73 "header_byte InitRcv"]
    by (simp add: encryptInitRcv_def make_bytes_def nil_key_def crypto_consts id_header_def[symmetric] h_def
        del: le_bytes_numeral)
qed

lemma encryptInitCryptoRcv_eq:
  fixes connId :: u64
  assumes L: "lib_ok L" and "8 \<le> length d" and "ECDH L prv pubEp = Inr secret"
  defines "h \<equiv> id_header InitCryptoRcv connId @ ecdh_PublicKey L prv"
  shows "encryptInitCryptoRcv L connId (Some pubEp) (Some prv) sn d = Inr (h @ sealed_with L secret sn 0 False h d)"
proof -
  have "length secret = 32" using assms(3) lib_okD(2)[OF L] by (auto simp: ECDH_def Let_def split: if_splits)
  note ce = chainedEncrypt_eq[OF L this assms(2), of sn 0 False h]
  have pk: "length (ecdh_PublicKey L prv) = 32" using lib_okD(2)[OF L] by (simp add: ecdh_PublicKey_def)
  show ?thesis
    using ce assms(3) pk copy_key[of 9 "id_header InitCryptoRcv connId" "ecdh_PublicKey L prv" 32]
      put_connId[of 40 "header_byte InitCryptoRcv" connId] put_header_byte[of 41 "header_byte InitCryptoRcv"]
    by (simp add: encryptInitCryptoRcv_def make_bytes_def nil_key_def crypto_consts id_header_def[symmetric] h_def
        del: le_bytes_numeral)
qed

text \<open>The padded payload of the first encrypted packet: filler length, filler, data.\<close>

definition padded :: "nat \<Rightarrow> bytes \<Rightarrow> bytes" where
  "padded fill d = le_bytes 2 (word_of_nat fill :: u16) @ replicate fill 0 @ d"

lemma pad_bytes:
  "and_then (put_at (replicate (length d + 2 + fill) 0) 0 (\<lambda>t. PutUint16 t (word_of_nat fill))) (\<lambda>b. copy_at b (2 + fill) d) =
   Inr (padded fill d)"
proof -
  have p: "put_at ([] @ replicate (length d + 2 + fill) 0) 0 (\<lambda>t. PutUint16 t (word_of_nat fill)) =
      Inr ([] @ le_bytes 2 (word_of_nat fill :: u16) @ replicate (length d + 2 + fill - length (le_bytes 2 (word_of_nat fill :: u16))) 0)"
    by (rule put_at_zeros[where m = 2]) (simp_all add: u16c.put_eq del: le_bytes_numeral)
  have e: "replicate (length d + fill) (0 :: u8) = replicate fill 0 @ replicate (length d) 0"
    by (simp add: replicate_add[symmetric] add.commute)
  have "copy_at ((le_bytes 2 (word_of_nat fill :: u16) @ replicate fill 0) @ replicate (length d) 0) (2 + fill) d =
      Inr ((le_bytes 2 (word_of_nat fill :: u16) @ replicate fill 0) @ d @ replicate (length d - length d) 0)"
    by (rule copy_at_zeros) (simp_all del: le_bytes_numeral)
  then show ?thesis using p by (simp add: e padded_def del: le_bytes_numeral)
qed

lemma encryptInitCryptoSnd_eq:
  assumes L: "lib_ok L" and "length pubId = 32" and "ECDH L prv pubIdRcv = Inr secret"
    and mtu: "mtu = int (89 + length d + fill)" and d: "8 \<le> length d"
  defines "h \<equiv> (header_byte InitCryptoSnd # ecdh_PublicKey L prv) @ pubId"
  shows "encryptInitCryptoSnd L (Some pubIdRcv) (Some pubId) (Some prv) sn mtu d =
    Inr (le_word (take 8 (ecdh_PublicKey L prv)), h @ sealed_with L secret sn 0 True h (padded fill d))"
proof -
  have "length secret = 32" using assms(3) lib_okD(2)[OF L] by (auto simp: ECDH_def Let_def split: if_splits)
  moreover have "8 \<le> length (padded fill d)" using d by (simp add: padded_def del: le_bytes_numeral)
  ultimately have ce: "chainedEncrypt L sn 0 True secret h (padded fill d) = Inr (h @ sealed_with L secret sn 0 True h (padded fill d))"
    by (rule chainedEncrypt_eq[OF L])
  have pk: "length (ecdh_PublicKey L prv) = 32" using lib_okD(2)[OF L] by (simp add: ecdh_PublicKey_def)
  have n: "nat (2 + int (length d) + int fill) = Suc (Suc (length d + fill))" by simp
  obtain b where b: "put_at (replicate (length d + 2 + fill) 0) 0 (\<lambda>t. PutUint16 t (word_of_nat fill)) = Inr b"
    "copy_at b (2 + fill) d = Inr (padded fill d)"
    using pad_bytes[of d fill] by (auto simp: and_then_eq_Inr)
  show ?thesis
    using ce assms(2,3) pk b copy_key[of 1 "[header_byte InitCryptoSnd]" "ecdh_PublicKey L prv" 64]
      copy_key[of 33 "header_byte InitCryptoSnd # ecdh_PublicKey L prv" pubId 32]
      put_header_byte[of 65 "header_byte InitCryptoSnd"]
    by (simp add: encryptInitCryptoSnd_def make_bytes_def nil_key_def crypto_consts mtu n Let_def slice_from_def h_def u64c.get_eq
        del: le_bytes_numeral)
qed

lemma encryptInitSnd_eq:
  assumes "length ki = 32" and "length ke = 32" and "mtu = int (65 + fill)"
  shows "encryptInitSnd (Some ki) (Some ke) mtu =
    Inr (le_word (take 8 ke), header_byte InitSnd # ke @ ki @ replicate fill 0)"
proof -
  have n: "nat (65 + int fill) = 65 + fill" by simp
  show ?thesis
    using assms put_header_byte[of "65 + fill" "header_byte InitSnd"] copy_key[of 1 "[header_byte InitSnd]" ke "64 + fill"]
      copy_key[of 33 "[header_byte InitSnd] @ ke" ki "32 + fill"]
    by (simp add: encryptInitSnd_def make_bytes_def nil_key_def crypto_consts n slice_from_def u64c.get_eq)
qed

text \<open>Decoding a packet from its parts.\<close>

lemma ECDH_length: "lib_ok L \<Longrightarrow> ECDH L prv pub = Inr secret \<Longrightarrow> length secret = 32"
  using lib_okD(2) by (auto simp: ECDH_def Let_def split: if_splits)

lemma ECDH_agree: "lib_ok L \<Longrightarrow> ECDH L a (ecdh_PublicKey L b) = ECDH L b (ecdh_PublicKey L a)"
  by (simp add: ECDH_def ecdh_PublicKey_def lib_okD(1)[of L a b])

lemma length_PublicKey: "lib_ok L \<Longrightarrow> length (ecdh_PublicKey L prv) = 32"
  using lib_okD(2) by (simp add: ecdh_PublicKey_def)

lemma length_sealed_with: "lib_ok L \<Longrightarrow> length secret = 32 \<Longrightarrow> length (sealed_with L secret sn epoch isSender header d) = length d + 22"
  using lib_okD(3,6) by (simp add: sealed_with_def Let_def del: le_bytes_numeral)

lemma decryptData_split:
  assumes "length h = 9" and "22 \<le> length b"
  shows "decryptData L (h @ b) spare isSender epoch secret =
    and_then (chainedDecrypt L isSender epoch secret h b spare) (\<lambda>r. Inr (mk_message r))"
  using assms by (simp add: decryptData_def slice_to_def slice_from_def crypto_consts)

lemma decryptInitRcv_split:
  assumes "length i = 9" and "length ep = 32" and "length ident = 32" and "22 \<le> length b"
  shows "decryptInitRcv L ((i @ ep @ ident) @ b) spare prv =
    and_then (ECDH L prv ep) (\<lambda>secret.
    and_then (chainedDecrypt L True 0 secret (i @ ep @ ident) b spare) (\<lambda>r. Inr (secret, ident, ep, mk_message r)))"
  using assms by (simp add: decryptInitRcv_def slice_to_def slice_from_def crypto_consts ecdh_NewPublicKey_def)

lemma decryptInitCryptoRcv_split:
  assumes "length i = 9" and "length ep = 32" and "22 \<le> length b"
  shows "decryptInitCryptoRcv L ((i @ ep) @ b) spare prv =
    and_then (ECDH L prv ep) (\<lambda>secret.
    and_then (chainedDecrypt L True 0 secret (i @ ep) b spare) (\<lambda>r. Inr (secret, ep, mk_message r)))"
  using assms by (simp add: decryptInitCryptoRcv_def slice_to_def slice_from_def crypto_consts ecdh_NewPublicKey_def)

lemma decryptInitSnd_split:
  assumes "length ep = 32" and "length ident = 32" and "mtu \<le> int (65 + length b)"
  shows "decryptInitSnd (x # ep @ ident @ b) spare mtu = Inr (ident, ep)"
  using assms by (simp add: decryptInitSnd_def slice_to_def crypto_consts ecdh_NewPublicKey_def)

lemma decryptInitCryptoSnd_split:
  assumes "length ep = 32" and "length ident = 32" and "mtu \<le> int (65 + length b)"
  shows "decryptInitCryptoSnd L (((x # ep) @ ident) @ b) spare prv mtu =
    and_then (ECDH L prv ep) (\<lambda>secret.
    and_then (chainedDecrypt L False 0 secret ((x # ep) @ ident) b spare) (\<lambda>(sn, epoch, packetData).
    and_then (or_panic (Uint16 packetData)) (\<lambda>fillerLen.
    and_then (slice_from packetData (2 + unat fillerLen)) (\<lambda>actualData.
    Inr (ident, ep, mk_message (sn, epoch, actualData))))))"
  using assms by (simp add: decryptInitCryptoSnd_def slice_to_def slice_from_def crypto_consts ecdh_NewPublicKey_def)

section \<open>Properties\<close>

text \<open>An instance of the libraries: addition for Diffie-Hellman, a constant tag, no encryption.\<close>

definition pad32 :: "bytes \<Rightarrow> bytes" where
  "pad32 b = take 32 (b @ replicate 32 0)"

definition demo_lib :: crypto_lib where
  "demo_lib =
     \<lparr>x25519 = (\<lambda>a p. map2 (+) (pad32 a) (pad32 p)),
      aead_seal = (\<lambda>k n t ad. t @ replicate 16 1),
      aead_open = (\<lambda>k n c ad. if 16 \<le> length c \<and> drop (length c - 16) c = replicate 16 1
                               then Some (take (length c - 16) c) else None),
      xaead_seal = (\<lambda>k n t ad. t @ replicate 16 0),
      xchacha_xor = (\<lambda>k n t. t)\<rparr>"

lemma length_pad32 [simp]: "length (pad32 b) = 32"
  by (simp add: pad32_def)

lemma pad32_id: "length b = 32 \<Longrightarrow> pad32 b = b"
  by (simp add: pad32_def)

lemma demo_lib_ok: "lib_ok demo_lib"
proof -
  have "x25519 demo_lib a (x25519 demo_lib b basepoint) = x25519 demo_lib b (x25519 demo_lib a basepoint)" for a b
    by (rule nth_equalityI) (simp_all add: demo_lib_def pad32_id add.left_commute)
  moreover have "aead_open demo_lib k n c ad = Some t \<longleftrightarrow> c = aead_seal demo_lib k n t ad" for k n c ad t
    by (auto simp: demo_lib_def) (metis append_take_drop_id)
  ultimately show ?thesis by (simp add: lib_ok_def) (simp add: demo_lib_def)
qed

text \<open>The same with a tag that depends on the nonce, so that nothing opens under another nonce.\<close>

definition demo_nonce_lib :: crypto_lib where
  "demo_nonce_lib = demo_lib
     \<lparr>aead_seal := (\<lambda>k n t ad. t @ take 16 (n @ replicate 16 1)),
      aead_open := (\<lambda>k n c ad. if 16 \<le> length c \<and> drop (length c - 16) c = take 16 (n @ replicate 16 1)
                                then Some (take (length c - 16) c) else None)\<rparr>"

lemma demo_nonce_lib_ok: "lib_ok demo_nonce_lib"
proof -
  have "aead_open demo_nonce_lib k n c ad = Some t \<longleftrightarrow> c = aead_seal demo_nonce_lib k n t ad" for k n c ad t
    by (auto simp: demo_nonce_lib_def simp del: take_append) (metis append_take_drop_id)
  then show ?thesis using lib_okD[OF demo_lib_ok] by (simp add: lib_ok_def) (simp add: demo_nonce_lib_def demo_lib_def min_def)
qed

lemma demo_nonce_opens:
  assumes "length n = 12" and "length n' = 12" and "n \<noteq> n'"
  shows "aead_open demo_nonce_lib k n (aead_seal demo_nonce_lib k n' t ad) ad = None"
  using assms by (simp add: demo_nonce_lib_def)

text \<open>
  C33: A data packet that one side encrypts is decrypted by the other side to the same payload,
  sequence number and epoch. The epoch is the receiver's, or next to it under a hypothesis on the
  cipher: the receiver tries its own epoch first, then the one before and the one after, and
  the packet must not authenticate under the nonce of an epoch tried before its own. The packet
  is 31 bytes longer than the payload.
\<close>
theorem data_packet_roundtrip:
  assumes "lib_ok L" and "length secret = 32" and "8 \<le> length d" and "unat sn < 2 ^ 48"
    and "epochs_around r = before @ epoch # after"
    and "\<forall>e \<in> set before. aead_open L secret (nonce e sn isSender)
      (aead_seal L secret (nonce epoch sn isSender) d (id_header Data connId)) (id_header Data connId) = None"
  shows "\<exists>enc. encryptData L connId isSender (Some secret) sn epoch d = Inr enc \<and> length enc = length d + 31 \<and>
    decryptData L enc spare (\<not> isSender) r secret = Inr \<lparr>SnConn = sn, currentEpochCrypt = epoch, PayloadRaw = d\<rparr>"
proof -
  let ?s = "sealed_with L secret sn epoch isSender (id_header Data connId) d"
  have len: "length ?s = length d + 22" by (rule length_sealed_with[OF assms(1,2)])
  have "chainedDecrypt L (\<not> isSender) r secret (id_header Data connId) ?s spare = Inr (sn, epoch, d)"
    using assms(6) by (intro chained_roundtrip[OF assms(1-5)]) blast
  then show ?thesis
    using encryptData_eq[OF assms(1-3)] decryptData_split[of "id_header Data connId" ?s] len
    by (simp add: mk_message_def)
qed

text \<open>The instance: the receiver is at epoch 2, and a packet of epoch 3 is opened at the third attempt.\<close>

theorem data_packet_roundtrip_witness:
  "\<exists>enc. encryptData demo_nonce_lib 5 True (Some (replicate 32 7)) 3 3 (replicate 8 9) = Inr enc \<and> length enc = length (replicate 8 (9 :: u8)) + 31 \<and>
    decryptData demo_nonce_lib enc [] (\<not> True) 2 (replicate 32 7) = Inr \<lparr>SnConn = 3, currentEpochCrypt = 3, PayloadRaw = replicate 8 9\<rparr>"
proof (rule data_packet_roundtrip[OF demo_nonce_lib_ok, where before = "[2, 1]" and after = "[]"])
  have "nonce e 3 True \<noteq> nonce 3 3 True" if "e \<in> set [2, 1]" for e
    using that by (auto simp: nonce_def set_direction_def)
  then show "\<forall>e \<in> set [2, 1]. aead_open demo_nonce_lib (replicate 32 7) (nonce e 3 True)
      (aead_seal demo_nonce_lib (replicate 32 7) (nonce 3 3 True) (replicate 8 9) (id_header Data 5)) (id_header Data 5) = None"
    using demo_nonce_opens length_nonce by blast
qed (simp_all add: epochs_around_def)

lemma decryptData_canonical:
  assumes "lib_ok L" and "length secret = 32" and "MinPacketSize \<le> length enc"
    and "decryptData L enc spare isSender r secret = Inr m"
  shows "currentEpochCrypt m \<in> {r, r - 1, r + 1} \<and>
    chainedEncrypt L (SnConn m) (currentEpochCrypt m) (\<not> isSender) secret (take 9 enc) (PayloadRaw m) = Inr enc"
proof -
  let ?h = "take 9 enc" and ?x = "take 6 (drop 9 enc)" and ?c = "drop 15 enc"
  have l: "39 \<le> length enc" using assms(3) by (simp add: crypto_consts MinProtoSize_def)
  have c: "?c = drop 6 (drop 9 enc)" by simp
  have enc: "?h @ ?x @ ?c = enc" unfolding c by (simp only: append_take_drop_id)
  have lens: "length ?h = 9" "length ?x = 6" "24 \<le> length ?c" using l by simp_all
  have "decryptData L (?h @ ?x @ ?c) spare isSender r secret = Inr m" using assms(4) by (simp only: enc)
  then have "and_then (chainedDecrypt L isSender r secret ?h (?x @ ?c) spare) (\<lambda>r. Inr (mk_message r)) = Inr m"
    using decryptData_split[OF lens(1), of "?x @ ?c"] lens by simp
  then obtain sn epoch d where dec: "chainedDecrypt L isSender r secret ?h (?x @ ?c) spare = Inr (sn, epoch, d)"
    and m: "m = mk_message (sn, epoch, d)"
    by (auto simp: and_then_eq_Inr)
  note r = chainedDecrypt_Inr[OF assms(1,2) lens(2,3) dec]
  have "epoch \<in> {r, r - 1, r + 1}" using r(1) by (auto simp: epochs_around_def split: if_splits)
  then show ?thesis using r(2) unfolding enc m by (simp add: mk_message_def)
qed

text \<open>
  C34: A data packet of at least the minimal size is accepted only if it is, byte for byte, what
  the other side's encryption makes of its header, the returned sequence number, epoch and
  payload, and the epoch is the receiver's or next to it.
\<close>
theorem data_packet_canonical:
  assumes "lib_ok L" and "length secret = 32" and "MinPacketSize \<le> length enc"
    and "decryptData L enc spare isSender r secret = Inr m"
  shows "currentEpochCrypt m \<in> {r, r - 1, r + 1} \<and>
    chainedEncrypt L (SnConn m) (currentEpochCrypt m) (\<not> isSender) secret (take 9 enc) (PayloadRaw m) = Inr enc"
  using decryptData_canonical[OF assms] .

lemma demo_packet: "encryptData demo_lib 5 True (Some (replicate 32 7)) 3 2 (replicate 8 9) =
  Inr (id_header Data 5 @ sealed_with demo_lib (replicate 32 7) 3 2 True (id_header Data 5) (replicate 8 9))"
  by (rule encryptData_eq[OF demo_lib_ok]) simp_all

theorem data_packet_canonical_witness:
  "\<exists>enc m. decryptData demo_lib enc [] False 2 (replicate 32 7) = Inr m \<and>
    chainedEncrypt demo_lib (SnConn m) (currentEpochCrypt m) (\<not> False) (replicate 32 7) (take 9 enc) (PayloadRaw m) = Inr enc"
proof -
  let ?h = "id_header Data 5" and ?k = "replicate 32 7 :: bytes"
  let ?s = "sealed_with demo_lib ?k 3 2 True ?h (replicate 8 9)"
  have "chainedDecrypt demo_lib (\<not> True) 2 ?k ?h ?s [] = Inr (3, 2, replicate 8 9)"
    by (rule chained_roundtrip[OF demo_lib_ok, where before = "[]" and after = "[1, 3]"]) (simp_all add: epochs_around_def)
  moreover have len: "length ?s = 30" using length_sealed_with[OF demo_lib_ok, of ?k] by simp
  ultimately have dec: "decryptData demo_lib (?h @ ?s) [] False 2 ?k = Inr (mk_message (3, 2, replicate 8 9))"
    using decryptData_split[of ?h ?s] by simp
  have min: "MinPacketSize \<le> length (?h @ ?s)" using len by (simp add: crypto_consts MinProtoSize_def)
  show ?thesis using dec conjunct2[OF data_packet_canonical[OF demo_lib_ok length_replicate min dec]] by blast
qed

text \<open>
  C36: Two packets are sealed with the same nonce exactly when the direction, the 48 bits of the
  sequence number, and the epoch without its bit 7 agree: the direction bit takes the place of
  bit 7 of the epoch, so the nonces of an epoch repeat 128 epochs later.
\<close>
theorem nonce_repeats_iff:
  "nonceDet e sn h = nonceDet e' sn' h' \<longleftrightarrow>
     h = h' \<and> take_bit 48 sn = take_bit 48 sn' \<and> take_bit 48 (e AND NOT 0x80) = take_bit 48 (e' AND NOT 0x80)"
proof -
  have "take_bit 48 (epoch_bits False e) = take_bit 48 (epoch_bits False e') \<longleftrightarrow> (\<forall>n < 48. n \<noteq> 7 \<longrightarrow> bit e n = bit e' n)"
    by (auto simp: bit_eq_iff bit_take_bit_iff bit_epoch_bits)
  then have "take_bit 48 (e AND NOT 0x80) = take_bit 48 (e' AND NOT 0x80) \<longleftrightarrow> (\<forall>n < 48. n \<noteq> 7 \<longrightarrow> bit e n = bit e' n)"
    unfolding epoch_bits_def if_False .
  then show ?thesis unfolding nonceDet_eq sum.inject nonce_eq_iff by blast
qed

text \<open>
  Within the first 128 epochs, which is \<open>2 ^ 55\<close> packets, every pair of direction and packet
  number has a nonce of its own.
\<close>
theorem nonce_unique:
  assumes "unat e < 128" and "unat e' < 128" and "unat sn < 2 ^ 48" and "unat sn' < 2 ^ 48"
  shows "nonceDet e sn h = nonceDet e' sn' h' \<longleftrightarrow> e = e' \<and> sn = sn' \<and> h = h'"
proof
  have small: "\<not> bit x n" if "unat x < 128" "7 \<le> n" for x :: u64 and n
  proof -
    have "take_bit 7 x = x" using that(1) by (intro take_bit_word_eq_self) simp
    then have "bit x n = bit (take_bit 7 x) n" by simp
    then show ?thesis using that(2) by (simp add: bit_take_bit_iff)
  qed
  assume "nonceDet e sn h = nonceDet e' sn' h'"
  then have eq: "h = h'" "take_bit 48 sn = take_bit 48 sn'" "\<And>n. n < 48 \<Longrightarrow> n \<noteq> 7 \<Longrightarrow> bit e n = bit e' n"
    by (simp_all add: nonceDet_eq nonce_eq_iff)
  have "bit e n = bit e' n" for n
    using small[OF assms(1), of n] small[OF assms(2), of n] eq(3)[of n] by (cases "7 \<le> n") auto
  then have "e = e'" by (intro bit_word_eqI) simp
  moreover have "sn = sn'" using eq(2) assms(3,4) by (metis take_bit_word_eq_self)
  ultimately show "e = e' \<and> sn = sn' \<and> h = h'" using eq(1) by simp
qed simp

theorem nonce_unique_witness: "nonceDet 0 1 True \<noteq> nonceDet 1 1 True"
  using nonce_unique[of 0 1 1 1 True True] by simp

lemma demo_ECDH: "\<exists>secret. ECDH demo_lib (replicate 32 2) (ecdh_PublicKey demo_lib (replicate 32 1)) = Inr secret"
proof -
  let ?s = "x25519 demo_lib (replicate 32 2) (ecdh_PublicKey demo_lib (replicate 32 1))"
  have "?s ! 0 = 12" by (simp add: demo_lib_def ecdh_PublicKey_def pad32_id basepoint_def)
  moreover have "replicate 32 (0 :: u8) ! 0 = 0" by simp
  moreover have "(12 :: u8) \<noteq> 0" by simp
  ultimately have "?s \<noteq> replicate 32 0" by (intro notI) (simp only:)
  then show ?thesis by (simp add: ECDH_def Let_def)
qed

text \<open>
  Both replies of a handshake are decrypted by the initiator to the payload and the sequence
  number that were sent, the keys of the responder, and the shared secret the responder used.
\<close>
lemma handshake_replies:
  assumes "lib_ok L" and "8 \<le> length d" and "unat sn < 2 ^ 48" and "length pubId = 32"
    and "ECDH L prvRcv (ecdh_PublicKey L prvSnd) = Inr secret"
  shows "(\<exists>enc. encryptInitRcv L connId (Some pubId) (Some (ecdh_PublicKey L prvSnd)) (Some prvRcv) sn d = Inr enc \<and>
      decryptInitRcv L enc spare prvSnd = Inr (secret, pubId, ecdh_PublicKey L prvRcv, mk_message (sn, 0, d))) \<and>
    (\<exists>enc. encryptInitCryptoRcv L connId (Some (ecdh_PublicKey L prvSnd)) (Some prvRcv) sn d = Inr enc \<and>
      decryptInitCryptoRcv L enc spare prvSnd = Inr (secret, ecdh_PublicKey L prvRcv, mk_message (sn, 0, d)))"
proof -
  let ?pk = "ecdh_PublicKey L prvRcv"
  have k: "length secret = 32" by (rule ECDH_length[OF assms(1,5)])
  have agree: "ECDH L prvSnd ?pk = Inr secret" using ECDH_agree[OF assms(1)] assms(5) by simp
  note pk = length_PublicKey[OF assms(1), of prvRcv] and len = length_sealed_with[OF assms(1) k]
  have dec: "chainedDecrypt L True 0 secret h (sealed_with L secret sn 0 False h d) spare = Inr (sn, 0, d)" for h
    using chained_roundtrip[OF assms(1) k assms(2,3), of 0 "[]" 0 "[1]" False h spare] by (simp add: epochs_around_def)
  show ?thesis
    using encryptInitRcv_eq[OF assms(1,2,4,5)] encryptInitCryptoRcv_eq[OF assms(1,2,5)] dec agree
      decryptInitRcv_split[of "id_header InitRcv connId" ?pk pubId] decryptInitCryptoRcv_split[of "id_header InitCryptoRcv connId" ?pk]
    by (simp add: pk len assms(4))
qed

text \<open>
  The first packet of a handshake to a known identity is exactly as long as the MTU, names
  the connection by the first bytes of the ephemeral key, and is decrypted by the holder of the
  identity key to the sender's keys and the payload without the filler.
\<close>
lemma crypto_init_decrypts:
  assumes "lib_ok L" and "8 \<le> length d" and "unat sn < 2 ^ 48" and "length pubId = 32"
    and "ECDH L prvEp (ecdh_PublicKey L prvIdRcv) = Inr secret"
    and "int (length d) + 89 \<le> mtu" and "mtu < 2 ^ 16"
  shows "\<exists>enc. encryptInitCryptoSnd L (Some (ecdh_PublicKey L prvIdRcv)) (Some pubId) (Some prvEp) sn mtu d =
      Inr (le_word (take 8 (ecdh_PublicKey L prvEp)), enc) \<and> int (length enc) = mtu \<and>
    decryptInitCryptoSnd L enc spare prvIdRcv mtu = Inr (pubId, ecdh_PublicKey L prvEp, mk_message (sn, 0, d))"
proof -
  obtain fill where fill: "mtu = int (89 + length d + fill)" "fill < 2 ^ 16"
    using assms(6,7) that[of "nat (mtu - int (length d) - 89)"] by auto
  let ?h = "(header_byte InitCryptoSnd # ecdh_PublicKey L prvEp) @ pubId"
  let ?s = "sealed_with L secret sn 0 True ?h (padded fill d)"
  have k: "length secret = 32" by (rule ECDH_length[OF assms(1,5)])
  have agree: "ECDH L prvIdRcv (ecdh_PublicKey L prvEp) = Inr secret" using ECDH_agree[OF assms(1)] assms(5) by simp
  note pk = length_PublicKey[OF assms(1), of prvEp]
  have pl: "length (padded fill d) = length d + fill + 2" by (simp add: padded_def del: le_bytes_numeral)
  have len: "length ?s = length d + fill + 24" using length_sealed_with[OF assms(1) k] pl by simp
  have dec: "chainedDecrypt L False 0 secret ?h ?s spare = Inr (sn, 0, padded fill d)"
    using chained_roundtrip[OF assms(1) k _ assms(3), of "padded fill d" 0 "[]" 0 "[1]" True ?h spare] assms(2) pl
    by (simp add: epochs_around_def)
  have "take_bit 16 (word_of_nat fill :: u16) = word_of_nat fill"
    using unsigned_less[of "word_of_nat fill :: u16", where 'a = nat] by (intro take_bit_word_eq_self) simp
  then have fl: "Uint16 (padded fill d) = Some (word_of_nat fill)"
    by (simp add: padded_def u16c.get_append del: le_bytes_numeral)
  have "unat (word_of_nat fill :: u16) = fill" using fill(2) by (simp add: unat_of_nat_small)
  then have "slice_from (padded fill d) (2 + unat (word_of_nat fill :: u16)) = Inr d"
    by (simp add: slice_from_def padded_def del: le_bytes_numeral)
  then have "decryptInitCryptoSnd L (?h @ ?s) spare prvIdRcv mtu = Inr (pubId, ecdh_PublicKey L prvEp, mk_message (sn, 0, d))"
    using decryptInitCryptoSnd_split[of "ecdh_PublicKey L prvEp" pubId mtu ?s L "header_byte InitCryptoSnd" spare prvIdRcv]
      pk assms(4) len fill(1) agree dec fl by simp
  moreover have "int (length (?h @ ?s)) = mtu" using pk assms(4) len fill(1) by simp
  ultimately show ?thesis using encryptInitCryptoSnd_eq[OF assms(1,4,5) fill(1) assms(2), of sn] by blast
qed

text \<open>
  C37: The filler length of that packet is chosen by its sender and not checked: a packet that is
  sealed correctly for the receiver's identity key, but announces more filler than it has, makes
  the receiver panic.
\<close>
theorem crypto_init_filler_panic:
  assumes "lib_ok L" and "unat sn < 2 ^ 48" and "length pubId = 32"
    and "ECDH L prvEp (ecdh_PublicKey L prvIdRcv) = Inr secret"
    and "length b + 65 + 22 \<ge> nat mtu" and "8 \<le> length b" and "length b < 2 + unat (le_word (take 2 b) :: u16)"
  shows "\<exists>enc. chainedEncrypt L sn 0 True secret ((header_byte InitCryptoSnd # ecdh_PublicKey L prvEp) @ pubId) b = Inr enc \<and>
    decryptInitCryptoSnd L enc spare prvIdRcv mtu = Inl (Panic ''slice bounds out of range'')"
proof -
  let ?h = "(header_byte InitCryptoSnd # ecdh_PublicKey L prvEp) @ pubId"
  let ?s = "sealed_with L secret sn 0 True ?h b"
  have k: "length secret = 32" by (rule ECDH_length[OF assms(1,4)])
  have agree: "ECDH L prvIdRcv (ecdh_PublicKey L prvEp) = Inr secret" using ECDH_agree[OF assms(1)] assms(4) by simp
  have len: "length ?s = length b + 22" using length_sealed_with[OF assms(1) k] by simp
  have dec: "chainedDecrypt L False 0 secret ?h ?s spare = Inr (sn, 0, b)"
    using chained_roundtrip[OF assms(1) k assms(6,2), of 0 "[]" 0 "[1]" True ?h spare] by (simp add: epochs_around_def)
  have "Uint16 b = Some (le_word (take 2 b))" using assms(6) by (simp add: u16c.get_eq)
  then have "decryptInitCryptoSnd L (?h @ ?s) spare prvIdRcv mtu = Inl (Panic ''slice bounds out of range'')"
    using decryptInitCryptoSnd_split[of "ecdh_PublicKey L prvEp" pubId mtu ?s L "header_byte InitCryptoSnd" spare prvIdRcv]
      length_PublicKey[OF assms(1), of prvEp] assms(3,5,7) len agree dec by (simp add: slice_from_def)
  then show ?thesis using chainedEncrypt_eq[OF assms(1) k assms(6), of sn 0 True ?h] by blast
qed

theorem crypto_init_filler_panic_witness:
  "\<exists>secret enc. chainedEncrypt demo_lib 3 0 True secret
      ((header_byte InitCryptoSnd # ecdh_PublicKey demo_lib (replicate 32 2)) @ replicate 32 4) (255 # 255 # replicate 1400 0) = Inr enc \<and>
    decryptInitCryptoSnd demo_lib enc [] (replicate 32 1) 1400 = Inl (Panic ''slice bounds out of range'')"
proof -
  obtain secret where s: "ECDH demo_lib (replicate 32 2) (ecdh_PublicKey demo_lib (replicate 32 1)) = Inr secret"
    using demo_ECDH by blast
  let ?b = "255 # 255 # replicate 1400 0 :: bytes"
  have w: "le_word (take 2 ?b) = (0xffff :: u16)" by simp
  have "length ?b < 2 + unat (le_word (take 2 ?b) :: u16)" unfolding w by simp
  then show ?thesis
    using crypto_init_filler_panic[OF demo_lib_ok _ _ s, of 3 "replicate 32 4" 1400 ?b "[]"] by auto
qed

end
