(* ===== verification/Conn.thy ===== *)
theory Conn
  imports Crypto Send_Buffer Receive_Buffer
begin

text \<open>
  \<^verbatim>\<open>conn.go\<close>, \<^verbatim>\<open>stream.go\<close> and \<^verbatim>\<open>Conn.encode\<close> of \<^verbatim>\<open>codec.go\<close>: a connection with its streams,
  buffers, keys and packet counters. A \<^verbatim>\<open>Stream\<close> object is the entry of the streams map, and a
  pointer to it is its key there; its pointer to the connection is the connection passed along.
  Of the listener a connection uses the identity key and the MTU, the record \<open>conn_env\<close>.

  The socket is outside the model: a write takes the error it will return as an argument, and
  the packet written is part of the result.
\<close>

section \<open>State\<close>

record Stream =
  st_streamID :: u32
  st_closedAtNano :: u64

record conn_env =
  env_lib :: crypto_lib
  env_prvKeyId :: prvKey
  env_mtu :: int

record Conn =
  connId :: u64
  remoteAddr :: string
  streams :: "(u32, Stream) linked_map"
  prvKeyEpSnd :: prvKey
  pubKeyEpRcv :: "pubKey option"
  pubKeyIdRcv :: "pubKey option"
  sharedSecret :: "bytes option"
  c_snd :: SendBuffer
  c_rcv :: ReceiveBuffer
  dataInFlight :: int
  rcvWndSize :: u64
  isSenderOnInit :: bool
  isWithCryptoOnInit :: bool
  isHandshakeDoneOnRcv :: bool
  isInitSentOnSnd :: bool
  nextWriteTime :: u64
  snCrypto :: u64
  epochCryptoSnd :: u64
  epochCryptoRcv :: u64
  measurements :: Measurements

definition Conn_msgType :: "Conn \<Rightarrow> CryptoMsgType" where
  "Conn_msgType c =
     (if isHandshakeDoneOnRcv c then Data
      else if isWithCryptoOnInit c \<and> isSenderOnInit c then InitCryptoSnd
      else if isWithCryptoOnInit c \<and> \<not> isSenderOnInit c then InitCryptoRcv
      else if isSenderOnInit c then InitSnd
      else InitRcv)"

section \<open>Encoding\<close>

definition encode_payload :: "PayloadHeader \<Rightarrow> bytes option \<Rightarrow> bytes result" where
  "encode_payload p userData = or_panic (map_option fst (EncodePayload p userData))"

definition encrypt_packet :: "conn_env \<Rightarrow> Conn \<Rightarrow> PayloadHeader \<Rightarrow> bytes option \<Rightarrow> CryptoMsgType \<Rightarrow> bytes result" where
  "encrypt_packet env conn p userData msgType =
     (let L = env_lib env; pubId = ecdh_PublicKey L (env_prvKeyId env) in
      case msgType of
        InitSnd \<Rightarrow>
          and_then (encryptInitSnd (Some pubId) (Some (ecdh_PublicKey L (prvKeyEpSnd conn))) (env_mtu env)) (\<lambda>(_, encData).
          Inr encData)
      | InitCryptoSnd \<Rightarrow>
          and_then (encode_payload p userData) (\<lambda>packetData.
          and_then (encryptInitCryptoSnd L (pubKeyIdRcv conn) (Some pubId) (Some (prvKeyEpSnd conn)) (snCrypto conn)
                      (env_mtu env) packetData) (\<lambda>(_, encData).
          Inr encData))
      | InitCryptoRcv \<Rightarrow>
          and_then (encode_payload p userData) (\<lambda>packetData.
          encryptInitCryptoRcv L (connId conn) (pubKeyEpRcv conn) (Some (prvKeyEpSnd conn)) (snCrypto conn) packetData)
      | InitRcv \<Rightarrow>
          and_then (encode_payload p userData) (\<lambda>packetData.
          encryptInitRcv L (connId conn) (Some pubId) (pubKeyEpRcv conn) (Some (prvKeyEpSnd conn)) (snCrypto conn) packetData)
      | Data \<Rightarrow>
          and_then (encode_payload p userData) (\<lambda>packetData.
          encryptData L (connId conn) (isSenderOnInit conn) (sharedSecret conn) (snCrypto conn) (epochCryptoSnd conn)
            packetData))"

text \<open>The packet counter after a packet, with the rollover into the next epoch.\<close>

definition next_sn :: "Conn \<Rightarrow> unit result \<times> Conn" where
  "next_sn conn =
     (let conn = conn\<lparr>snCrypto := snCrypto conn + 1\<rparr> in
      if snCrypto conn > 2 ^ 48 - 1 then
        if epochCryptoSnd conn + 1 > 2 ^ 47 - 1 then
          (Inl (Err ''exhausted 2^95 sn number, cannot continue''), conn)
        else (Inr (), conn\<lparr>epochCryptoSnd := epochCryptoSnd conn + 1, snCrypto := 0\<rparr>)
      else (Inr (), conn))"

definition Conn_encode ::
  "conn_env \<Rightarrow> Conn \<Rightarrow> PayloadHeader \<Rightarrow> bytes option \<Rightarrow> CryptoMsgType \<Rightarrow> bytes result \<times> Conn" where
  "Conn_encode env conn p userData msgType =
     (case encrypt_packet env conn p userData msgType of
        Inl e \<Rightarrow> (Inl e, conn)
      | Inr encData \<Rightarrow>
          (case next_sn (if msgType = Data then conn else conn\<lparr>isInitSentOnSnd := True\<rparr>) of
             (r, conn) \<Rightarrow> (and_then r (\<lambda>_. Inr encData), conn)))"

section \<open>Streams\<close>

definition Conn_Stream :: "Conn \<Rightarrow> u32 \<Rightarrow> Stream \<times> Conn" where
  "Conn_Stream c streamID =
     (case lm_get (streams c) streamID of
        Some v \<Rightarrow> (v, c)
      | None \<Rightarrow>
          let s = \<lparr>st_streamID = streamID, st_closedAtNano = 0\<rparr>
          in (s, c\<lparr>streams := lm_put (streams c) streamID s\<rparr>))"

text \<open>
  A write through the pointer \<open>ptr\<close> to a stream object shows in the map as long as the stream is in
  it. The key need not be the number inside the object, which the cleanup of a listener can change.
\<close>

definition put_stream :: "Conn \<Rightarrow> u32 \<Rightarrow> Stream \<Rightarrow> Conn" where
  "put_stream c ptr s =
     (if lm_get (streams c) ptr = None then c else c\<lparr>streams := lm_put (streams c) ptr s\<rparr>)"

definition Stream_Ping :: "Conn \<Rightarrow> Stream \<Rightarrow> Conn" where
  "Stream_Ping c s = c\<lparr>c_snd := SendBuffer_QueuePing (c_snd c) (st_streamID s)\<rparr>"

definition Stream_Close :: "Conn \<Rightarrow> Stream \<Rightarrow> Conn" where
  "Stream_Close c s = c\<lparr>c_snd := SendBuffer_Close (c_snd c) (st_streamID s)\<rparr>"

definition Stream_IsClosed :: "Stream \<Rightarrow> bool" where
  "Stream_IsClosed s \<longleftrightarrow> st_closedAtNano s \<noteq> 0"

definition Stream_IsCloseRequested :: "Conn \<Rightarrow> Stream \<Rightarrow> bool" where
  "Stream_IsCloseRequested c s \<longleftrightarrow> SendBuffer_GetOffsetClosedAt (c_snd c) (st_streamID s) \<noteq> None"

definition Stream_IsOpen :: "Conn \<Rightarrow> Stream \<Rightarrow> bool" where
  "Stream_IsOpen c s \<longleftrightarrow> \<not> Stream_IsCloseRequested c s \<and> \<not> Stream_IsClosed s"

datatype io_error = EOF | ErrUnexpectedEOF | NetErr string

text \<open>A read can mark the stream closed, so it takes the key of the stream beside the object.\<close>

definition Stream_Read :: "Conn \<Rightarrow> u32 \<Rightarrow> Stream \<Rightarrow> (bytes option \<times> io_error option) \<times> Stream \<times> Conn" where
  "Stream_Read c ptr s =
     (let closeOffset = ReceiveBuffer_GetOffsetClosedAt (c_rcv c) (st_streamID s) in
      if st_closedAtNano s \<noteq> 0 then ((None, Some ErrUnexpectedEOF), s, c)
      else case ReceiveBuffer_RemoveOldestInOrder (c_rcv c) (st_streamID s) of
        ((offset, d, receiveTimeNano), rcv) \<Rightarrow>
          let c = c\<lparr>c_rcv := rcv\<rparr> in
          case closeOffset of
            Some closeOffset \<Rightarrow>
              if offset \<ge> closeOffset then
                let s = s\<lparr>st_closedAtNano := receiveTimeNano\<rparr> in ((d, Some EOF), s, put_stream c ptr s)
              else ((d, None), s, c)
          | None \<Rightarrow> ((d, None), s, c))"

text \<open>The last argument is the error of \<^verbatim>\<open>TimeoutReadNow\<close>, which wakes the listener up.\<close>

definition Stream_Write :: "Conn \<Rightarrow> Stream \<Rightarrow> bytes \<Rightarrow> io_error option \<Rightarrow> ((int \<times> io_error option) \<times> Conn) option" where
  "Stream_Write c s userData wake =
     (if st_closedAtNano s \<noteq> 0 \<or> SendBuffer_GetOffsetClosedAt (c_snd c) (st_streamID s) \<noteq> None
      then Some ((0, Some ErrUnexpectedEOF), c)
      else if length userData = 0 then Some ((0, None), c)
      else do {
        ((n, status), sb) \<leftarrow> SendBuffer_QueueData (c_snd c) (st_streamID s) userData;
        let c = c\<lparr>c_snd := sb\<rparr>;
        if status \<noteq> InsertStatusOk then Some ((n, None), c)
        else case wake of Some err \<Rightarrow> Some ((0, Some err), c) | None \<Rightarrow> Some ((n, None), c)
      })"

definition Conn_Close :: "Conn \<Rightarrow> Conn" where
  "Conn_Close c = foldl Stream_Close c (map snd (lm_entries (streams c)))"

section \<open>Receiving\<close>

definition checkStreamFullyAcked :: "Conn \<Rightarrow> u32 \<Rightarrow> bool" where
  "checkStreamFullyAcked c streamID =
     (case SendBuffer_GetOffsetClosedAt (c_snd c) streamID of
        None \<Rightarrow> False
      | Some closeOffset \<Rightarrow> SendBuffer_GetOffsetAcked (c_snd c) streamID \<ge> closeOffset)"

definition decode_ack :: "Conn \<Rightarrow> u32 \<Rightarrow> Stream \<Rightarrow> Ack \<Rightarrow> int \<Rightarrow> u64 \<Rightarrow> Conn option" where
  "decode_ack c ptr s ack rawLen nowNano =
     (case SendBuffer_AcknowledgeRange (c_snd c) ack of
        ((ackStatus, sentTimeNano), sb) \<Rightarrow>
          let c = c\<lparr>c_snd := sb\<rparr>;
              c = (case ackStatus of
                     AckStatusOk \<Rightarrow> c\<lparr>dataInFlight := dataInFlight c - rawLen\<rparr>
                   | AckDup \<Rightarrow> c\<lparr>measurements := onDuplicateAck (measurements c)\<rparr>
                   | AckNoStream \<Rightarrow> c);
              c = c\<lparr>rcvWndSize := ack_rcvWnd ack\<rparr>;
              c = (if checkStreamFullyAcked c (st_streamID s) then put_stream c ptr (s\<lparr>st_closedAtNano := nowNano\<rparr>) else c)
          in if nowNano > sentTimeNano \<and> ackStatus = AckStatusOk then do {
               m \<leftarrow> updateMeasurements (nowNano - sentTimeNano) (ucast (ack_len ack)) nowNano (measurements c);
               Some (c\<lparr>measurements := m\<rparr>)
             }
             else Some c)"

text \<open>The user data of the packet: data, a ping or close, or nothing for a bare acknowledgement.\<close>

definition decode_data :: "Conn \<Rightarrow> u32 \<Rightarrow> PayloadHeader \<Rightarrow> bytes option \<Rightarrow> u64 \<Rightarrow> Conn option" where
  "decode_data c streamID p userData nowNano =
     (if length (case userData of None \<Rightarrow> [] | Some d \<Rightarrow> d) > 0 then do {
        d \<leftarrow> userData;
        (_, rcv) \<leftarrow> ReceiveBuffer_Insert (c_rcv c) streamID (ph_StreamOffset p) nowNano d;
        Some (c\<lparr>c_rcv := rcv\<rparr>)
      }
      else if ph_IsClose p \<or> userData \<noteq> None
      then Some (c\<lparr>c_rcv := snd (ReceiveBuffer_EmptyInsert (c_rcv c) streamID (ph_StreamOffset p) nowNano)\<rparr>)
      else Some c)"

text \<open>The result is the identifier of the stream and the connection; \<open>None\<close> is a panic.\<close>

definition Conn_decode :: "Conn \<Rightarrow> PayloadHeader \<Rightarrow> bytes option \<Rightarrow> int \<Rightarrow> u64 \<Rightarrow> (u32 \<times> Conn) option" where
  "Conn_decode c p userData rawLen nowNano =
     (case Conn_Stream c (ph_StreamID p) of
        (s, c) \<Rightarrow> do {
          c \<leftarrow> (case ph_Ack p of None \<Rightarrow> Some c | Some ack \<Rightarrow> decode_ack c (ph_StreamID p) s ack rawLen nowNano);
          c \<leftarrow> decode_data c (st_streamID s) p userData nowNano;
          let c = (if ph_IsClose p
                   then c\<lparr>c_rcv := ReceiveBuffer_Close (c_rcv c) (st_streamID s) (ph_StreamOffset p),
                          c_snd := SendBuffer_Close (c_snd c) (st_streamID s)\<rparr>
                   else c);
          Some (st_streamID s, c)
        })"

section \<open>Sending\<close>

type_synonym flush_result = "(int \<times> u64) result \<times> Conn \<times> bytes option"

text \<open>The write and what follows it: the error, or the pacing and the next write time.\<close>

definition write_packet :: "Conn \<Rightarrow> bytes \<Rightarrow> go_error option \<Rightarrow> u64 \<Rightarrow> int \<Rightarrow> u64 \<Rightarrow> flush_result" where
  "write_packet c encData werr pacedLen packetLen nowNano =
     (case werr of
        Some err \<Rightarrow> (Inl err, c, None)
      | None \<Rightarrow>
          (case calcPacing (measurements c) pacedLen of
             None \<Rightarrow> (Inl (Panic ''integer divide by zero''), c, Some encData)
           | Some pacingNano \<Rightarrow>
               (Inr (packetLen, pacingNano), c\<lparr>nextWriteTime := nowNano + pacingNano\<rparr>, Some encData)))"

definition Conn_sendPacket ::
  "conn_env \<Rightarrow> Conn \<Rightarrow> Stream \<Rightarrow> Ack option \<Rightarrow> bytes \<Rightarrow> u64 \<Rightarrow> bool \<Rightarrow> CryptoMsgType \<Rightarrow> u64 \<Rightarrow> bool \<Rightarrow> go_error option \<Rightarrow> flush_result" where
  "Conn_sendPacket env c s ack splitData offset isClose msgType nowNano trackInFlight werr =
     (let p = \<lparr>ph_IsClose = isClose, ph_Ack = ack, ph_StreamID = st_streamID s, ph_StreamOffset = offset\<rparr> in
      case Conn_encode env c p (Some splitData) msgType of
        (Inl err, c) \<Rightarrow> (Inl err, c, None)
      | (Inr encData, c) \<Rightarrow>
          let packetLen = int (length splitData);
              c' = (if trackInFlight \<and> werr = None then c\<lparr>dataInFlight := dataInFlight c + packetLen\<rparr> else c);
              pacedLen = (if trackInFlight then len64 encData else len64 splitData)
          in write_packet c' encData werr pacedLen packetLen nowNano)"

definition Conn_writeAck :: "conn_env \<Rightarrow> Conn \<Rightarrow> Stream \<Rightarrow> Ack option \<Rightarrow> u64 \<Rightarrow> go_error option \<Rightarrow> flush_result" where
  "Conn_writeAck env c s ack nowNano werr =
     (let isClose = checkStreamFullyAcked c (st_streamID s);
          p = \<lparr>ph_IsClose = isClose, ph_Ack = ack, ph_StreamID = st_streamID s, ph_StreamOffset = 0\<rparr> in
      case Conn_encode env c p None (Conn_msgType c) of
        (Inl err, c) \<Rightarrow> (Inl err, c, None)
      | (Inr encData, c) \<Rightarrow> write_packet c encData werr (len64 encData) 0 nowNano)"

text \<open>The part of \<^verbatim>\<open>Flush\<close> after the retransmission: new data, an acknowledgement, or nothing.\<close>

definition flush_new :: "conn_env \<Rightarrow> Conn \<Rightarrow> Stream \<Rightarrow> Ack option \<Rightarrow> CryptoMsgType \<Rightarrow> u64 \<Rightarrow> go_error option \<Rightarrow> flush_result" where
  "flush_new env c s ack msgType nowNano werr =
     (if isHandshakeDoneOnRcv c \<or> \<not> isInitSentOnSnd c then
        (case SendBuffer_ReadyToSend (c_snd c) (st_streamID s) msgType ack (env_mtu env) nowNano of
           ((splitData, offset, isClose), sb) \<Rightarrow>
             let c = c\<lparr>c_snd := sb\<rparr> in
             case splitData of
               Some d \<Rightarrow> Conn_sendPacket env c s ack d offset isClose msgType nowNano True werr
             | None \<Rightarrow>
                 if ack \<noteq> None \<or> \<not> isInitSentOnSnd c then Conn_writeAck env c s ack nowNano werr
                 else (Inr (0, MinDeadLine), c, None))
      else if ack \<noteq> None then Conn_writeAck env c s ack nowNano werr
      else (Inr (0, MinDeadLine), c, None))"

definition Conn_Flush :: "conn_env \<Rightarrow> Conn \<Rightarrow> Stream \<Rightarrow> u64 \<Rightarrow> go_error option \<Rightarrow> flush_result" where
  "Conn_Flush env c s nowNano werr =
     (case ReceiveBuffer_GetSndAck (c_rcv c) of
        (ack, rcv) \<Rightarrow>
          let c = c\<lparr>c_rcv := rcv\<rparr>;
              ack = map_option (\<lambda>a. a\<lparr>ack_rcvWnd :=
                word_of_int (rcv_capacity rcv) - word_of_int (ReceiveBuffer_Size rcv)\<rparr>) ack
          in if nextWriteTime c > nowNano then (Inr (0, nextWriteTime c - nowNano), c, None)
             else if dataInFlight c + env_mtu env > go_int (rcvWndSize c) then
               (if ack \<noteq> None then Conn_writeAck env c s ack nowNano werr else (Inr (0, MinDeadLine), c, None))
             else
               let msgType = Conn_msgType c in
               case SendBuffer_ReadyToRetransmit (c_snd c) (st_streamID s) ack (env_mtu env)
                      (rtoNano (measurements c)) msgType nowNano of
                 Inl err \<Rightarrow> (Inl err, c, None)
               | Inr ((splitData, offset, isClose), sb) \<Rightarrow>
                   let c = c\<lparr>c_snd := sb\<rparr> in
                   case splitData of
                     Some d \<Rightarrow>
                       Conn_sendPacket env (c\<lparr>measurements := onPacketLoss (measurements c)\<rparr>) s ack d offset isClose
                         msgType nowNano False werr
                   | None \<Rightarrow> flush_new env c s ack msgType nowNano werr)"

section \<open>Packet numbers\<close>

text \<open>Epoch and sequence number as one counter.\<close>

definition packet_no :: "Conn \<Rightarrow> nat" where
  "packet_no c = unat (epochCryptoSnd c) * 2 ^ 48 + unat (snCrypto c)"

definition sn_inv :: "Conn \<Rightarrow> bool" where
  "sn_inv c \<longleftrightarrow> unat (snCrypto c) < 2 ^ 48 \<and> unat (epochCryptoSnd c) < 2 ^ 47"

lemma next_sn_counts:
  assumes inv: "sn_inv c" and n: "next_sn c = (Inr (), c')"
  shows "sn_inv c' \<and> packet_no c' = Suc (packet_no c)"
proof -
  have s: "unat (snCrypto c + 1) = unat (snCrypto c) + 1"
    using inv by (subst unat_add_small) (simp_all add: sn_inv_def)
  have e: "unat (epochCryptoSnd c + 1) = unat (epochCryptoSnd c) + 1"
    using inv by (subst unat_add_small) (simp_all add: sn_inv_def)
  have "next_sn c =
      (if unat (snCrypto c) + 1 > 2 ^ 48 - 1 then
         if unat (epochCryptoSnd c) + 1 > 2 ^ 47 - 1
         then (Inl (Err ''exhausted 2^95 sn number, cannot continue''), c\<lparr>snCrypto := snCrypto c + 1\<rparr>)
         else (Inr (), c\<lparr>epochCryptoSnd := epochCryptoSnd c + 1, snCrypto := 0\<rparr>)
       else (Inr (), c\<lparr>snCrypto := snCrypto c + 1\<rparr>))"
    using s e by (cases c) (simp add: next_sn_def word_less_nat_alt)
  then consider "unat (snCrypto c) + 1 \<le> 2 ^ 48 - 1" "c' = c\<lparr>snCrypto := snCrypto c + 1\<rparr>"
    | "unat (snCrypto c) + 1 > 2 ^ 48 - 1" "unat (epochCryptoSnd c) + 1 \<le> 2 ^ 47 - 1"
      "c' = c\<lparr>epochCryptoSnd := epochCryptoSnd c + 1, snCrypto := 0\<rparr>"
    using n by (metis Inl_not_Inr not_less prod.inject)
  then show ?thesis
  proof cases
    case 1
    then show ?thesis using inv by (simp add: sn_inv_def packet_no_def s)
  next
    case 2
    then have "unat (snCrypto c) = 2 ^ 48 - 1" using inv by (simp add: sn_inv_def)
    then show ?thesis using 2 inv by (simp add: sn_inv_def packet_no_def e)
  qed
qed

lemma conn_frame [simp]:
  "sn_inv (c\<lparr>c_snd := sb\<rparr>) = sn_inv c" "packet_no (c\<lparr>c_snd := sb\<rparr>) = packet_no c" "Conn_msgType (c\<lparr>c_snd := sb\<rparr>) = Conn_msgType c"
  "sn_inv (c\<lparr>c_rcv := rb\<rparr>) = sn_inv c" "packet_no (c\<lparr>c_rcv := rb\<rparr>) = packet_no c" "Conn_msgType (c\<lparr>c_rcv := rb\<rparr>) = Conn_msgType c"
  "sn_inv (c\<lparr>measurements := m\<rparr>) = sn_inv c" "packet_no (c\<lparr>measurements := m\<rparr>) = packet_no c" "Conn_msgType (c\<lparr>measurements := m\<rparr>) = Conn_msgType c"
  "sn_inv (c\<lparr>dataInFlight := i\<rparr>) = sn_inv c" "packet_no (c\<lparr>dataInFlight := i\<rparr>) = packet_no c"
  "sn_inv (c\<lparr>nextWriteTime := w\<rparr>) = sn_inv c" "packet_no (c\<lparr>nextWriteTime := w\<rparr>) = packet_no c"
  by (simp_all add: sn_inv_def packet_no_def Conn_msgType_def)

lemma Conn_encode_counts:
  assumes inv: "sn_inv c" and e: "Conn_encode env c p d t = (Inr enc, c')"
  shows "sn_inv c' \<and> packet_no c' = Suc (packet_no c)"
proof -
  let ?c = "if t = Data then c else c\<lparr>isInitSentOnSnd := True\<rparr>"
  have n: "next_sn ?c = (Inr (), c')"
    using e by (auto simp: Conn_encode_def and_then_eq_Inr split: sum.splits prod.splits)
  have "sn_inv ?c" "packet_no ?c = packet_no c" using inv by (simp_all add: sn_inv_def packet_no_def)
  then show ?thesis using next_sn_counts[OF _ n] by simp
qed

text \<open>The sizes of the packets: new and resent data fit the space left by the headers.\<close>

lemma ReadyToSend_size:
  assumes inv: "stream_inv W A st" and st: "snd_streams sb sid = Some st" and mtu: "mtu_ok msgType mtu"
    and run: "SendBuffer_ReadyToSend sb sid msgType ack mtu now = ((Some b, off, cl), sb')"
  shows "b = [] \<or> int (length b) \<le> maxData msgType ack mtu off"
proof (cases "pingRequest st \<or> queuedData st = []")
  case True
  then show ?thesis using run st by (auto simp: SendBuffer_ReadyToSend_def Let_def split: if_splits)
next
  case False
  obtain n where n: "n \<le> 65535" "maxData msgType ack mtu (bytesSentOffset st) = int n" using maxData_range[OF mtu] by blast
  let ?len = "min (word_of_int (maxData msgType ack mtu (bytesSentOffset st))) (word_of_nat (length (queuedData st)) :: u64)"
  have "b = take (unat ?len) (queuedData st)"
    "off = packetKey_offset (createPacketKey (bytesSentOffset st) (ucast ?len))"
    using run st False by (auto simp: SendBuffer_ReadyToSend_def Let_def)
  moreover have "unat ?len \<le> n"
    using n unat_of_nat_small[of n, where 'a = 64] by (auto simp: min_def word_le_nat_alt)
  ultimately show ?thesis using stream_inv_sent(1)[OF inv] n by (simp add: min.coboundedI2)
qed

lemma ReadyToRetransmit_size:
  assumes inv: "stream_inv W A st" and st: "snd_streams sb sid = Some st" and mtu: "mtu_ok msgType mtu"
    and run: "SendBuffer_ReadyToRetransmit sb sid ack mtu rto msgType now = Inr ((Some b, off, cl), sb')"
  shows "int (length b) \<le> maxData msgType ack mtu off"
proof -
  obtain p i where first: "lm_first (dataInFlightMap st) = (p, Some i, True)"
    using run st by (auto simp: SendBuffer_ReadyToRetransmit_def entry_result_def split: list.splits option.splits)
  have f: "flight_inv W A (unat (bytesSentOffset st)) (flight st)" using inv by (simp add: stream_inv_def)
  note e = flight_inv_entry(3)[OF f lm_first_Some[OF first]]
  obtain n where n: "n \<le> 65535" "maxData msgType ack mtu (packetKey_offset p) = int n" using maxData_range[OF mtu] by blast
  have lp: "klen p < 2 ^ 16" using unsigned_less[of "packetKey_length p", where 'a = nat] by simp
  have cmp: "(word_of_nat (length (si_data i)) :: u16) \<le> word_of_nat n \<longleftrightarrow> klen p \<le> n"
    using n(1) lp e by (simp add: word_le_nat_alt unat_of_nat_small)
  note def = SendBuffer_ReadyToRetransmit_def[of sb sid ack mtu rto msgType now, unfolded st option.case first prod.case bool.case]
  have "off = packetKey_offset p \<and> (b = si_data i \<and> klen p \<le> n \<or> length b \<le> n)"
    using run unfolding def by (auto simp: and_then_eq_Inr Let_def n(2) cmp split: if_splits)
  then have "off = packetKey_offset p \<and> length b \<le> n" using e by auto
  then show ?thesis using n(2) by simp
qed

section \<open>Packet sizes\<close>

lemma at_slice_length:
  assumes "\<And>s b' n. f s = Some (b', n) \<Longrightarrow> length b' = length s" and "at_slice b off f = Some (b', m)"
  shows "length b' = length b"
  using assms by (auto simp: at_slice_def split: if_splits option.splits prod.splits)

lemma put_at_length:
  assumes "\<And>s b' n. put s = Some (b', n) \<Longrightarrow> length b' = length s" and "put_at b off put = Inr b'"
  shows "length b' = length b"
  using assms(2) at_slice_length[OF assms(1)] by (auto simp: put_at_def or_panic_def split: option.splits)

lemma copy_at_length: "copy_at b off src = Inr b' \<Longrightarrow> length b' = length b"
  by (auto simp: copy_at_def or_panic_def at_slice_def go_copy_def Let_def split: if_splits option.splits prod.splits)

lemma put_byte_length: "put_at b off (put_byte x) = Inr b' \<Longrightarrow> length b' = length b"
  by (rule put_at_length) (auto simp: put_byte_def split: list.splits)

lemma put_uint64_length: "put_at b off (\<lambda>t. PutUint64 t v) = Inr b' \<Longrightarrow> length b' = length b"
  by (rule put_at_length) (auto dest: u64c.put_frame)

lemma put_uint16_length: "put_at b off (\<lambda>t. PutUint16 t v) = Inr b' \<Longrightarrow> length b' = length b"
  by (rule put_at_length) (auto dest: u16c.put_frame)

lemmas written_length = copy_at_length put_byte_length put_uint64_length put_uint16_length

lemma chainedEncrypt_length:
  assumes L: "lib_ok L" and e: "chainedEncrypt L sn epoch isSender secret header d = Inr enc"
  shows "length enc = length header + length d + 22"
proof -
  have k: "length secret = 32" using e by (auto simp: chainedEncrypt_def and_then_eq_Inr chacha_New_def split: if_splits)
  have "8 \<le> length d"
    using e lib_okD(3)[OF L k, of "nonce epoch sn isSender" d header]
    by (auto simp: chainedEncrypt_def and_then_eq_Inr nonceDet_eq Let_def slice_to_def or_panic_def split: if_splits)
  then show ?thesis using chainedEncrypt_eq[OF L k] length_sealed_with[OF L k] e by auto
qed

lemma encryptData_length:
  "lib_ok L \<Longrightarrow> encryptData L cid isSender secret sn epoch d = Inr enc \<Longrightarrow> length enc = length d + 31"
  by (auto simp: encryptData_def and_then_eq_Inr make_bytes_def crypto_consts split: option.splits if_splits
      dest!: written_length chainedEncrypt_length[rotated])

lemma encryptInitRcv_length:
  "lib_ok L \<Longrightarrow> encryptInitRcv L cid pubId pubEp prvEp sn d = Inr enc \<Longrightarrow> length enc = length d + 95"
  by (auto simp: encryptInitRcv_def and_then_eq_Inr make_bytes_def crypto_consts split: if_splits
      dest!: written_length chainedEncrypt_length[rotated])

lemma encryptInitCryptoRcv_length:
  "lib_ok L \<Longrightarrow> encryptInitCryptoRcv L cid pubEp prvEp sn d = Inr enc \<Longrightarrow> length enc = length d + 63"
  by (auto simp: encryptInitCryptoRcv_def and_then_eq_Inr make_bytes_def crypto_consts split: if_splits
      dest!: written_length chainedEncrypt_length[rotated])

lemma encryptInitCryptoSnd_length:
  "lib_ok L \<Longrightarrow> encryptInitCryptoSnd L pubIdRcv pubId prvEp sn mtu d = Inr (cid, enc) \<Longrightarrow> int (length enc) = mtu"
  by (auto simp: encryptInitCryptoSnd_def and_then_eq_Inr make_bytes_def crypto_consts Let_def split: if_splits
      dest!: written_length chainedEncrypt_length[rotated])

lemma encryptInitSnd_length: "encryptInitSnd pubId pubEp mtu = Inr (cid, enc) \<Longrightarrow> int (length enc) = mtu"
  by (auto simp: encryptInitSnd_def and_then_eq_Inr make_bytes_def split: if_splits dest!: written_length)

lemma payload_size:
  assumes "encode_payload p d = Inr b"
  shows "length b = calcProtoOverhead (ph_Ack p \<noteq> None) (needsExtend p) (isAckOnly p d) + length (case d of None \<Rightarrow> [] | Some d \<Rightarrow> d)"
  using assms
  by (auto simp: encode_payload_def EncodePayload_eq payloadBytes_def calcProtoOverhead_eq ackBytes_def streamBytes_def isAckOnly_def
      simp del: le_bytes_numeral split: option.splits)

text \<open>Header and footer of a packet kind; the two first packets are padded to the MTU.\<close>

definition kind_size :: "CryptoMsgType \<Rightarrow> nat" where
  "kind_size t = (case t of InitRcv \<Rightarrow> 95 | InitCryptoRcv \<Rightarrow> 63 | _ \<Rightarrow> 31)"

lemma encrypt_packet_length:
  assumes L: "lib_ok (env_lib env)" and e: "encrypt_packet env c p d t = Inr enc"
  shows "int (length enc) = (if t = InitSnd \<or> t = InitCryptoSnd then env_mtu env
    else int (kind_size t + calcProtoOverhead (ph_Ack p \<noteq> None) (needsExtend p) (isAckOnly p d) +
      length (case d of None \<Rightarrow> [] | Some d \<Rightarrow> d)))"
  using e
  by (cases t) (auto simp: encrypt_packet_def Let_def and_then_eq_Inr kind_size_def payload_size
      dest!: encryptInitSnd_length encryptInitCryptoSnd_length[OF L] encryptInitRcv_length[OF L]
        encryptInitCryptoRcv_length[OF L] encryptData_length[OF L])

lemma Conn_encode_packet: "Conn_encode env c p d t = (Inr enc, c') \<Longrightarrow> encrypt_packet env c p d t = Inr enc"
  by (auto simp: Conn_encode_def and_then_eq_Inr split: sum.splits prod.splits)

lemma overhead_kind:
  assumes "t \<noteq> InitSnd" and "t \<noteq> InitCryptoSnd"
  shows "calcCryptoOverheadWithData t ack off =
    int (kind_size t + calcProtoOverhead (ack \<noteq> None) (needsExtend \<lparr>ph_IsClose = cl, ph_Ack = ack, ph_StreamID = sid, ph_StreamOffset = off\<rparr>) False)"
  using assms
  by (cases t) (auto simp: calcCryptoOverheadWithData_def Let_def kind_size_def needsExtend_def crypto_consts disj_commute)

lemma encode_within_mtu:
  assumes L: "lib_ok (env_lib env)" and mtu: "mtu_ok t (env_mtu env)"
    and e: "Conn_encode env c \<lparr>ph_IsClose = cl, ph_Ack = ack, ph_StreamID = sid, ph_StreamOffset = off\<rparr> d t = (Inr enc, c')"
    and d: "\<And>b. d = Some b \<Longrightarrow> b = [] \<or> int (length b) \<le> maxData t ack (env_mtu env) off"
  shows "int (length enc) \<le> env_mtu env"
proof (cases "t = InitSnd \<or> t = InitCryptoSnd")
  case True
  then show ?thesis using encrypt_packet_length[OF L Conn_encode_packet[OF e]] by auto
next
  case False
  let ?p = "\<lparr>ph_IsClose = cl, ph_Ack = ack, ph_StreamID = sid, ph_StreamOffset = off\<rparr>"
  let ?o = "calcProtoOverhead (ack \<noteq> None) (needsExtend ?p) False"
  have len: "int (length enc) = int (kind_size t + calcProtoOverhead (ack \<noteq> None) (needsExtend ?p) (isAckOnly ?p d) +
      length (case d of None \<Rightarrow> [] | Some d \<Rightarrow> d))"
    using encrypt_packet_length[OF L Conn_encode_packet[OF e]] False by simp
  have le: "calcProtoOverhead (ack \<noteq> None) (needsExtend ?p) (isAckOnly ?p d) \<le> ?o" by (simp add: calcProtoOverhead_eq)
  have o: "calcCryptoOverheadWithData t ack off = int (kind_size t + ?o)" using overhead_kind[of t] False by blast
  have "int (kind_size t + ?o) \<le> env_mtu env"
    using calcCryptoOverhead_range[of t ack off] mtu False unfolding o by (auto simp: mtu_ok_def)
  moreover have "maxData t ack (env_mtu env) off = env_mtu env - int (kind_size t + ?o)" using False o by (simp add: maxData_def)
  ultimately show ?thesis using len le d by (cases d) fastforce+
qed

section \<open>What a packet is sealed under\<close>

text \<open>
  The packet a connection owes for a payload, in terms of the ciphers: the kind follows from the
  state of the handshake, the key is that of the kind, and the nonce is made of the packet
  number, the epoch, which is zero until the handshake is done, and the direction. The first
  packet of the handshake without known keys is not sealed; it is the two public keys, padded
  to the MTU.
\<close>

definition sealed_under :: "conn_env \<Rightarrow> Conn \<Rightarrow> bytes \<Rightarrow> bool" where
  "sealed_under env c enc \<longleftrightarrow>
     (let L = env_lib env; identity = ecdh_PublicKey L (env_prvKeyId env); ephemeral = ecdh_PublicKey L (prvKeyEpSnd c) in
      case Conn_msgType c of
        InitSnd \<Rightarrow>
          65 \<le> env_mtu env \<longrightarrow> enc = header_byte InitSnd # ephemeral @ identity @ replicate (nat (env_mtu env) - 65) 0
      | InitRcv \<Rightarrow>
          (\<exists>peer secret d. pubKeyEpRcv c = Some peer \<and> ECDH L (prvKeyEpSnd c) peer = Inr secret \<and>
             (let h = id_header InitRcv (connId c) @ ephemeral @ identity in enc = h @ sealed_with L secret (snCrypto c) 0 False h d))
      | InitCryptoSnd \<Rightarrow>
          (\<exists>peer secret fill d. pubKeyIdRcv c = Some peer \<and> ECDH L (prvKeyEpSnd c) peer = Inr secret \<and>
             (let h = header_byte InitCryptoSnd # ephemeral @ identity in enc = h @ sealed_with L secret (snCrypto c) 0 True h (padded fill d)))
      | InitCryptoRcv \<Rightarrow>
          (\<exists>peer secret d. pubKeyEpRcv c = Some peer \<and> ECDH L (prvKeyEpSnd c) peer = Inr secret \<and>
             (let h = id_header InitCryptoRcv (connId c) @ ephemeral in enc = h @ sealed_with L secret (snCrypto c) 0 False h d))
      | Data \<Rightarrow>
          (\<exists>secret d. sharedSecret c = Some secret \<and>
             (let h = id_header Data (connId c)
              in enc = h @ sealed_with L secret (snCrypto c) (epochCryptoSnd c) (isSenderOnInit c) h d)))"

lemma sealed_under_frame [simp]:
  "sealed_under env (c\<lparr>c_snd := sb\<rparr>) enc = sealed_under env c enc" "sealed_under env (c\<lparr>c_rcv := rb\<rparr>) enc = sealed_under env c enc"
  "sealed_under env (c\<lparr>measurements := m\<rparr>) enc = sealed_under env c enc"
  by (simp_all add: sealed_under_def Let_def split: CryptoMsgType.split)

lemma encoded_min: "encode_payload p d = Inr b \<Longrightarrow> 8 \<le> length b"
  by (drule payload_size) (auto simp: calcProtoOverhead_eq offsetSize_def isAckOnly_def)

lemma encryptData_sealed:
  assumes L: "lib_ok L" and d: "8 \<le> length d" and e: "encryptData L cid isSender secret sn epoch d = Inr enc"
  shows "\<exists>k. secret = Some k \<and>
    enc = id_header Data cid @ sealed_with L k sn epoch isSender (id_header Data cid) d"
proof -
  obtain k where k: "secret = Some k" using e by (auto simp: encryptData_def split: option.splits)
  then have "length k = 32"
    using e by (auto simp: encryptData_def chainedEncrypt_def chacha_New_def and_then_eq_Inr split: if_splits)
  then show ?thesis using encryptData_eq[OF L _ d] e k by auto
qed

lemma encryptInitCryptoSnd_sealed:
  assumes L: "lib_ok L" and d: "8 \<le> length d" and id: "length pubId = 32"
    and e: "encryptInitCryptoSnd L peer (Some pubId) (Some own) sn mtu d = Inr (cid, enc)"
  shows "\<exists>k secret fill. peer = Some k \<and> ECDH L own k = Inr secret \<and>
    (let h = header_byte InitCryptoSnd # ecdh_PublicKey L own @ pubId in enc = h @ sealed_with L secret sn 0 True h (padded fill d))"
proof -
  obtain k secret where k: "peer = Some k" "ECDH L own k = Inr secret" and m: "0 \<le> mtu - int (89 + length d)"
    using e by (auto simp: encryptInitCryptoSnd_def and_then_eq_Inr nil_key_def crypto_consts Let_def split: option.splits if_splits)
  have "mtu = int (89 + length d + nat (mtu - int (89 + length d)))" using m by simp
  from encryptInitCryptoSnd_eq[OF L id k(2) this d, of sn] e k show ?thesis by (auto simp: Let_def)
qed

lemma encrypt_packet_sealed:
  assumes L: "lib_ok (env_lib env)" and e: "encrypt_packet env c p d (Conn_msgType c) = Inr enc"
  shows "sealed_under env c enc"
proof -
  let ?L = "env_lib env" and ?id = "ecdh_PublicKey (env_lib env) (env_prvKeyId env)"
  have id: "length ?id = 32" "length (ecdh_PublicKey ?L (prvKeyEpSnd c)) = 32" using length_PublicKey[OF L] by simp_all
  show ?thesis
  proof (cases "Conn_msgType c")
    case InitSnd
    then show ?thesis
      using e encryptInitSnd_eq[OF id, of "env_mtu env" "nat (env_mtu env) - 65"]
      by (auto simp: encrypt_packet_def sealed_under_def and_then_eq_Inr Let_def)
  next
    case InitCryptoSnd
    then obtain b x where b: "encode_payload p d = Inr b"
        "encryptInitCryptoSnd ?L (pubKeyIdRcv c) (Some ?id) (Some (prvKeyEpSnd c)) (snCrypto c) (env_mtu env) b = Inr (x, enc)"
      using e by (auto simp: encrypt_packet_def and_then_eq_Inr Let_def)
    from encryptInitCryptoSnd_sealed[OF L encoded_min[OF b(1)] id(1) b(2)] InitCryptoSnd show ?thesis
      by (auto simp: sealed_under_def Let_def)
  next
    case InitRcv
    then obtain b where b: "encode_payload p d = Inr b"
        "encryptInitRcv ?L (connId c) (Some ?id) (pubKeyEpRcv c) (Some (prvKeyEpSnd c)) (snCrypto c) b = Inr enc"
      using e by (auto simp: encrypt_packet_def and_then_eq_Inr Let_def)
    then obtain k secret where k: "pubKeyEpRcv c = Some k" "ECDH ?L (prvKeyEpSnd c) k = Inr secret"
      by (auto simp: encryptInitRcv_def and_then_eq_Inr nil_key_def split: option.splits)
    from encryptInitRcv_eq[OF L encoded_min[OF b(1)] id(1) k(2), of "connId c" "snCrypto c"] b(2) k InitRcv show ?thesis
      by (auto simp: sealed_under_def Let_def)
  next
    case InitCryptoRcv
    then obtain b where b: "encode_payload p d = Inr b"
        "encryptInitCryptoRcv ?L (connId c) (pubKeyEpRcv c) (Some (prvKeyEpSnd c)) (snCrypto c) b = Inr enc"
      using e by (auto simp: encrypt_packet_def and_then_eq_Inr Let_def)
    then obtain k secret where k: "pubKeyEpRcv c = Some k" "ECDH ?L (prvKeyEpSnd c) k = Inr secret"
      by (auto simp: encryptInitCryptoRcv_def and_then_eq_Inr nil_key_def split: option.splits)
    from encryptInitCryptoRcv_eq[OF L encoded_min[OF b(1)] k(2), of "connId c" "snCrypto c"] b(2) k InitCryptoRcv show ?thesis
      by (auto simp: sealed_under_def Let_def)
  next
    case Data
    then obtain b where b: "encode_payload p d = Inr b"
        "encryptData ?L (connId c) (isSenderOnInit c) (sharedSecret c) (snCrypto c) (epochCryptoSnd c) b = Inr enc"
      using e by (auto simp: encrypt_packet_def and_then_eq_Inr Let_def)
    from encryptData_sealed[OF L encoded_min[OF b(1)] b(2)] Data show ?thesis by (auto simp: sealed_under_def Let_def)
  qed
qed

section \<open>What a flush writes\<close>

definition good_flush :: "conn_env \<Rightarrow> Conn \<Rightarrow> flush_result \<Rightarrow> bool" where
  "good_flush env c r \<longleftrightarrow> (case snd (snd r) of None \<Rightarrow> True | Some enc \<Rightarrow>
     int (length enc) \<le> env_mtu env \<and> sn_inv (fst (snd r)) \<and> packet_no (fst (snd r)) = Suc (packet_no c) \<and> sealed_under env c enc)"

lemma good_flush_none [simp]: "good_flush env c (r, c', None)"
  by (simp add: good_flush_def)

lemma good_flush_frame [simp]:
  "good_flush env (c\<lparr>c_snd := sb\<rparr>) r = good_flush env c r" "good_flush env (c\<lparr>c_rcv := rb\<rparr>) r = good_flush env c r"
  "good_flush env (c\<lparr>measurements := m\<rparr>) r = good_flush env c r"
  by (simp_all add: good_flush_def split: option.split)

lemma write_packet_good:
  assumes "sn_inv c'" and "packet_no c' = Suc (packet_no c)" and "sealed_under env c enc" and "int (length enc) \<le> env_mtu env"
  shows "good_flush env c (write_packet c' enc werr pl l now)"
  using assms by (auto simp: write_packet_def good_flush_def split: option.splits)

lemma sendPacket_good:
  assumes inv: "sn_inv c" and L: "lib_ok (env_lib env)" and mtu: "mtu_ok t (env_mtu env)" and t: "t = Conn_msgType c"
    and d: "b = [] \<or> int (length b) \<le> maxData t ack (env_mtu env) off"
  shows "good_flush env c (Conn_sendPacket env c s ack b off cl t now track werr)"
proof -
  let ?p = "\<lparr>ph_IsClose = cl, ph_Ack = ack, ph_StreamID = st_streamID s, ph_StreamOffset = off\<rparr>"
  obtain r c' where e: "Conn_encode env c ?p (Some b) t = (r, c')" by fastforce
  show ?thesis
  proof (cases r)
    case (Inr enc)
    note e' = e[unfolded Inr]
    have "int (length enc) \<le> env_mtu env" using d by (intro encode_within_mtu[OF L mtu e']) simp
    then show ?thesis
      using Conn_encode_counts[OF inv e'] encrypt_packet_sealed[OF L Conn_encode_packet[OF e'[unfolded t]]] e'
      unfolding Conn_sendPacket_def Let_def
      by (simp split del: if_split) (intro write_packet_good, auto)
  qed (use e in \<open>simp add: Conn_sendPacket_def\<close>)
qed

lemma writeAck_good:
  assumes inv: "sn_inv c" and L: "lib_ok (env_lib env)" and mtu: "mtu_ok (Conn_msgType c) (env_mtu env)"
  shows "good_flush env c (Conn_writeAck env c s ack now werr)"
proof -
  let ?p = "\<lparr>ph_IsClose = checkStreamFullyAcked c (st_streamID s), ph_Ack = ack, ph_StreamID = st_streamID s, ph_StreamOffset = 0\<rparr>"
  obtain r c' where e: "Conn_encode env c ?p None (Conn_msgType c) = (r, c')" by fastforce
  show ?thesis
  proof (cases r)
    case (Inr enc)
    note e' = e[unfolded Inr]
    have "int (length enc) \<le> env_mtu env" by (rule encode_within_mtu[OF L mtu e']) simp
    then show ?thesis
      using Conn_encode_counts[OF inv e'] encrypt_packet_sealed[OF L Conn_encode_packet[OF e']] e'
      by (auto simp: Conn_writeAck_def Let_def intro!: write_packet_good)
  qed (use e in \<open>simp add: Conn_writeAck_def\<close>)
qed

text \<open>The send buffer of the connection, as the invariant of the buffer describes it.\<close>

definition snd_streams_ok :: "SendBuffer \<Rightarrow> bool" where
  "snd_streams_ok sb \<longleftrightarrow> (\<forall>sid st. snd_streams sb sid = Some st \<longrightarrow> (\<exists>W A. stream_inv W A st))"

lemma snd_streams_ok_reachable: "snd_reachable cap y \<Longrightarrow> snd_streams_ok (sys_buf y)"
  unfolding snd_streams_ok_def using stream_inv_stream[OF snd_reachable_inv] by (metis getOrCreate_Some)

lemma flush_new_good:
  assumes inv: "sn_inv c" and L: "lib_ok (env_lib env)" and mtu: "mtu_ok t (env_mtu env)" and t: "t = Conn_msgType c"
    and sb: "snd_streams_ok (c_snd c)"
  shows "good_flush env c (flush_new env c s ack t now werr)"
proof -
  obtain d off cl sb' where r: "SendBuffer_ReadyToSend (c_snd c) (st_streamID s) t ack (env_mtu env) now = ((d, off, cl), sb')"
    by (metis prod.exhaust)
  let ?c = "c\<lparr>c_snd := sb'\<rparr>"
  have c: "sn_inv ?c" "packet_no ?c = packet_no c" "Conn_msgType ?c = t" using inv t by simp_all
  have ack: "good_flush env c (Conn_writeAck env ?c s ack now werr)"
    using writeAck_good[OF c(1) L, of s ack now werr] mtu c by simp
  have data: "good_flush env c (Conn_sendPacket env ?c s ack b off cl t now True werr)" if dS: "d = Some b" for b
  proof -
    obtain st where st: "snd_streams (c_snd c) (st_streamID s) = Some st"
      using r dS by (cases "snd_streams (c_snd c) (st_streamID s)") (auto simp: SendBuffer_ReadyToSend_def)
    then obtain W A where "stream_inv W A st" using sb unfolding snd_streams_ok_def by blast
    from ReadyToSend_size[OF this st mtu r[unfolded dS]] sendPacket_good[OF c(1) L mtu, of b ack off s cl now True werr] show ?thesis using c(3) by simp
  qed
  show ?thesis
    using r ack data writeAck_good[OF inv L] mtu t by (auto simp: flush_new_def Let_def split: option.splits)
qed

lemma Conn_Flush_good:
  assumes inv: "sn_inv c" and L: "lib_ok (env_lib env)" and mtu: "mtu_ok (Conn_msgType c) (env_mtu env)"
    and sb: "snd_streams_ok (c_snd c)"
  shows "good_flush env c (Conn_Flush env c s now werr)"
proof -
  obtain ack0 rcv where g: "ReceiveBuffer_GetSndAck (c_rcv c) = (ack0, rcv)" by fastforce
  let ?c = "c\<lparr>c_rcv := rcv\<rparr>" and ?t = "Conn_msgType c"
  let ?ack = "map_option (\<lambda>a. a\<lparr>ack_rcvWnd := word_of_int (rcv_capacity rcv) - word_of_int (ReceiveBuffer_Size rcv)\<rparr>) ack0"
  let ?rt = "SendBuffer_ReadyToRetransmit (c_snd c) (st_streamID s) ?ack (env_mtu env) (rtoNano (measurements c)) ?t now"
  have c: "sn_inv ?c" "packet_no ?c = packet_no c" "Conn_msgType ?c = ?t" using inv by simp_all
  have ack: "good_flush env c (Conn_writeAck env ?c s ?ack now werr)"
    using writeAck_good[OF c(1) L, of s ?ack now werr] mtu c by simp
  have new: "good_flush env c (flush_new env (?c\<lparr>c_snd := sb'\<rparr>) s ?ack ?t now werr)" if "snd_streams_ok sb'" for sb'
    using flush_new_good[OF _ L mtu, of "?c\<lparr>c_snd := sb'\<rparr>" s ?ack now werr] that inv by simp
  have send: "good_flush env c (Conn_sendPacket env (?c\<lparr>c_snd := sb', measurements := m\<rparr>) s ?ack b off cl ?t now False werr)"
    if "int (length b) \<le> maxData ?t ?ack (env_mtu env) off" for b off cl sb' m
    using sendPacket_good[OF _ L mtu, of "?c\<lparr>c_snd := sb', measurements := m\<rparr>" b ?ack off s cl now False werr] that inv by simp
  have rest: "good_flush env c
      (case d of Some b \<Rightarrow> Conn_sendPacket env (?c\<lparr>c_snd := sb', measurements := m\<rparr>) s ?ack b off cl ?t now False werr
       | None \<Rightarrow> flush_new env (?c\<lparr>c_snd := sb'\<rparr>) s ?ack ?t now werr)" if r: "?rt = Inr ((d, off, cl), sb')" for d off cl sb' m
  proof (cases "snd_streams (c_snd c) (st_streamID s)")
    case None
    then have "d = None" "sb' = c_snd c" using r by (auto simp: SendBuffer_ReadyToRetransmit_def)
    then show ?thesis using new[OF sb] by (simp only: option.case)
  next
    case (Some st)
    then obtain W A where si: "stream_inv W A st" using sb unfolding snd_streams_ok_def by blast
    have "resend_ok W A (c_snd c) (st_streamID s) (Inr ((d, off, cl), sb'))"
      using ReadyToRetransmit_inv[OF si Some mtu, of ?ack "rtoNano (measurements c)" now] unfolding r .
    then obtain st' where "sb' = snd_put_stream (c_snd c) (st_streamID s) st'" "stream_inv W A st'"
      by (auto simp: resend_ok_def)
    then have "snd_streams_ok sb'" using sb by (auto simp: snd_streams_ok_def snd_put_stream_def)
    then show ?thesis
      using new send ReadyToRetransmit_size[OF si Some mtu] r by (cases d) (simp_all only: option.case)
  qed
  show ?thesis
    using ack rest c by (auto simp: Conn_Flush_def g Let_def split: sum.splits prod.splits option.splits)
qed

section \<open>Properties\<close>

text \<open>A connection after its handshake, with three bytes queued on stream 1.\<close>

definition demo_env :: conn_env where
  "demo_env = \<lparr>env_lib = demo_lib, env_prvKeyId = replicate 32 3, env_mtu = 1400\<rparr>"

definition demo_conn :: Conn where
  "demo_conn =
     \<lparr>connId = 5, remoteAddr = ''peer'', streams = lm_put lm_new 1 \<lparr>st_streamID = 1, st_closedAtNano = 0\<rparr>,
      prvKeyEpSnd = replicate 32 2, pubKeyEpRcv = Some (replicate 32 4), pubKeyIdRcv = Some (replicate 32 6),
      sharedSecret = Some (replicate 32 7), c_snd = sys_buf demo_queued, c_rcv = rs_buf demo_half,
      dataInFlight = 0, rcvWndSize = 16777216, isSenderOnInit = True, isWithCryptoOnInit = False,
      isHandshakeDoneOnRcv = True, isInitSentOnSnd = True, nextWriteTime = 0, snCrypto = 8, epochCryptoSnd = 0,
      epochCryptoRcv = 0, measurements = NewMeasurements\<rparr>"

abbreviation demo_stream1 :: Stream where
  "demo_stream1 \<equiv> \<lparr>st_streamID = 1, st_closedAtNano = 0\<rparr>"

text \<open>
  C35: A flush writes at most one packet. It is no longer than the MTU. It is of the kind the
  handshake is at, under the identifier and the key of the connection, and its nonce is made of
  the sequence number the connection had before, the epoch it had before, or zero during the
  handshake, and the direction. The counter of epoch and sequence number is one higher
  afterwards, so no number is used twice, and the two stay in their 47 and 48 bits.
\<close>
theorem flush_packet_sound:
  assumes "lib_ok (env_lib env)" and "mtu_ok (Conn_msgType c) (env_mtu env)" and "sn_inv c"
    and "snd_reachable cap y" and "c_snd c = sys_buf y"
    and "Conn_Flush env c s now werr = (r, c', Some enc)"
  shows "int (length enc) \<le> env_mtu env \<and> sn_inv c' \<and> packet_no c' = Suc (packet_no c) \<and> sealed_under env c enc"
proof -
  have "snd_streams_ok (c_snd c)" using snd_streams_ok_reachable[OF assms(4)] assms(5) by simp
  from Conn_Flush_good[OF assms(3,1,2) this, of s now werr] show ?thesis by (simp add: assms(6) good_flush_def)
qed

lemma demo_flush_writes: "snd (snd (Conn_Flush demo_env demo_conn demo_stream1 50 None)) \<noteq> None"
proof -
  have "encryptData demo_lib 5 True (Some (replicate 32 7)) 8 0 (payloadBytes p (Some [7, 8, 9])) \<noteq> Inl e" for p e
    by (subst encryptData_eq[OF demo_lib_ok]) (auto simp: payloadBytes_def streamBytes_def isAckOnly_def simp del: le_bytes_numeral)
  then show ?thesis
    by (auto simp: Conn_Flush_def demo_conn_def demo_env_def demo_half_def ReceiveBuffer_GetSndAck_def ReceiveBuffer_Size_def
        flush_new_def Conn_msgType_def Conn_sendPacket_def Conn_encode_def encrypt_packet_def encode_payload_def EncodePayload_eq
        next_sn_def write_packet_def go_int_def calcPacing_def NewMeasurements_def demo_queued_def demo_stream_def
        SendBuffer_ReadyToRetransmit_def SendBuffer_ReadyToSend_def entry_result_def maxData_def calcCryptoOverheadWithData_def
        calcProtoOverhead_def crypto_consts meas_consts Let_def and_then_def split: sum.splits option.splits)
qed

theorem flush_packet_sound_witness:
  "\<exists>r c' enc. Conn_Flush demo_env demo_conn demo_stream1 50 None = (r, c', Some enc) \<and>
     int (length enc) \<le> 1400 \<and> packet_no c' = Suc (packet_no demo_conn) \<and>
     (\<exists>d. enc = id_header Data 5 @ sealed_with demo_lib (replicate 32 7) 8 0 True (id_header Data 5) d)"
proof -
  obtain r c' enc where f: "Conn_Flush demo_env demo_conn demo_stream1 50 None = (r, c', Some enc)"
    using demo_flush_writes by (metis option.exhaust prod.collapse)
  have "lib_ok (env_lib demo_env)" "mtu_ok (Conn_msgType demo_conn) (env_mtu demo_env)" "sn_inv demo_conn"
    "c_snd demo_conn = sys_buf demo_queued"
    by (simp_all add: demo_env_def demo_lib_ok mtu_ok_def sn_inv_def demo_conn_def)
  from flush_packet_sound[OF this(1-3) demo_queued_reachable this(4) f] f show ?thesis
    by (auto simp: demo_env_def sealed_under_def demo_conn_def Conn_msgType_def Let_def)
qed

lemma encode_frame:
  "Conn_encode env c p d t = (r, c') \<Longrightarrow>
   c_snd c' = c_snd c \<and> c_rcv c' = c_rcv c \<and> dataInFlight c' = dataInFlight c \<and> rcvWndSize c' = rcvWndSize c \<and> streams c' = streams c"
  by (auto simp: Conn_encode_def next_sn_def Let_def split: sum.splits if_splits)

lemma writeAck_frame:
  "Conn_writeAck env c s ack now werr = (r, c', pkt) \<Longrightarrow>
   c_snd c' = c_snd c \<and> dataInFlight c' = dataInFlight c \<and> rcvWndSize c' = rcvWndSize c \<and> (\<forall>n w. r = Inr (n, w) \<longrightarrow> n = 0)"
  by (auto simp: Conn_writeAck_def Let_def write_packet_def dest!: encode_frame split: prod.splits sum.splits option.splits)

text \<open>
  Once the bytes counted as in flight and one packet exceed the window of the peer, a flush
  sends no data, new or resent, and leaves the send buffer, the count and the window as they
  are. Only an accepted acknowledgement lowers the count; and it does so by the length of the
  packet that carries it, not by the length of the data it acknowledges, so that a connection
  can stay blocked with nothing in flight.
\<close>
theorem window_blocks_flush:
  assumes "go_int (rcvWndSize c) < dataInFlight c + env_mtu env"
    and "Conn_Flush env c s now werr = (r, c', pkt)"
  shows "c_snd c' = c_snd c \<and> dataInFlight c' = dataInFlight c \<and> rcvWndSize c' = rcvWndSize c \<and>
    (\<forall>n w. r = Inr (n, w) \<longrightarrow> n = 0)"
  using assms by (auto simp: Conn_Flush_def Let_def dest!: writeAck_frame split: if_splits prod.splits)

text \<open>Nothing is in flight, but the count has not come back to zero: no retransmission, no data.\<close>

theorem window_blocks_flush_witness:
  "dataInFlight (fst (snd (Conn_Flush demo_env (demo_conn\<lparr>dataInFlight := 16777216, c_rcv := NewReceiveBuffer 100\<rparr>) demo_stream1 50 None))) = 16777216"
proof -
  let ?c = "demo_conn\<lparr>dataInFlight := 16777216, c_rcv := NewReceiveBuffer 100\<rparr>"
  obtain r c' pkt where f: "Conn_Flush demo_env ?c demo_stream1 50 None = (r, c', pkt)" by (metis prod.exhaust)
  have "go_int (rcvWndSize ?c) < dataInFlight ?c + env_mtu demo_env" by (simp add: go_int_def demo_conn_def demo_env_def)
  from window_blocks_flush[OF this f] have "dataInFlight c' = 16777216" by simp
  then show ?thesis by (simp only: f fst_conv snd_conv)
qed

text \<open>
  A flush before the next write time writes nothing, but it has already taken the oldest
  acknowledgement out of the list: that acknowledgement is never sent.
\<close>
theorem paced_flush_drops_ack:
  assumes "now < nextWriteTime c" and "ackList (c_rcv c) = a # as"
  shows "\<exists>c'. Conn_Flush env c s now werr = (Inr (0, nextWriteTime c - now), c', None) \<and>
    ackList (c_rcv c') = as \<and> c_snd c' = c_snd c"
  using assms by (simp add: Conn_Flush_def ReceiveBuffer_GetSndAck_def)

theorem paced_flush_drops_ack_witness:
  "\<exists>c'. Conn_Flush demo_env (demo_conn\<lparr>nextWriteTime := 60\<rparr>) demo_stream1 50 None = (Inr (0, 10), c', None) \<and> ackList (c_rcv c') = []"
  using paced_flush_drops_ack[of 50 "demo_conn\<lparr>nextWriteTime := 60\<rparr>" "mkAck 7 2 2" "[]" demo_env demo_stream1 None]
  by (auto simp: demo_conn_def demo_half_def)

section \<open>Streams\<close>

definition streams_wf :: "Conn \<Rightarrow> bool" where
  "streams_wf c \<longleftrightarrow> (\<forall>e \<in> set (lm_entries (streams c)). st_streamID (snd e) = fst e)"

lemma put_stream_entries:
  "set (lm_entries (streams (put_stream c ptr s))) \<subseteq> insert (ptr, s) {e \<in> set (lm_entries (streams c)). fst e \<noteq> ptr} \<union>
     (if lm_get (streams c) ptr = None then set (lm_entries (streams c)) else {})"
  using lmc.set_put[of "streams c" ptr s] by (auto simp: put_stream_def simp del: lm_reads)

lemma put_stream_wf:
  assumes "streams_wf c" and "st_streamID s = ptr"
  shows "streams_wf (put_stream c ptr s)"
proof (cases "lm_get (streams c) ptr")
  case (Some v)
  then show ?thesis using assms put_stream_entries[of c ptr s] by (fastforce simp: streams_wf_def simp del: lm_reads)
qed (use assms in \<open>simp add: put_stream_def del: lm_reads\<close>)

lemma put_stream_get: "sid \<noteq> ptr \<Longrightarrow> lm_get (streams (put_stream c ptr s)) sid = lm_get (streams c) sid"
  by (simp add: put_stream_def lmc.get_put del: lm_reads)

lemma Conn_Stream_wf:
  assumes "streams_wf c" and "Conn_Stream c sid = (s, c')"
  shows "streams_wf c' \<and> st_streamID s = sid \<and> lm_get (streams c') sid = Some s \<and>
    (\<forall>sid'. sid' \<noteq> sid \<longrightarrow> lm_get (streams c') sid' = lm_get (streams c) sid')"
proof (cases "lm_get (streams c) sid")
  case None
  then have r: "s = \<lparr>st_streamID = sid, st_closedAtNano = 0\<rparr>" "c' = c\<lparr>streams := lm_put (streams c) sid s\<rparr>"
    using assms(2) by (auto simp: Conn_Stream_def Let_def simp del: lm_reads)
  have "set (lm_entries (streams c')) = insert (sid, s) {e \<in> set (lm_entries (streams c)). fst e \<noteq> sid}"
    using lmc.set_put[of "streams c" sid s] r(2) by simp
  then have "streams_wf c'" using assms(1) r(1) by (auto simp: streams_wf_def)
  moreover have "lm_get (streams c') sid' = (if sid' = sid then Some s else lm_get (streams c) sid')" for sid'
    unfolding r(2) by (simp add: lmc.get_put del: lm_reads)
  ultimately show ?thesis using r(1) by (simp del: lm_reads)
next
  case (Some v)
  then have r: "s = v" "c' = c" using assms(2) by (simp_all add: Conn_Stream_def del: lm_reads)
  have "(sid, v) \<in> set (lm_entries (streams c))" using Some by (simp only: lmc.get_iff)
  then have "st_streamID v = sid" using assms(1) unfolding streams_wf_def by fastforce
  then show ?thesis using assms(1) r Some by (simp del: lm_reads)
qed

text \<open>Only the stream of the header can be marked closed.\<close>

lemma decode_ack_streams:
  assumes "decode_ack c ptr s ack rawLen now = Some c'"
  shows "streams c' = streams c \<or> streams c' = streams (put_stream c ptr (s\<lparr>st_closedAtNano := now\<rparr>))"
  using assms
  by (auto simp: decode_ack_def Let_def put_stream_def bind_eq_Some_conv simp del: lm_reads
      split: prod.splits AckStatus.splits if_splits)

lemma decode_data_streams: "decode_data c sid p d now = Some c' \<Longrightarrow> streams c' = streams c"
  by (auto simp: decode_data_def bind_eq_Some_conv split: if_splits)

lemma Conn_decode_streams:
  assumes wf: "streams_wf c" and d: "Conn_decode c p userData rawLen now = Some (sid, c')" and ne: "sid' \<noteq> ph_StreamID p"
  shows "sid = ph_StreamID p \<and> lm_get (streams c') sid' = lm_get (streams c) sid'"
proof -
  obtain s c1 where s: "Conn_Stream c (ph_StreamID p) = (s, c1)" by fastforce
  note w = Conn_Stream_wf[OF wf s]
  obtain c2 where c2: "(case ph_Ack p of None \<Rightarrow> Some c1 | Some ack \<Rightarrow> decode_ack c1 (ph_StreamID p) s ack rawLen now) = Some c2"
    and c': "streams c' = streams c2" "sid = st_streamID s"
    using d unfolding Conn_decode_def s prod.case
    by (auto simp: bind_eq_Some_conv Let_def dest!: decode_data_streams)
  have "lm_get (streams c2) sid' = lm_get (streams c1) sid'"
  proof (cases "ph_Ack p")
    case (Some ack)
    then show ?thesis
      using decode_ack_streams[of c1 "ph_StreamID p" s ack rawLen now c2] c2
        put_stream_get[of sid' "ph_StreamID p" c1 "s\<lparr>st_closedAtNano := now\<rparr>"] w ne
      by (auto simp del: lm_reads)
  qed (use c2 in simp)
  then show ?thesis using c' w ne by (simp del: lm_reads)
qed

lemma ack_only_stream: "DecodePayload b = Inr (p, None) \<Longrightarrow> ph_StreamID p = 0"
  by (auto simp: DecodePayload_def and_then_eq_Inr Let_def split: if_splits)

text \<open>
  C38: An acknowledgement that comes without data is processed as a packet of stream 0, which it
  creates: the test whether a closed stream is fully acknowledged is made for stream 0 and not
  for the stream of the acknowledgement, and no other stream is ever marked closed by it.
\<close>
theorem ack_only_closes_only_stream_zero:
  assumes "streams_wf c" and "DecodePayload b = Inr (p, None)"
    and "Conn_decode c p None rawLen now = Some (sid, c')"
  shows "sid = 0 \<and> (sid' \<noteq> 0 \<longrightarrow> lm_get (streams c') sid' = lm_get (streams c) sid')"
proof -
  have z: "ph_StreamID p = 0" by (rule ack_only_stream[OF assms(2)])
  obtain x :: u32 where "x \<noteq> 0" by (metis zero_neq_one)
  then have "sid = 0" using Conn_decode_streams[OF assms(1,3), of x] z by simp
  then show ?thesis using Conn_decode_streams[OF assms(1,3), of sid'] z by simp
qed

text \<open>
  The instance: stream 1 is closed and its only packet in flight is acknowledged. Afterwards it
  is fully acknowledged, but not marked closed.
\<close>

definition demo_closing :: Conn where
  "demo_closing = demo_conn\<lparr>c_snd := SendBuffer_Close (sys_buf demo_sent) 1\<rparr>"

definition demo_last_ack :: PayloadHeader where
  "demo_last_ack = \<lparr>ph_IsClose = False,
     ph_Ack = Some \<lparr>ack_streamID = 1, ack_offset = 0, ack_len = 3, ack_rcvWnd = 0\<rparr>, ph_StreamID = 0, ph_StreamOffset = 0\<rparr>"

lemma demo_last_ack_decodes: "DecodePayload (payloadBytes demo_last_ack None) = Inr (demo_last_ack, None)"
  by (subst DecodePayload_payloadBytes)
     (simp_all add: offsetsFit_def demo_last_ack_def transmitted_def isAckOnly_def EncodeRcvWindow_def DecodeRcvWindow_def)

theorem ack_only_closes_only_stream_zero_witness:
  "\<exists>c'. Conn_decode demo_closing demo_last_ack None 40 5 = Some (0, c') \<and> checkStreamFullyAcked c' 1 \<and>
     lm_get (streams c') 1 = Some demo_stream1"
proof -
  obtain c' where c': "Conn_decode demo_closing demo_last_ack None 40 5 = Some (0, c')" "checkStreamFullyAcked c' 1"
    by (simp add: Conn_decode_def demo_closing_def demo_last_ack_def Conn_Stream_def decode_ack_def decode_data_def
        checkStreamFullyAcked_def demo_conn_def demo_defs SendBuffer_Close_def SendBuffer_AcknowledgeRange_def
        SendBuffer_GetOffsetClosedAt_def SendBuffer_GetOffsetAcked_def snd_getOrCreateStream_def snd_put_stream_def
        createPacketKey_def newSendInfo_def entry_result_def put_stream_def al_put_def al_remove_def
        al_replace_def Let_def)
  have "streams_wf demo_closing"
    by (simp add: streams_wf_def demo_closing_def demo_conn_def al_put_def)
  from ack_only_closes_only_stream_zero[OF this demo_last_ack_decodes c'(1), of 1] c' show ?thesis
    by (simp add: demo_closing_def demo_conn_def al_put_def)
qed

end
