(* ===== verification/Hex.thy ===== *)
theory Hex
  imports Crypto
begin

text \<open>
  Keys as hexadecimal text: \<^verbatim>\<open>decodeHex\<close> of \<^verbatim>\<open>codec.go\<close>, \<^verbatim>\<open>decodeHexPubKey\<close> of \<^verbatim>\<open>crypto.go\<close> and the
  key log lines of \<^verbatim>\<open>logKey\<close> in \<^verbatim>\<open>listener.go\<close>, with what they use of \<^verbatim>\<open>encoding/hex\<close> and \<^verbatim>\<open>fmt\<close>.
\<close>

section \<open>Digits\<close>

definition hextable :: string where
  "hextable = ''0123456789abcdef''"

definition hex_val :: "char \<Rightarrow> u8 option" where
  "hex_val c =
     (let n = of_char c :: nat in
      if 48 \<le> n \<and> n \<le> 57 then Some (word_of_nat (n - 48))
      else if 97 \<le> n \<and> n \<le> 102 then Some (word_of_nat (n - 87))
      else if 65 \<le> n \<and> n \<le> 70 then Some (word_of_nat (n - 55))
      else None)"

text \<open>\<open>%x\<close> of a byte slice and of an integer.\<close>

definition hex_byte :: "u8 \<Rightarrow> string" where
  "hex_byte b = [hextable ! (unat b div 16), hextable ! (unat b mod 16)]"

definition hex_bytes :: "bytes \<Rightarrow> string" where
  "hex_bytes bs = concat (map hex_byte bs)"

fun hex_nat :: "nat \<Rightarrow> string" where
  "hex_nat n = (if n < 16 then [hextable ! n] else hex_nat (n div 16) @ [hextable ! (n mod 16)])"

declare hex_nat.simps [simp del]

text \<open>\<^verbatim>\<open>hex.DecodeString\<close>: the bytes before the first bad pair, and the error.\<close>

fun hex_DecodeString :: "string \<Rightarrow> bytes \<times> string option" where
  "hex_DecodeString [] = ([], None)"
| "hex_DecodeString [p] =
     ([], Some (if hex_val p = None then ''encoding/hex: invalid byte'' else ''encoding/hex: odd length hex string''))"
| "hex_DecodeString (p # q # rest) =
     (case hex_val p of
        None \<Rightarrow> ([], Some ''encoding/hex: invalid byte'')
      | Some a \<Rightarrow>
          (case hex_val q of
             None \<Rightarrow> ([], Some ''encoding/hex: invalid byte'')
           | Some b \<Rightarrow> (case hex_DecodeString rest of (bs, err) \<Rightarrow> ((push_bit 4 a OR b) # bs, err))))"

section \<open>The functions of the program\<close>

definition decodeHex :: "string \<Rightarrow> bytes \<times> string option" where
  "decodeHex pubKeyHex = hex_DecodeString (if take 2 pubKeyHex = ''0x'' then drop 2 pubKeyHex else pubKeyHex)"

definition decodeHexPubKey :: "string \<Rightarrow> pubKey result" where
  "decodeHexPubKey pubKeyHex =
     (case decodeHex pubKeyHex of
        (_, Some err) \<Rightarrow> Inl (Err err)
      | (b, None) \<Rightarrow> ecdh_NewPublicKey b)"

text \<open>What is appended to the key log by a writer that does not fail.\<close>

definition logKey :: "u64 \<Rightarrow> bytes \<Rightarrow> bytes \<Rightarrow> string list" where
  "logKey connId secret secretId =
     [''QOTP_SHARED_SECRET '' @ hex_nat (unat connId) @ '' '' @ hex_bytes secret @ [CHR 0x0A],
      ''QOTP_SHARED_SECRET_ID '' @ hex_nat (unat connId) @ '' '' @ hex_bytes secretId @ [CHR 0x0A]]"

section \<open>Round trip\<close>

lemma hex_val_table: "n < 16 \<Longrightarrow> hex_val (hextable ! n) = Some (word_of_nat n)"
proof -
  have "\<forall>n \<in> set [0..<16]. hex_val (hextable ! n) = Some (word_of_nat n)"
    by (simp add: hex_val_def hextable_def upt_rec[of _ 16] of_char_def)
  then show "n < 16 \<Longrightarrow> hex_val (hextable ! n) = Some (word_of_nat n)" by simp
qed

lemma nibbles: "push_bit 4 (word_of_nat (unat b div 16)) OR word_of_nat (unat b mod 16) = (b :: u8)"
proof (rule bit_word_eqI)
  fix n
  assume "n < LENGTH(8)"
  have "unat b div 16 = drop_bit 4 (unat b)" "unat b mod 16 = take_bit 4 (unat b)"
    by (simp_all add: drop_bit_eq_div take_bit_eq_mod)
  then show "bit (push_bit 4 (word_of_nat (unat b div 16)) OR word_of_nat (unat b mod 16) :: u8) n = bit b n"
    using \<open>n < LENGTH(8)\<close> by (auto simp: bit_simps)
qed

lemma hex_DecodeString_hex_bytes: "hex_DecodeString (hex_bytes bs) = (bs, None)"
proof (induction bs)
  case (Cons b bs)
  have "unat b div 16 < 16" using unsigned_less[of b, where 'a = nat] by simp
  then show ?case using Cons by (simp add: hex_bytes_def hex_byte_def hex_val_table nibbles)
qed (simp add: hex_bytes_def)

lemma hex_bytes_no_prefix: "take 2 (hex_bytes bs) \<noteq> ''0x''"
proof (cases bs)
  case (Cons b bs')
  have "hextable ! n \<noteq> CHR ''x''" if "n < 16" for n
    using hex_val_table[OF that] by (auto simp: hex_val_def)
  then show ?thesis using Cons by (simp add: hex_bytes_def hex_byte_def)
qed (simp add: hex_bytes_def)

lemma hex_DecodeString_length: "hex_DecodeString s = (bs, None) \<Longrightarrow> length s = 2 * length bs"
  by (induction s arbitrary: bs rule: hex_DecodeString.induct) (auto split: option.splits prod.splits)

text \<open>
  A key printed in hexadecimal, with or without the prefix \<open>0x\<close>, is read back by
  \<^verbatim>\<open>decodeHexPubKey\<close> if it has 32 bytes and refused otherwise; every accepted text has 64
  hexadecimal digits.
\<close>
theorem hex_key_roundtrip:
  "decodeHexPubKey (hex_bytes k) = (if length k = 32 then Inr k else Inl (Err ''invalid public key'')) \<and>
   decodeHexPubKey (''0x'' @ hex_bytes k) = decodeHexPubKey (hex_bytes k) \<and>
   (decodeHexPubKey s = Inr k' \<longrightarrow> length (if take 2 s = ''0x'' then drop 2 s else s) = 64 \<and> length k' = 32)"
proof (intro conjI impI)
  show "decodeHexPubKey (hex_bytes k) = (if length k = 32 then Inr k else Inl (Err ''invalid public key''))"
    by (simp add: decodeHexPubKey_def decodeHex_def hex_bytes_no_prefix hex_DecodeString_hex_bytes ecdh_NewPublicKey_def)
  show "decodeHexPubKey (''0x'' @ hex_bytes k) = decodeHexPubKey (hex_bytes k)"
    by (simp add: decodeHexPubKey_def decodeHex_def hex_bytes_no_prefix)
next
  assume "decodeHexPubKey s = Inr k'"
  then obtain b where "decodeHex s = (b, None)" "ecdh_NewPublicKey b = Inr k'"
    by (auto simp: decodeHexPubKey_def split: prod.splits option.splits)
  then show "length (if take 2 s = ''0x'' then drop 2 s else s) = 64" "length k' = 32"
    by (auto simp: decodeHex_def ecdh_NewPublicKey_def split: if_splits dest!: hex_DecodeString_length)
qed

theorem hex_key_roundtrip_witness:
  "decodeHexPubKey (''0x'' @ hex_bytes (replicate 32 0xAB)) = Inr (replicate 32 0xAB) \<and>
   length (hex_bytes (replicate 32 0xAB)) = 64"
  using hex_key_roundtrip[of "replicate 32 0xAB" "''0x'' @ hex_bytes (replicate 32 0xAB)" "replicate 32 0xAB"] by simp

end
