(* ===== verification/Net.thy ===== *)
theory Net
  imports Qotp_Prelude
begin

text \<open>
  The wrapper around the UDP socket. What the wrapper keeps in the socket is the read deadline;
  the results of the calls of the operating system are arguments. The last part is the option
  that forbids fragmentation, for the three systems.
\<close>

section \<open>The socket\<close>

text \<open>The deadline of the socket in nanoseconds; the zero time of the library is no deadline.\<close>

record UDPNetworkConn =
  readDeadline :: "int option"

definition NewUDPNetworkConn :: UDPNetworkConn where
  "NewUDPNetworkConn = \<lparr>readDeadline = None\<rparr>"

text \<open>
  Reading: the deadline is the sum of two 64-bit counters, read as a signed number; then the
  socket is read, with a result that depends on the deadline.
\<close>

definition UDPNetworkConn_ReadFromUDPAddrPort ::
  "go_error option \<Rightarrow> (int option \<Rightarrow> 'r result) \<Rightarrow> UDPNetworkConn \<Rightarrow> u64 \<Rightarrow> u64 \<Rightarrow> 'r result \<times> UDPNetworkConn" where
  "UDPNetworkConn_ReadFromUDPAddrPort setErr readUDP c timeoutNano nowNano =
     (case setErr of
        Some err \<Rightarrow> (Inl err, c)
      | None \<Rightarrow> let c = c\<lparr>readDeadline := Some (go_int (nowNano + timeoutNano))\<rparr> in (readUDP (readDeadline c), c))"

definition UDPNetworkConn_TimeoutReadNow :: "go_error option \<Rightarrow> UDPNetworkConn \<Rightarrow> go_error option \<times> UDPNetworkConn" where
  "UDPNetworkConn_TimeoutReadNow setErr c =
     (case setErr of Some err \<Rightarrow> (Some err, c) | None \<Rightarrow> (None, c\<lparr>readDeadline := None\<rparr>))"

definition UDPNetworkConn_WriteToUDPAddrPort :: "int \<times> go_error option \<Rightarrow> u8 list \<Rightarrow> go_error option" where
  "UDPNetworkConn_WriteToUDPAddrPort writeUDP b =
     (case writeUDP of (n, err) \<Rightarrow>
        if n \<noteq> int (length b) then Some (Err ''could not send all data. This should not happen'') else err)"

section \<open>No fragmentation\<close>

text \<open>
  The errors of the two socket options are only logged: the call fails only when the socket
  cannot be reached.
\<close>

definition setDontFragment_linux :: "go_error option \<Rightarrow> go_error option \<Rightarrow> go_error option" where
  "setDontFragment_linux syscallErr controlErr = (case syscallErr of Some err \<Rightarrow> Some err | None \<Rightarrow> controlErr)"

definition setDontFragment_windows :: "go_error option \<Rightarrow> go_error option \<Rightarrow> go_error option" where
  "setDontFragment_windows syscallErr controlErr = (case syscallErr of Some err \<Rightarrow> Some err | None \<Rightarrow> controlErr)"

text \<open>The decimal numbers of the library: an optional sign, digits, and the range of a 64-bit integer.\<close>

definition digit :: "char \<Rightarrow> int option" where
  "digit c = (let n = (of_char c :: nat) in if 48 \<le> n \<and> n \<le> 57 then Some (int n - 48) else None)"

fun digits :: "int \<Rightarrow> string \<Rightarrow> int option" where
  "digits n [] = Some n"
| "digits n (c # cs) = (case digit c of None \<Rightarrow> None | Some i \<Rightarrow> digits (10 * n + i) cs)"

definition strconv_Atoi :: "string \<Rightarrow> int result" where
  "strconv_Atoi s =
     (let (neg, ds) = (case s of c # cs \<Rightarrow> if c = CHR ''-'' then (True, cs) else if c = CHR ''+'' then (False, cs) else (False, s) | [] \<Rightarrow> (False, s))
      in if ds = [] then Inl (Err ''invalid syntax'')
         else case digits 0 ds of
           None \<Rightarrow> Inl (Err ''invalid syntax'')
         | Some n \<Rightarrow>
             let v = (if neg then - n else n) in
             if v < - (2 ^ 63) \<or> 2 ^ 63 \<le> v then Inl (Err ''value out of range'') else Inr v)"

definition isAtLeastMacOS11 :: "string result \<Rightarrow> bool result" where
  "isAtLeastMacOS11 uname =
     and_then uname (\<lambda>release.
       if CHR ''.'' \<in> set release
       then and_then (strconv_Atoi (takeWhile (\<lambda>c. c \<noteq> CHR ''.'') release)) (\<lambda>version. Inr (20 \<le> version))
       else Inr False)"

definition setDontFragment_darwin :: "string result \<Rightarrow> go_error option \<Rightarrow> go_error option \<Rightarrow> go_error option" where
  "setDontFragment_darwin uname syscallErr controlErr =
     (case isAtLeastMacOS11 uname of
        Inl err \<Rightarrow> Some err
      | Inr False \<Rightarrow> None
      | Inr True \<Rightarrow> (case syscallErr of Some err \<Rightarrow> Some err | None \<Rightarrow> controlErr))"

section \<open>Deadlines\<close>

text \<open>When a read of the socket that waits gives up: without a deadline, never.\<close>

definition gives_up :: "int option \<Rightarrow> int \<Rightarrow> bool" where
  "gives_up deadline t = (case deadline of None \<Rightarrow> False | Some d \<Rightarrow> d \<le> t)"

text \<open>A read gives up after its timeout, as long as the clock has not passed the signed range.\<close>

lemma read_gives_up:
  assumes "unat nowNano + unat timeoutNano < 2 ^ 63"
    and "UDPNetworkConn_ReadFromUDPAddrPort None readUDP c timeoutNano nowNano = (r, c')"
  shows "gives_up (readDeadline c') t \<longleftrightarrow> int (unat nowNano + unat timeoutNano) \<le> t"
proof -
  have u: "unat (nowNano + timeoutNano) = unat nowNano + unat timeoutNano" using assms(1) by (intro unat_add_small) simp
  then have "go_int (nowNano + timeoutNano) = int (unat nowNano + unat timeoutNano)"
    using assms(1) by (subst go_int_small) simp_all
  then show ?thesis using assms(2) by (auto simp: UDPNetworkConn_ReadFromUDPAddrPort_def gives_up_def Let_def)
qed

text \<open>
  \<^verbatim>\<open>TimeoutReadNow\<close> is called to wake up a read that waits. It clears the deadline, so the read
  waits for a packet instead, however long that takes.
\<close>

lemma timeout_read_now_waits:
  assumes "UDPNetworkConn_TimeoutReadNow None c = (None, c')"
  shows "\<not> gives_up (readDeadline c') t"
  using assms by (auto simp: UDPNetworkConn_TimeoutReadNow_def gives_up_def)

text \<open>Releases of the system: from version 20 on the option is set, and a release that is no number is an error.\<close>

lemma macos_releases:
  "isAtLeastMacOS11 (Inr ''20.6.0'') = Inr True" "isAtLeastMacOS11 (Inr ''19.6.0'') = Inr False"
  "isAtLeastMacOS11 (Inr ''x.1'') = Inl (Err ''invalid syntax'')" "isAtLeastMacOS11 (Inr ''20'') = Inr False"
  by code_simp+

end
