(* ===== verification/Listener.thy ===== *)
theory Listener
  imports Conn Hex
begin

text \<open>
  \<^verbatim>\<open>listener.go\<close>, \<^verbatim>\<open>Listener.decode\<close> of \<^verbatim>\<open>codec.go\<close> and the cleanup of \<^verbatim>\<open>conn.go\<close>: the listener with
  its connections. A connection object is the entry of the connection map, and a pointer to it
  is its key; a pointer to a stream is the pair of keys.

  The socket, the random numbers and the name resolution are outside the model. What a read
  returns, the generated key, the error of each write and the order in which the runtime
  iterates a map are arguments, and the packets written are part of the result.
\<close>

section \<open>State\<close>

text \<open>
  The fields \<^verbatim>\<open>currentConnID\<close> and \<^verbatim>\<open>currentStreamID\<close> are pointers to the identifier inside a
  connection and inside a stream: each is the place of that object and the value stored there.
\<close>

record Listener =
  l_prvKeyId :: prvKey
  connMap :: "(u64, Conn) linked_map"
  currentConnID :: "(u64 \<times> u64) option"
  currentStreamID :: "((u64 \<times> u32) \<times> u32) option"
  l_closed :: bool
  keyLogWriter :: "string list option"
  l_mtu :: int

definition l_env :: "crypto_lib \<Rightarrow> Listener \<Rightarrow> conn_env" where
  "l_env L l = \<lparr>env_lib = L, env_prvKeyId = l_prvKeyId l, env_mtu = l_mtu l\<rparr>"

definition put_conn :: "Listener \<Rightarrow> u64 \<Rightarrow> Conn \<Rightarrow> Listener" where
  "put_conn l k c = l\<lparr>connMap := lm_put (connMap l) k c\<rparr>"

definition rcvBufferCapacity :: int where "rcvBufferCapacity = 16 * 1024 * 1024"
definition sndBufferCapacity :: int where "sndBufferCapacity = 16 * 1024 * 1024"

section \<open>Options\<close>

record ListenOption =
  o_seed :: "bytes option"
  o_prvKeyId :: "prvKey option"
  o_localConn :: "string option"
  o_listenAddr :: "string option"
  o_mtu :: int
  o_keyLogWriter :: "string list option"

type_synonym ListenFunc = "ListenOption \<Rightarrow> ListenOption result"

definition WithMtu :: "int \<Rightarrow> ListenFunc" where
  "WithMtu mtu opt = (if o_mtu opt \<noteq> 0 then Inl (Err ''mtu already set'') else Inr (opt\<lparr>o_mtu := mtu\<rparr>))"

definition WithKeyLogWriter :: "string list option \<Rightarrow> ListenFunc" where
  "WithKeyLogWriter w opt = Inr (opt\<lparr>o_keyLogWriter := w\<rparr>)"

definition WithSeed :: "bytes \<Rightarrow> ListenFunc" where
  "WithSeed seed opt = (if o_seed opt \<noteq> None then Inl (Err ''seed already set'') else Inr (opt\<lparr>o_seed := Some seed\<rparr>))"

definition WithNetworkConn :: "string option \<Rightarrow> ListenFunc" where
  "WithNetworkConn localConn opt = Inr (opt\<lparr>o_localConn := localConn\<rparr>)"

definition WithPrvKeyId :: "prvKey option \<Rightarrow> ListenFunc" where
  "WithPrvKeyId prvKeyId opt =
     (if o_prvKeyId opt \<noteq> None then Inl (Err ''prvKeyId already set'')
      else if prvKeyId = None then Inl (Err ''prvKeyId not set'')
      else Inr (opt\<lparr>o_prvKeyId := prvKeyId\<rparr>))"

text \<open>\<open>o.seed[:]\<close> of a nil pointer to an array is a panic.\<close>

definition WithSeedStrHex :: "string \<Rightarrow> ListenFunc" where
  "WithSeedStrHex seedStrHex opt =
     (if o_seed opt \<noteq> None then Inl (Err ''seed already set'')
      else case decodeHex seedStrHex of
        (seed, err) \<Rightarrow>
          if length seed \<noteq> 32 then Inl (Err ''seed must be exactly 32 bytes'')
          else case err of
            Some e \<Rightarrow> Inl (Err e)
          | None \<Rightarrow>
              (case o_seed opt of
                 None \<Rightarrow> Inl (Panic ''nil pointer dereference'')
               | Some old \<Rightarrow> Inr (opt\<lparr>o_seed := Some (fst (go_copy old seed))\<rparr>)))"

definition WithSeedStr :: "(string \<Rightarrow> bytes) \<Rightarrow> string \<Rightarrow> ListenFunc" where
  "WithSeedStr sha256 seedStr opt =
     (if o_seed opt \<noteq> None then Inl (Err ''seed already set'') else Inr (opt\<lparr>o_seed := Some (sha256 seedStr)\<rparr>))"

definition WithListenAddr :: "(string \<Rightarrow> string result) \<Rightarrow> string \<Rightarrow> ListenFunc" where
  "WithListenAddr resolve addr opt =
     (if o_listenAddr opt \<noteq> None then Inl (Err ''listenAddr already set'')
      else and_then (resolve addr) (\<lambda>listenAddr. Inr (opt\<lparr>o_listenAddr := Some listenAddr\<rparr>)))"

definition ecdh_NewPrivateKey :: "bytes \<Rightarrow> prvKey result" where
  "ecdh_NewPrivateKey b = (if length b \<noteq> 32 then Inl (Err ''invalid private key size'') else Inr b)"

fun apply_options :: "ListenOption \<Rightarrow> ListenFunc list \<Rightarrow> ListenOption result" where
  "apply_options lOpts [] = Inr lOpts"
| "apply_options lOpts (opt # options) = and_then (opt lOpts) (\<lambda>lOpts. apply_options lOpts options)"

text \<open>The generated key and the opened socket are arguments.\<close>

definition fillListenOpts :: "prvKey result \<Rightarrow> (string option \<Rightarrow> string result) \<Rightarrow> ListenFunc list \<Rightarrow> ListenOption result" where
  "fillListenOpts gen listenUDP options =
     and_then (apply_options \<lparr>o_seed = None, o_prvKeyId = None, o_localConn = None, o_listenAddr = None,
                              o_mtu = 0, o_keyLogWriter = None\<rparr> options) (\<lambda>lOpts.
     let lOpts = (if o_mtu lOpts = 0 then lOpts\<lparr>o_mtu := 1400\<rparr> else lOpts) in
     and_then (case o_seed lOpts of
                 None \<Rightarrow> Inr lOpts
               | Some seed \<Rightarrow> and_then (ecdh_NewPrivateKey seed) (\<lambda>k. Inr (lOpts\<lparr>o_prvKeyId := Some k\<rparr>))) (\<lambda>lOpts.
     and_then (if o_prvKeyId lOpts = None then and_then gen (\<lambda>k. Inr (lOpts\<lparr>o_prvKeyId := Some k\<rparr>))
               else Inr lOpts) (\<lambda>lOpts.
     if o_localConn lOpts = None
     then and_then (listenUDP (o_listenAddr lOpts)) (\<lambda>c. Inr (lOpts\<lparr>o_localConn := Some c\<rparr>))
     else Inr lOpts)))"

definition Listen :: "prvKey result \<Rightarrow> (string option \<Rightarrow> string result) \<Rightarrow> ListenFunc list \<Rightarrow> Listener result" where
  "Listen gen listenUDP options =
     and_then (fillListenOpts gen listenUDP options) (\<lambda>lOpts.
     case o_prvKeyId lOpts of
       None \<Rightarrow> Inl (Panic ''nil pointer dereference'')
     | Some k \<Rightarrow>
         Inr \<lparr>l_prvKeyId = k, connMap = lm_new, currentConnID = None, currentStreamID = None, l_closed = False,
              keyLogWriter = o_keyLogWriter lOpts, l_mtu = o_mtu lOpts\<rparr>)"

definition Listener_PubKey :: "crypto_lib \<Rightarrow> Listener \<Rightarrow> pubKey" where
  "Listener_PubKey L l = ecdh_PublicKey L (l_prvKeyId l)"

section \<open>Connections\<close>

definition ECDH_ptr :: "crypto_lib \<Rightarrow> prvKey \<Rightarrow> pubKey option \<Rightarrow> bytes result" where
  "ECDH_ptr L prvKey pubKey =
     (case pubKey of None \<Rightarrow> Inl (Panic ''nil pointer dereference'') | Some k \<Rightarrow> ECDH L prvKey k)"

definition mk_conn :: "u64 \<Rightarrow> string \<Rightarrow> prvKey \<Rightarrow> pubKey option \<Rightarrow> pubKey option \<Rightarrow> bool \<Rightarrow> bool \<Rightarrow> Conn" where
  "mk_conn cid addr prvKeyEp pubKeyId pubKeyEp isSender withCrypto =
     \<lparr>connId = cid, remoteAddr = addr, streams = lm_new, prvKeyEpSnd = prvKeyEp, pubKeyEpRcv = pubKeyEp,
      pubKeyIdRcv = pubKeyId, sharedSecret = None, c_snd = NewSendBuffer sndBufferCapacity,
      c_rcv = NewReceiveBuffer rcvBufferCapacity, dataInFlight = 0, rcvWndSize = word_of_int rcvBufferCapacity,
      isSenderOnInit = isSender, isWithCryptoOnInit = withCrypto, isHandshakeDoneOnRcv = False,
      isInitSentOnSnd = False, nextWriteTime = 0, snCrypto = 0, epochCryptoSnd = 0, epochCryptoRcv = 0,
      measurements = NewMeasurements\<rparr>"

definition Listener_newConn ::
  "crypto_lib \<Rightarrow> Listener \<Rightarrow> u64 \<Rightarrow> string \<Rightarrow> prvKey \<Rightarrow> pubKey option \<Rightarrow> pubKey option \<Rightarrow> bool \<Rightarrow> bool \<Rightarrow> Conn result \<times> Listener" where
  "Listener_newConn L l cid addr prvKeyEp pubKeyId pubKeyEp isSender withCrypto =
     (if lm_get (connMap l) cid \<noteq> None then (Inl (Err ''conn already exists''), l)
      else
        let conn = mk_conn cid addr prvKeyEp pubKeyId pubKeyEp isSender withCrypto;
            logged = (case keyLogWriter l of
                        None \<Rightarrow> Inr l
                      | Some w \<Rightarrow>
                          and_then (ECDH_ptr L prvKeyEp pubKeyEp) (\<lambda>sharedSecret.
                          and_then (ECDH_ptr L prvKeyEp pubKeyId) (\<lambda>sharedSecretId.
                          Inr (l\<lparr>keyLogWriter := Some (w @ logKey cid sharedSecret sharedSecretId)\<rparr>))))
        in case logged of
             Inl e \<Rightarrow> (Inl e, l)
           | Inr l \<Rightarrow> (Inr conn, put_conn l cid conn))"

text \<open>The generated key is an argument; the identifier is the head of its public key.\<close>

definition dial_with ::
  "crypto_lib \<Rightarrow> prvKey result \<Rightarrow> Listener \<Rightarrow> string \<Rightarrow> pubKey option \<Rightarrow> bool \<Rightarrow> Conn result \<times> Listener" where
  "dial_with L gen l addr pubKeyId withCrypto =
     (case gen of
        Inl e \<Rightarrow> (Inl e, l)
      | Inr prvKeyEp \<Rightarrow>
          (case or_panic (Uint64 (ecdh_PublicKey L prvKeyEp)) of
             Inl e \<Rightarrow> (Inl e, l)
           | Inr cid \<Rightarrow> Listener_newConn L l cid addr prvKeyEp pubKeyId None True withCrypto))"

definition Listener_Dial :: "crypto_lib \<Rightarrow> prvKey result \<Rightarrow> Listener \<Rightarrow> string \<Rightarrow> Conn result \<times> Listener" where
  "Listener_Dial L gen l addr = dial_with L gen l addr None False"

definition Listener_DialWithCrypto ::
  "crypto_lib \<Rightarrow> prvKey result \<Rightarrow> Listener \<Rightarrow> string \<Rightarrow> pubKey option \<Rightarrow> Conn result \<times> Listener" where
  "Listener_DialWithCrypto L gen l addr pubKeyId = dial_with L gen l addr pubKeyId True"

definition Listener_DialString ::
  "crypto_lib \<Rightarrow> prvKey result \<Rightarrow> (string \<Rightarrow> string result) \<Rightarrow> Listener \<Rightarrow> string \<Rightarrow> Conn result \<times> Listener" where
  "Listener_DialString L gen parseAddr l addrString =
     (case parseAddr addrString of Inl e \<Rightarrow> (Inl e, l) | Inr addr \<Rightarrow> Listener_Dial L gen l addr)"

definition Listener_DialWithCryptoString ::
  "crypto_lib \<Rightarrow> prvKey result \<Rightarrow> (string \<Rightarrow> string result) \<Rightarrow> Listener \<Rightarrow> string \<Rightarrow> string \<Rightarrow> Conn result \<times> Listener" where
  "Listener_DialWithCryptoString L gen parseAddr l addrString pubKeyIdHex =
     (case parseAddr addrString of
        Inl e \<Rightarrow> (Inl e, l)
      | Inr addr \<Rightarrow>
          (case decodeHexPubKey pubKeyIdHex of
             Inl e \<Rightarrow> (Inl e, l)
           | Inr k \<Rightarrow> Listener_DialWithCrypto L gen l addr (Some k)))"

section \<open>Decoding\<close>

definition msg_of_code :: "u8 \<Rightarrow> CryptoMsgType option" where
  "msg_of_code n =
     (if n = 0 then Some InitSnd else if n = 1 then Some InitRcv else if n = 2 then Some InitCryptoSnd
      else if n = 3 then Some InitCryptoRcv else if n = 4 then Some Data else None)"

text \<open>\<^verbatim>\<open>fmt.Errorf\<close> with a wrapped error; a panic passes through.\<close>

definition wrap_err :: "string \<Rightarrow> go_error \<Rightarrow> go_error" where
  "wrap_err msg e = (case e of Err m \<Rightarrow> Err (msg @ m) | Panic m \<Rightarrow> Panic m)"

text \<open>The connection a first packet belongs to: the one in the map, or a new one with a fresh key.\<close>

definition conn_for_init ::
  "crypto_lib \<Rightarrow> prvKey result \<Rightarrow> Listener \<Rightarrow> u64 \<Rightarrow> string \<Rightarrow> pubKey \<Rightarrow> pubKey \<Rightarrow> bool \<Rightarrow> Conn result \<times> Listener" where
  "conn_for_init L gen l cid addr pubKeyIdSnd pubKeyEpSnd withCrypto =
     (case lm_get (connMap l) cid of
        Some conn \<Rightarrow> (Inr conn, l)
      | None \<Rightarrow>
          (case gen of
             Inl e \<Rightarrow> (Inl (wrap_err ''failed to generate keys: '' e), l)
           | Inr prvKeyEpRcv \<Rightarrow>
               (case Listener_newConn L l cid addr prvKeyEpRcv (Some pubKeyIdSnd) (Some pubKeyEpSnd) False withCrypto of
                  (Inl e, l) \<Rightarrow> (Inl (wrap_err ''failed to create connection: '' e), l)
                | (Inr conn, l) \<Rightarrow> (Inr conn, put_conn l cid conn))))"

type_synonym decoded = "(u64 \<times> bytes \<times> CryptoMsgType) result \<times> Listener"

definition decode_InitSnd :: "crypto_lib \<Rightarrow> prvKey result \<Rightarrow> Listener \<Rightarrow> u64 \<Rightarrow> bytes \<Rightarrow> bytes \<Rightarrow> string \<Rightarrow> decoded" where
  "decode_InitSnd L gen l cid encData spare addr =
     (case decryptInitSnd encData spare (l_mtu l) of
        Inl e \<Rightarrow> (Inl (wrap_err ''failed to decode InitHandshakeS0: '' e), l)
      | Inr (pubKeyIdSnd, pubKeyEpSnd) \<Rightarrow>
          (case conn_for_init L gen l cid addr pubKeyIdSnd pubKeyEpSnd False of
             (Inl e, l) \<Rightarrow> (Inl e, l)
           | (Inr conn, l) \<Rightarrow>
               (case ECDH L (prvKeyEpSnd conn) pubKeyEpSnd of
                  Inl e \<Rightarrow> (Inl (wrap_err ''failed to create connection: '' e), l)
                | Inr secret \<Rightarrow> (Inr (cid, [], InitSnd), put_conn l cid (conn\<lparr>sharedSecret := Some secret\<rparr>)))))"

definition decode_InitRcv :: "crypto_lib \<Rightarrow> Listener \<Rightarrow> u64 \<Rightarrow> bytes \<Rightarrow> bytes \<Rightarrow> decoded" where
  "decode_InitRcv L l cid encData spare =
     (case lm_get (connMap l) cid of
        None \<Rightarrow> (Inl (Err ''connection not found for InitRcv''), l)
      | Some conn \<Rightarrow>
          (case decryptInitRcv L encData spare (prvKeyEpSnd conn) of
             Inl e \<Rightarrow> (Inl (wrap_err ''failed to decode InitRcv: '' e), l)
           | Inr (secret, pubKeyId, pubKeyEp, message) \<Rightarrow>
               (Inr (cid, PayloadRaw message, InitRcv),
                put_conn l cid (conn\<lparr>pubKeyIdRcv := Some pubKeyId, pubKeyEpRcv := Some pubKeyEp, sharedSecret := Some secret\<rparr>))))"

text \<open>Here the error of the second key exchange is not looked at, and the secret is then nil.\<close>

definition decode_InitCryptoSnd :: "crypto_lib \<Rightarrow> prvKey result \<Rightarrow> Listener \<Rightarrow> u64 \<Rightarrow> bytes \<Rightarrow> bytes \<Rightarrow> string \<Rightarrow> decoded" where
  "decode_InitCryptoSnd L gen l cid encData spare addr =
     (case decryptInitCryptoSnd L encData spare (l_prvKeyId l) (l_mtu l) of
        Inl e \<Rightarrow> (Inl (wrap_err ''failed to decode InitWithCryptoS0: '' e), l)
      | Inr (pubKeyIdSnd, pubKeyEpSnd, message) \<Rightarrow>
          (case conn_for_init L gen l cid addr pubKeyIdSnd pubKeyEpSnd True of
             (Inl e, l) \<Rightarrow> (Inl e, l)
           | (Inr conn, l) \<Rightarrow>
               let secret = (case ECDH L (prvKeyEpSnd conn) pubKeyEpSnd of Inl _ \<Rightarrow> None | Inr s \<Rightarrow> Some s) in
               (Inr (cid, PayloadRaw message, InitCryptoSnd), put_conn l cid (conn\<lparr>sharedSecret := secret\<rparr>))))"

definition decode_InitCryptoRcv :: "crypto_lib \<Rightarrow> Listener \<Rightarrow> u64 \<Rightarrow> bytes \<Rightarrow> bytes \<Rightarrow> decoded" where
  "decode_InitCryptoRcv L l cid encData spare =
     (case lm_get (connMap l) cid of
        None \<Rightarrow> (Inl (Err ''connection not found for InitWithCryptoR0''), l)
      | Some conn \<Rightarrow>
          (case decryptInitCryptoRcv L encData spare (prvKeyEpSnd conn) of
             Inl e \<Rightarrow> (Inl (wrap_err ''failed to decode InitWithCryptoR0: '' e), l)
           | Inr (secret, pubKeyEp, message) \<Rightarrow>
               (Inr (cid, PayloadRaw message, InitCryptoRcv),
                put_conn l cid (conn\<lparr>pubKeyEpRcv := Some pubKeyEp, sharedSecret := Some secret\<rparr>))))"

definition decode_Data :: "crypto_lib \<Rightarrow> Listener \<Rightarrow> u64 \<Rightarrow> bytes \<Rightarrow> bytes \<Rightarrow> decoded" where
  "decode_Data L l cid encData spare =
     (case lm_get (connMap l) cid of
        None \<Rightarrow> (Inl (Err ''connection not found for DataMessage''), l)
      | Some conn \<Rightarrow>
          (case decryptData L encData spare (isSenderOnInit conn) (epochCryptoRcv conn)
                  (case sharedSecret conn of None \<Rightarrow> [] | Some s \<Rightarrow> s) of
             Inl e \<Rightarrow> (Inl e, l)
           | Inr message \<Rightarrow>
               (Inr (cid, PayloadRaw message, Data),
                put_conn l cid (if currentEpochCrypt message > epochCryptoRcv conn
                                then conn\<lparr>epochCryptoRcv := currentEpochCrypt message\<rparr> else conn))))"

definition Listener_decode :: "crypto_lib \<Rightarrow> prvKey result \<Rightarrow> Listener \<Rightarrow> bytes \<Rightarrow> bytes \<Rightarrow> string \<Rightarrow> decoded" where
  "Listener_decode L gen l encData spare addr =
     (if length encData < MinPacketSize then (Inl (Err ''header needs to be at least 39 bytes''), l)
      else
        let header = encData ! 0 in
        if header AND 0x1F \<noteq> CryptoVersion then (Inl (Err ''unsupported version version''), l)
        else case and_then (slice_to encData spare HeaderSize (ConnIdSize + HeaderSize)) (\<lambda>b. or_panic (Uint64 b)) of
          Inl e \<Rightarrow> (Inl e, l)
        | Inr cid \<Rightarrow>
            (case msg_of_code (drop_bit 5 header) of
               Some InitSnd \<Rightarrow> decode_InitSnd L gen l cid encData spare addr
             | Some InitRcv \<Rightarrow> decode_InitRcv L l cid encData spare
             | Some InitCryptoSnd \<Rightarrow> decode_InitCryptoSnd L gen l cid encData spare addr
             | Some InitCryptoRcv \<Rightarrow> decode_InitCryptoRcv L l cid encData spare
             | Some Data \<Rightarrow> decode_Data L l cid encData spare
             | None \<Rightarrow> (Inl (Err ''unknown message type''), l)))"

section \<open>Receiving\<close>

datatype read_result = ReadTimeout | ReadError string | ReadData bytes string

text \<open>The state of the handshake after a packet.\<close>

definition handshake_after :: "CryptoMsgType \<Rightarrow> Conn \<Rightarrow> Conn" where
  "handshake_after msgType conn =
     (if \<not> isHandshakeDoneOnRcv conn then
        if isSenderOnInit conn then
          (if msgType = InitRcv \<or> msgType = InitCryptoRcv then conn\<lparr>isHandshakeDoneOnRcv := True\<rparr> else conn)
        else (if msgType = Data then conn\<lparr>isHandshakeDoneOnRcv := True\<rparr> else conn)
      else conn)"

text \<open>After the decryption: the payload is decoded and handed to the connection.\<close>

definition listen_decoded :: "Listener \<Rightarrow> u64 \<Rightarrow> bytes \<Rightarrow> CryptoMsgType \<Rightarrow> int \<Rightarrow> u64 \<Rightarrow> (u64 \<times> u32) option result \<times> Listener" where
  "listen_decoded l cid payload msgType n nowNano =
     (case lm_get (connMap l) cid of
        None \<Rightarrow> (Inl (Panic ''nil pointer dereference''), l)
      | Some conn \<Rightarrow>
          let conn = (if nowNano > lastReadTimeNano (measurements conn)
                      then conn\<lparr>measurements := (measurements conn)\<lparr>lastReadTimeNano := nowNano\<rparr>\<rparr> else conn);
              l = put_conn l cid conn
          in case (if length payload = 0 \<and> msgType = InitSnd
                   then Inr (\<lparr>ph_IsClose = False, ph_Ack = None, ph_StreamID = 0, ph_StreamOffset = 0\<rparr>, Some [])
                   else DecodePayload payload) of
               Inl e \<Rightarrow> (Inl e, l)
             | Inr (p, userData) \<Rightarrow>
                 (case Conn_decode conn p userData n nowNano of
                    None \<Rightarrow> (Inl (Panic ''Conn.decode''), l)
                  | Some (_, conn) \<Rightarrow> (Inr (Some (cid, ph_StreamID p)), put_conn l cid (handshake_after msgType conn))))"

text \<open>The read buffer is as long as the MTU; the packet is its head.\<close>

definition Listener_Listen ::
  "crypto_lib \<Rightarrow> prvKey result \<Rightarrow> Listener \<Rightarrow> read_result \<Rightarrow> u64 \<Rightarrow> (u64 \<times> u32) option result \<times> Listener" where
  "Listener_Listen L gen l rd nowNano =
     (if l_mtu l < 0 then (Inl (Panic ''makeslice: len out of range''), l)
      else case rd of
        ReadTimeout \<Rightarrow> (Inr None, l)
      | ReadError e \<Rightarrow> (Inl (Err e), l)
      | ReadData packet addr \<Rightarrow>
          let d = take (nat (l_mtu l)) packet; spare = replicate (nat (l_mtu l) - length d) 0 in
          if length d = 0 then (Inr None, l)
          else case Listener_decode L gen l d spare addr of
            (Inl e, l) \<Rightarrow> (Inl e, l)
          | (Inr (cid, payload, msgType), l) \<Rightarrow> listen_decoded l cid payload msgType (int (length d)) nowNano)"

section \<open>Cleanup\<close>

text \<open>A write through one of the two pointers changes the identifier inside the object.\<close>

definition set_current_stream :: "Listener \<Rightarrow> u64 \<times> u32 \<Rightarrow> u32 \<Rightarrow> Listener" where
  "set_current_stream l at v =
     (let l = l\<lparr>currentStreamID := Some (at, v)\<rparr> in
      case lm_get (connMap l) (fst at) of
        None \<Rightarrow> l
      | Some conn \<Rightarrow>
          (case lm_get (streams conn) (snd at) of
             None \<Rightarrow> l
           | Some s \<Rightarrow> put_conn l (fst at) (conn\<lparr>streams := lm_put (streams conn) (snd at) (s\<lparr>st_streamID := v\<rparr>)\<rparr>)))"

definition set_current_conn :: "Listener \<Rightarrow> u64 \<Rightarrow> u64 \<Rightarrow> Listener" where
  "set_current_conn l at v =
     (let l = l\<lparr>currentConnID := Some (at, v)\<rparr> in
      case lm_get (connMap l) at of None \<Rightarrow> l | Some conn \<Rightarrow> put_conn l at (conn\<lparr>connId := v\<rparr>))"

text \<open>
  The connection is given by its key and its streams map, for it may have left the map of the
  listener already.
\<close>

definition cleanupStream :: "Listener \<Rightarrow> u64 \<Rightarrow> (u32, Stream) linked_map \<Rightarrow> u32 \<Rightarrow> Listener" where
  "cleanupStream l cid strs streamID =
     (let l = (case currentStreamID l of
                 None \<Rightarrow> l
               | Some (at, v) \<Rightarrow> if streamID = v then set_current_stream l at (fst (lm_next strs streamID)) else l)
      in case lm_get (connMap l) cid of
           None \<Rightarrow> l
         | Some conn \<Rightarrow> put_conn l cid (conn\<lparr>streams := lm_remove (streams conn) streamID\<rparr>))"

definition cleanupConn :: "Listener \<Rightarrow> Conn \<Rightarrow> Listener" where
  "cleanupConn l c =
     (let l = (case currentConnID l of
                 None \<Rightarrow> l
               | Some (at, v) \<Rightarrow> if connId c = v then set_current_conn l at (fst (lm_next (connMap l) (connId c))) else l)
      in l\<lparr>connMap := lm_remove (connMap l) (connId c)\<rparr>)"

definition Listener_ForceClose :: "Listener \<Rightarrow> Conn \<Rightarrow> Listener" where
  "Listener_ForceClose l c = cleanupConn l c"

section \<open>Flushing\<close>

text \<open>
  The order of the nested iteration, as pairs of keys. A flush of a connection changes neither
  of the two maps it runs over.
\<close>

fun nested_keys :: "u32 option \<Rightarrow> (u64 \<times> Conn option) list \<Rightarrow> (u64 \<times> u32) list" where
  "nested_keys startKey2 [] = []"
| "nested_keys startKey2 ((cid, None) # rest) = nested_keys None rest"
| "nested_keys startKey2 ((cid, Some conn) # rest) =
     map (\<lambda>e. (cid, fst e)) (lm_iterator (streams conn) startKey2) @ nested_keys None rest"

record flush_state =
  fs_l :: Listener
  fs_minPacing :: u64
  fs_closeConn :: "u64 list"
  fs_closeStream :: "(u64 \<times> u32) list"
  fs_sent :: "(string \<times> bytes) list"

text \<open>One pass of the loop body; the flag says whether the loop goes on.\<close>

definition flush_one ::
  "crypto_lib \<Rightarrow> (u64 \<times> u32 \<Rightarrow> go_error option) \<Rightarrow> u64 \<Rightarrow> flush_state \<Rightarrow> u64 \<times> u32 \<Rightarrow> (flush_state \<times> bool) result" where
  "flush_one L werr nowNano fs at =
     (case lm_get (connMap (fs_l fs)) (fst at) of
        None \<Rightarrow> Inl (Panic ''nil pointer dereference'')
      | Some conn \<Rightarrow>
          (case lm_get (streams conn) (snd at) of
             None \<Rightarrow> Inl (Panic ''nil pointer dereference'')
           | Some stream \<Rightarrow>
               (case Conn_Flush (l_env L (fs_l fs)) conn stream nowNano (werr at) of
                  (r, conn, pkt) \<Rightarrow>
                    let fs = fs\<lparr>fs_l := put_conn (fs_l fs) (fst at) conn,
                               fs_sent := fs_sent fs @ (case pkt of None \<Rightarrow> [] | Some enc \<Rightarrow> [(remoteAddr conn, enc)])\<rparr> in
                    case r of
                      Inl (Panic m) \<Rightarrow> Inl (Panic m)
                    | Inl (Err _) \<Rightarrow> Inr (fs\<lparr>fs_closeConn := fs_closeConn fs @ [fst at]\<rparr>, False)
                    | Inr (dataSent, pacingNano) \<Rightarrow>
                        if st_closedAtNano stream \<noteq> 0 \<and>
                           (isSenderOnInit conn \<or> st_closedAtNano stream + ReadDeadLine > nowNano)
                        then Inr (fs\<lparr>fs_closeStream := al_put (fst at) (st_streamID stream) (fs_closeStream fs)\<rparr>, True)
                        else if dataSent > 0 then
                          Inr (fs\<lparr>fs_minPacing := 0,
                                  fs_l := (fs_l fs)\<lparr>currentConnID := Some (fst at, connId conn),
                                                    currentStreamID := Some (at, st_streamID stream)\<rparr>\<rparr>, False)
                        else if lastReadTimeNano (measurements conn) \<noteq> 0 \<and>
                                nowNano > lastReadTimeNano (measurements conn) + ReadDeadLine
                        then Inr (fs\<lparr>fs_closeConn := fs_closeConn fs @ [fst at]\<rparr>, False)
                        else Inr (if pacingNano < fs_minPacing fs then fs\<lparr>fs_minPacing := pacingNano\<rparr> else fs, True))))"

fun flush_loop ::
  "crypto_lib \<Rightarrow> (u64 \<times> u32 \<Rightarrow> go_error option) \<Rightarrow> u64 \<Rightarrow> flush_state \<Rightarrow> (u64 \<times> u32) list \<Rightarrow> flush_state result" where
  "flush_loop L werr nowNano fs [] = Inr fs"
| "flush_loop L werr nowNano fs (at # rest) =
     and_then (flush_one L werr nowNano fs at) (\<lambda>(fs, goOn).
     if goOn then flush_loop L werr nowNano fs rest else Inr fs)"

text \<open>
  After the loop. The connections are looked up before any is removed; \<open>ord\<close> is the order in
  which the runtime iterates the map of streams to close.
\<close>

definition flush_cleanup :: "((u64 \<times> u32) list \<Rightarrow> (u64 \<times> u32) list) \<Rightarrow> flush_state \<Rightarrow> Listener" where
  "flush_cleanup ord fs =
     (let conns = connMap (fs_l fs);
          l = foldl (\<lambda>l k. case lm_get conns k of None \<Rightarrow> l | Some c \<Rightarrow> cleanupConn l c) (fs_l fs) (fs_closeConn fs);
          l = foldl (\<lambda>l (k, sid). case lm_get conns k of None \<Rightarrow> l | Some c \<Rightarrow> cleanupStream l k (streams c) sid)
                l (ord (fs_closeStream fs))
      in l\<lparr>currentConnID := None, currentStreamID := None\<rparr>)"

definition Listener_Flush ::
  "crypto_lib \<Rightarrow> (u64 \<times> u32 \<Rightarrow> go_error option) \<Rightarrow> ((u64 \<times> u32) list \<Rightarrow> (u64 \<times> u32) list) \<Rightarrow> Listener \<Rightarrow> u64 \<Rightarrow>
   (u64 \<times> Listener \<times> (string \<times> bytes) list) result" where
  "Listener_Flush L werr ord l nowNano =
     (if lm_size (connMap l) = 0 then Inr (MinDeadLine, l, [])
      else
        let order = nested_keys (map_option snd (currentStreamID l))
                      (lm_iterator (connMap l) (map_option snd (currentConnID l)));
            fs = \<lparr>fs_l = l, fs_minPacing = MinDeadLine, fs_closeConn = [], fs_closeStream = [], fs_sent = []\<rparr>
        in and_then (flush_loop L werr nowNano fs order) (\<lambda>fs.
           Inr (fs_minPacing fs, flush_cleanup ord fs, fs_sent fs)))"

section \<open>The loop and the end\<close>

text \<open>The two errors are those of the socket.\<close>

definition Listener_Close :: "go_error option \<Rightarrow> go_error option \<Rightarrow> Listener \<Rightarrow> go_error option \<times> Listener" where
  "Listener_Close wakeErr closeErr l =
     (let l = foldl (\<lambda>l (k, c). put_conn l k (Conn_Close c)) (l\<lparr>l_closed := True\<rparr>) (lm_entries (connMap l)) in
      (if wakeErr \<noteq> None then wakeErr else closeErr, l))"

text \<open>
  What the outside does in one round of the loop: the read, given the time to wait, the key
  generated, the callback, which may use the streams, and the writes.
\<close>

record round =
  rd_read :: "u64 \<Rightarrow> read_result"
  rd_readTime :: u64
  rd_gen :: "prvKey result"
  rd_callback :: "Listener \<Rightarrow> (u64 \<times> u32) option \<Rightarrow> bool result \<times> Listener"
  rd_flushTime :: u64
  rd_werr :: "u64 \<times> u32 \<Rightarrow> go_error option"
  rd_ord :: "(u64 \<times> u32) list \<Rightarrow> (u64 \<times> u32) list"

datatype loop_status = Running u64 | Returned | Crashed string

definition loop_round :: "crypto_lib \<Rightarrow> u64 \<Rightarrow> Listener \<Rightarrow> round \<Rightarrow> loop_status \<times> Listener" where
  "loop_round L waitNextNano l rd =
     (case Listener_Listen L (rd_gen rd) l (rd_read rd waitNextNano) (rd_readTime rd) of
        (Inl (Panic m), l) \<Rightarrow> (Crashed m, l)
      | (Inl (Err _), l) \<Rightarrow> (Returned, l)
      | (Inr s, l) \<Rightarrow>
          (case rd_callback rd l s of
             (Inl (Panic m), l) \<Rightarrow> (Crashed m, l)
           | (Inl (Err _), l) \<Rightarrow> (Returned, l)
           | (Inr cont, l) \<Rightarrow>
               (case Listener_Flush L (rd_werr rd) (rd_ord rd) l (rd_flushTime rd) of
                  Inl e \<Rightarrow> (Crashed (case e of Panic m \<Rightarrow> m | Err m \<Rightarrow> m), l)
                | Inr (wait, l, _) \<Rightarrow> (if cont then Running wait else Returned, l))))"

fun loop_from :: "crypto_lib \<Rightarrow> u64 \<Rightarrow> Listener \<Rightarrow> round list \<Rightarrow> loop_status \<times> Listener" where
  "loop_from L waitNextNano l [] = (Running waitNextNano, l)"
| "loop_from L waitNextNano l (rd # rds) =
     (case loop_round L waitNextNano l rd of
        (Running wait, l) \<Rightarrow> loop_from L wait l rds
      | (status, l) \<Rightarrow> (status, l))"

definition Listener_Loop :: "crypto_lib \<Rightarrow> Listener \<Rightarrow> round list \<Rightarrow> loop_status \<times> Listener" where
  "Listener_Loop L l rds = loop_from L MinDeadLine l rds"

end
