(* ===== verification/Listener_Safety.thy ===== *)
theory Listener_Safety
  imports Listener
begin

text \<open>
  What a single packet can do to the connections of a listener, and what opening a connection
  or a listener gives.
\<close>

section \<open>One packet, one connection\<close>

abbreviation conn_at :: "Listener \<Rightarrow> u64 \<Rightarrow> Conn option" where
  "conn_at l k \<equiv> lm_get (connMap l) k"

lemma conn_at_put [simp]: "conn_at (put_conn l k c) k' = (if k' = k then Some c else conn_at l k')"
  by (simp add: put_conn_def lmc.get_put del: lm_reads)

lemma put_conn_frame [simp]:
  "l_prvKeyId (put_conn l k c) = l_prvKeyId l" "l_mtu (put_conn l k c) = l_mtu l"
  "keyLogWriter (put_conn l k c) = keyLogWriter l" "l_closed (put_conn l k c) = l_closed l"
  "currentConnID (put_conn l k c) = currentConnID l" "currentStreamID (put_conn l k c) = currentStreamID l"
  by (simp_all add: put_conn_def)

text \<open>The identifier in a packet.\<close>

definition packet_connId :: "bytes \<Rightarrow> u64" where
  "packet_connId d = le_word (take 8 (drop 1 d))"

text \<open>Everything but the connection \<open>cid\<close>, and with it the settings, is as before.\<close>

definition only_conn :: "u64 \<Rightarrow> Listener \<Rightarrow> Listener \<Rightarrow> bool" where
  "only_conn cid l l' \<longleftrightarrow> (\<forall>k. k \<noteq> cid \<longrightarrow> conn_at l' k = conn_at l k) \<and>
     l_prvKeyId l' = l_prvKeyId l \<and> l_mtu l' = l_mtu l \<and> l_closed l' = l_closed l \<and>
     currentConnID l' = currentConnID l \<and> currentStreamID l' = currentStreamID l"

lemma only_conn_refl [simp]: "only_conn cid l l"
  by (simp add: only_conn_def)

lemma only_conn_put [simp]: "only_conn cid l l' \<Longrightarrow> only_conn cid l (put_conn l' cid c)"
  by (simp add: only_conn_def del: lm_reads)

lemma newConn_cases:
  assumes "Listener_newConn L l cid addr ep ki ke isS wc = (r, l')"
  shows "(\<exists>e. r = Inl e \<and> l' = l) \<or>
    r = Inr (mk_conn cid addr ep ki ke isS wc) \<and> conn_at l cid = None \<and> only_conn cid l l' \<and>
      conn_at l' cid = Some (mk_conn cid addr ep ki ke isS wc)"
  using assms
  by (auto simp: Listener_newConn_def Let_def and_then_eq_Inr only_conn_def simp del: lm_reads
      split: if_splits option.splits sum.splits)

lemma conn_for_init_cases:
  assumes "conn_for_init L gen l cid addr ki ke wc = (r, l')"
  shows "(\<exists>e. r = Inl e \<and> l' = l) \<or>
    (\<exists>c. r = Inr c \<and> only_conn cid l l' \<and> conn_at l' cid = Some c \<and>
      (conn_at l cid = Some c \<or> conn_at l cid = None \<and> (\<exists>ep. gen = Inr ep \<and> c = mk_conn cid addr ep (Some ki) (Some ke) False wc)))"
proof (cases "conn_at l cid")
  case None
  show ?thesis
  proof (cases gen)
    case (Inr ep)
    obtain r0 l0 where n: "Listener_newConn L l cid addr ep (Some ki) (Some ke) False wc = (r0, l0)" by fastforce
    from newConn_cases[OF this] assms None Inr n show ?thesis
      by (auto simp: conn_for_init_def simp del: lm_reads)
  qed (use assms None in \<open>auto simp: conn_for_init_def simp del: lm_reads\<close>)
qed (use assms in \<open>auto simp: conn_for_init_def simp del: lm_reads\<close>)

text \<open>
  The outcome of a decoding for a packet with identifier \<open>cid\<close>: an error leaves every known
  connection alone, a success hands over to the connection \<open>cid\<close>.
\<close>

definition decode_ok :: "u64 \<Rightarrow> Listener \<Rightarrow> decoded \<Rightarrow> bool" where
  "decode_ok cid l res \<longleftrightarrow> only_conn cid l (snd res) \<and>
     (case fst res of
        Inl e \<Rightarrow> conn_at l cid \<noteq> None \<longrightarrow> conn_at (snd res) cid = conn_at l cid
      | Inr (k, _, _) \<Rightarrow> k = cid \<and> conn_at (snd res) cid \<noteq> None)"

lemma decode_ok_simps [simp]:
  "decode_ok cid l (Inl e, l)"
  "decode_ok cid l (Inr (k, payload, t), put_conn l' cid c) \<longleftrightarrow> k = cid \<and> only_conn cid l (put_conn l' cid c)"
  by (auto simp: decode_ok_def simp del: lm_reads)

lemma decode_kinds_ok:
  "decode_ok cid l (decode_InitRcv L l cid d spare)"
  "decode_ok cid l (decode_InitCryptoRcv L l cid d spare)"
  "decode_ok cid l (decode_Data L l cid d spare)"
  by (auto simp: decode_InitRcv_def decode_InitCryptoRcv_def decode_Data_def simp del: lm_reads
      split: option.splits sum.splits prod.splits)

lemma decode_inits_ok:
  "decode_ok cid l (decode_InitSnd L gen l cid d spare addr)"
  "decode_ok cid l (decode_InitCryptoSnd L gen l cid d spare addr)"
  by (auto simp: decode_InitSnd_def decode_InitCryptoSnd_def Let_def decode_ok_def simp del: lm_reads
      split: option.splits sum.splits prod.splits dest!: conn_for_init_cases)

lemma packet_slice:
  assumes "MinPacketSize \<le> length d"
  shows "and_then (slice_to d spare HeaderSize (ConnIdSize + HeaderSize)) (\<lambda>b. or_panic (Uint64 b)) = Inr (packet_connId d)"
proof -
  have "9 \<le> length d" using assms by (simp add: crypto_consts MinProtoSize_def)
  then have "take 8 (drop 1 (d @ spare)) = take 8 (drop 1 d)" by simp
  with \<open>9 \<le> length d\<close> show ?thesis by (simp add: slice_to_def crypto_consts u64c.get_eq packet_connId_def)
qed

text \<open>The kind of a packet, from its first byte.\<close>

definition packet_kind :: "bytes \<Rightarrow> CryptoMsgType option" where
  "packet_kind d = msg_of_code (drop_bit 5 (d ! 0))"

lemma Listener_decode_by_kind:
  assumes "MinPacketSize \<le> length d" and "d ! 0 AND 0x1F = CryptoVersion"
  shows "Listener_decode L gen l d spare addr =
    (case packet_kind d of
       Some InitSnd \<Rightarrow> decode_InitSnd L gen l (packet_connId d) d spare addr
     | Some InitRcv \<Rightarrow> decode_InitRcv L l (packet_connId d) d spare
     | Some InitCryptoSnd \<Rightarrow> decode_InitCryptoSnd L gen l (packet_connId d) d spare addr
     | Some InitCryptoRcv \<Rightarrow> decode_InitCryptoRcv L l (packet_connId d) d spare
     | Some Data \<Rightarrow> decode_Data L l (packet_connId d) d spare
     | None \<Rightarrow> (Inl (Err ''unknown message type''), l))"
  using assms packet_slice[OF assms(1)] by (simp add: Listener_decode_def packet_kind_def Let_def)

lemma Listener_decode_bad:
  assumes "\<not> (MinPacketSize \<le> length d \<and> d ! 0 AND 0x1F = CryptoVersion)"
  shows "\<exists>e. Listener_decode L gen l d spare addr = (Inl (Err e), l)"
  using assms by (auto simp: Listener_decode_def Let_def)

lemma Listener_decode_ok: "decode_ok (packet_connId d) l (Listener_decode L gen l d spare addr)"
proof (cases "MinPacketSize \<le> length d \<and> d ! 0 AND 0x1F = CryptoVersion")
  case True
  then show ?thesis
    using decode_kinds_ok decode_inits_ok
    by (auto simp: Listener_decode_by_kind split: option.splits CryptoMsgType.splits)
next
  case False
  then obtain e where "Listener_decode L gen l d spare addr = (Inl (Err e), l)" using Listener_decode_bad by blast
  then show ?thesis by simp
qed

text \<open>
  C29: A received packet concerns at most the connection it names: no other connection, no
  setting and neither of the two cursors changes. If the packet is refused, no existing
  connection changes at all, and if it is accepted, the connection it names is in the map.
\<close>
theorem decode_one_connection:
  assumes "Listener_decode L gen l d spare addr = (r, l')"
  shows "only_conn (packet_connId d) l l' \<and>
    (case r of
       Inl e \<Rightarrow> (\<forall>k c. conn_at l k = Some c \<longrightarrow> conn_at l' k = Some c)
     | Inr (k, payload, t) \<Rightarrow> k = packet_connId d \<and> conn_at l' k \<noteq> None)"
proof -
  have ok: "decode_ok (packet_connId d) l (r, l')" using Listener_decode_ok[of d l L gen spare addr] assms by simp
  have "conn_at l' k = Some c" if "r = Inl e" "conn_at l k = Some c" for e k c
    using ok that by (cases "k = packet_connId d") (auto simp: decode_ok_def only_conn_def simp del: lm_reads)
  then show ?thesis using ok by (auto simp: decode_ok_def simp del: lm_reads split: sum.splits)
qed

text \<open>A listener with one established connection.\<close>

definition demo_listener :: Listener where
  "demo_listener =
     \<lparr>l_prvKeyId = replicate 32 3, connMap = lm_put lm_new 5 demo_conn, currentConnID = None, currentStreamID = None,
      l_closed = False, keyLogWriter = None, l_mtu = 1400\<rparr>"

lemma demo_listener_conn: "conn_at demo_listener k = (if k = 5 then Some demo_conn else None)"
  by (simp add: demo_listener_def al_put_def)

lemma le_word_zeros [simp]: "le_word (replicate n 0) = 0"
  by (induction n) simp_all

theorem decode_one_connection_witness:
  "conn_at (snd (Listener_decode demo_lib (Inr []) demo_listener (0x80 # replicate 38 0) [] ''peer'')) 5 = Some demo_conn"
proof -
  obtain r l' where r: "Listener_decode demo_lib (Inr []) demo_listener (0x80 # replicate 38 0) [] ''peer'' = (r, l')" by fastforce
  have "packet_connId (0x80 # replicate 38 0) \<noteq> 5" by (simp add: packet_connId_def)
  with decode_one_connection[OF r] r show ?thesis
    by (simp add: only_conn_def demo_listener_conn del: lm_reads)
qed

section \<open>Data packets\<close>

lemma decryptData_secret: "decryptData L d spare isS e secret = Inr m \<Longrightarrow> length secret = 32"
  by (auto simp: decryptData_def chainedDecrypt_def openNoVerify_def and_then_eq_Inr split: if_splits)

lemma decode_Data_authentic:
  assumes L: "lib_ok L" and min: "MinPacketSize \<le> length d" and dec: "decode_Data L l cid d spare = (r, l')"
  shows "(\<exists>e. r = Inl e \<and> l' = l) \<or>
    (\<exists>c s sn epoch payload. conn_at l cid = Some c \<and> sharedSecret c = Some s \<and>
      chainedEncrypt L sn epoch (\<not> isSenderOnInit c) s (take 9 d) payload = Inr d)"
proof (cases r)
  case (Inr a)
  obtain c m where c: "conn_at l cid = Some c"
    and m: "decryptData L d spare (isSenderOnInit c) (epochCryptoRcv c) (case sharedSecret c of None \<Rightarrow> [] | Some s \<Rightarrow> s) = Inr m"
    using dec Inr by (auto simp: decode_Data_def simp del: lm_reads split: option.splits sum.splits)
  obtain s where s: "sharedSecret c = Some s" "length s = 32"
    using decryptData_secret[OF m] by (cases "sharedSecret c") auto
  have m': "decryptData L d spare (isSenderOnInit c) (epochCryptoRcv c) s = Inr m" using m s by simp
  then show ?thesis using c s(1) conjunct2[OF decryptData_canonical[OF L s(2) min m']] by blast
qed (use dec in \<open>auto simp: decode_Data_def simp del: lm_reads split: option.splits sum.splits\<close>)

text \<open>
  C9: A data packet that changes anything at all is authentic: it names a connection with a
  shared secret, and it is, byte for byte, a packet sealed under that secret for this side.
\<close>
theorem data_packets_authentic:
  assumes "lib_ok L" and "packet_kind d = Some Data" and "int (length d) \<le> l_mtu l"
    and "Listener_Listen L gen l (ReadData d addr) now = (r, l')" and "l' \<noteq> l"
  shows "\<exists>c s sn epoch payload. conn_at l (packet_connId d) = Some c \<and> sharedSecret c = Some s \<and>
    chainedEncrypt L sn epoch (\<not> isSenderOnInit c) s (take 9 d) payload = Inr d"
proof -
  let ?sp = "replicate (nat (l_mtu l) - length d) 0"
  have mtu: "0 \<le> l_mtu l" "take (nat (l_mtu l)) d = d" using assms(3) by auto
  obtain r1 l1 where dec: "Listener_decode L gen l d ?sp addr = (r1, l1)" by fastforce
  have "r1 = Inl e \<Longrightarrow> l1 \<noteq> l" for e
    using assms(4,5) dec mtu by (auto simp: Listener_Listen_def Let_def split: if_splits)
  then have ne: "\<nexists>e. r1 = Inl e \<and> l1 = l" by blast
  then have good: "MinPacketSize \<le> length d \<and> d ! 0 AND 0x1F = CryptoVersion"
    using Listener_decode_bad[of d L gen l ?sp addr] dec by auto
  have "decode_Data L l (packet_connId d) d ?sp = (r1, l1)"
    using Listener_decode_by_kind[of d L gen l ?sp addr] good dec assms(2) by simp
  with decode_Data_authentic[OF assms(1) _ this] good ne show ?thesis by blast
qed

lemma header_byte_fields [simp]:
  "header_byte t AND 0x1F = CryptoVersion" "msg_of_code (drop_bit 5 (header_byte t)) = Some t"
  by (cases t; simp add: header_byte_def CryptoVersion_def msg_of_code_def)+

lemma take_bit_u64 [simp]: "take_bit 64 (w :: u64) = w"
  by (rule bit_word_eqI) (simp add: bit_take_bit_iff)

lemma id_header_fields [simp]:
  "(id_header t cid @ b) ! 0 AND 0x1F = CryptoVersion" "packet_kind (id_header t cid @ b) = Some t"
  "packet_connId (id_header t cid @ b) = cid"
  by (simp_all add: id_header_def packet_kind_def packet_connId_def del: le_bytes_numeral)

text \<open>A packet for the connection of the example, whose payload is then refused.\<close>

definition demo_data_packet :: bytes where
  "demo_data_packet = id_header Data 5 @
     sealed_with demo_lib (replicate 32 7) 3 0 False (id_header Data 5) (replicate 8 9)"

lemma length_demo_data_packet [simp]: "length demo_data_packet = 39"
  using length_sealed_with[OF demo_lib_ok, of "replicate 32 7"] by (simp add: demo_data_packet_def)

lemma demo_data_packet_decodes:
  "decode_Data demo_lib demo_listener 5 demo_data_packet spare = (Inr (5, replicate 8 9, Data), put_conn demo_listener 5 demo_conn)"
proof -
  let ?h = "id_header Data 5" and ?k = "replicate 32 7 :: bytes"
  let ?s = "sealed_with demo_lib ?k 3 0 False ?h (replicate 8 9)"
  have "chainedDecrypt demo_lib (\<not> False) 0 ?k ?h ?s spare = Inr (3, 0, replicate 8 9)"
    by (rule chained_roundtrip[OF demo_lib_ok, where before = "[]" and after = "[1]"]) (simp_all add: epochs_around_def)
  moreover have "length ?s = 30" using length_sealed_with[OF demo_lib_ok, of ?k] by simp
  ultimately have "decryptData demo_lib (?h @ ?s) spare True 0 ?k = Inr (mk_message (3, 0, replicate 8 9))"
    using decryptData_split[of ?h ?s] by simp
  then show ?thesis
    by (simp add: decode_Data_def demo_listener_conn demo_data_packet_def del: lm_reads)
       (simp add: demo_conn_def mk_message_def)
qed

lemma demo_fields:
  "l_mtu demo_listener = 1400" "sharedSecret demo_conn = Some (replicate 32 7)"
  "lastReadTimeNano (measurements demo_conn) = 0" "demo_data_packet \<noteq> []"
  using length_demo_data_packet
  by (simp add: demo_listener_def, simp add: demo_conn_def, simp add: demo_conn_def NewMeasurements_def, force)

theorem data_packets_authentic_witness:
  "\<exists>c s sn epoch payload. conn_at demo_listener 5 = Some c \<and> sharedSecret c = Some s \<and>
    chainedEncrypt demo_lib sn epoch (\<not> isSenderOnInit c) s (take 9 demo_data_packet) payload = Inr demo_data_packet"
proof -
  have min: "MinPacketSize \<le> length demo_data_packet" by (simp add: crypto_consts MinProtoSize_def)
  have f: "packet_connId demo_data_packet = 5" "packet_kind demo_data_packet = Some Data"
    "demo_data_packet ! 0 AND 0x1F = CryptoVersion"
    unfolding demo_data_packet_def by (rule id_header_fields)+
  obtain r l' where l: "Listener_Listen demo_lib (Inr []) demo_listener (ReadData demo_data_packet ''peer'') 7 = (r, l')" by fastforce
  have "Listener_decode demo_lib (Inr []) demo_listener demo_data_packet spare ''peer'' =
      (Inr (5, replicate 8 9, Data), put_conn demo_listener 5 demo_conn)" for spare
    using Listener_decode_by_kind[OF min f(3), of demo_lib "Inr []" demo_listener] f demo_data_packet_decodes by simp
  then have "listen_decoded (put_conn demo_listener 5 demo_conn) 5 (replicate 8 9) Data 39 7 = (r, l')"
    using l by (simp add: Listener_Listen_def demo_fields)
  moreover have "DecodePayload (replicate 8 9) = Inl (Err ''unsupported protocol version'')" by code_simp
  ultimately have "conn_at l' 5 = Some (demo_conn\<lparr>measurements := (measurements demo_conn)\<lparr>lastReadTimeNano := 7\<rparr>\<rparr>)"
    by (auto simp: listen_decoded_def demo_fields simp del: lm_reads)
  then have ne: "l' \<noteq> demo_listener" by (auto simp: demo_listener_conn demo_conn_def NewMeasurements_def simp del: lm_reads)
  have mtu: "int (length demo_data_packet) \<le> l_mtu demo_listener" by (simp add: demo_listener_def)
  show ?thesis using data_packets_authentic[OF demo_lib_ok f(2) mtu l ne] f(1) by simp
qed

section \<open>First packets\<close>

text \<open>
  C31: The first packet of a plain handshake is not authenticated: anyone who sends a packet of
  the size of the MTU with the identifier of an existing connection at the head of the key
  replaces the shared secret of that connection, however far its handshake has got.
\<close>
theorem init_snd_replaces_secret:
  assumes "conn_at l cid = Some c" and "cid = le_word (take 8 pubEp)" and "length pubEp = 32" and "length pubId = 32"
    and "int (length fill) + 65 = l_mtu l" and "ECDH L (prvKeyEpSnd c) pubEp = Inr secret"
  shows "Listener_decode L gen l (header_byte InitSnd # pubEp @ pubId @ fill) spare addr =
    (Inr (cid, [], InitSnd), put_conn l cid (c\<lparr>sharedSecret := Some secret\<rparr>))"
proof -
  let ?d = "header_byte InitSnd # pubEp @ pubId @ fill"
  have min: "MinPacketSize \<le> length ?d" using assms(3,4) by (simp add: crypto_consts MinProtoSize_def)
  have f: "packet_connId ?d = cid" "packet_kind ?d = Some InitSnd" "?d ! 0 AND 0x1F = CryptoVersion"
    using assms(2,3) by (simp_all add: packet_connId_def packet_kind_def)
  have "Listener_decode L gen l ?d spare addr = decode_InitSnd L gen l cid ?d spare addr"
    using Listener_decode_by_kind[OF min f(3), of L gen l] f by simp
  then show ?thesis
    using decryptInitSnd_split[of pubEp pubId "l_mtu l" fill "header_byte InitSnd" spare] assms
    by (simp add: decode_InitSnd_def conn_for_init_def del: lm_reads)
qed

theorem init_snd_replaces_secret_witness:
  "conn_at (snd (Listener_decode demo_lib (Inr []) demo_listener
     (header_byte InitSnd # (le_bytes 8 (5 :: u64) @ replicate 24 1) @ replicate 32 0 @ replicate 1335 0) [] ''attacker'')) 5 \<noteq> Some demo_conn"
proof -
  let ?pk = "le_bytes 8 (5 :: u64) @ replicate 24 1"
  let ?s = "x25519 demo_lib (prvKeyEpSnd demo_conn) ?pk"
  have len: "length (le_bytes 8 (5 :: u64)) = 8" by simp
  have "?s ! 31 = 3"
    by (simp add: demo_lib_def demo_conn_def pad32_def nth_append len del: le_bytes_numeral)
  then have s: "ECDH demo_lib (prvKeyEpSnd demo_conn) ?pk = Inr ?s" "?s \<noteq> replicate 32 7"
    by (auto simp: ECDH_def Let_def)
  have a: "conn_at demo_listener 5 = Some demo_conn" by (simp add: demo_listener_conn del: lm_reads)
  have b: "(5 :: u64) = le_word (take 8 ?pk)" by (simp del: le_bytes_numeral)
  have "demo_conn\<lparr>sharedSecret := Some ?s\<rparr> \<noteq> demo_conn"
  proof
    assume "demo_conn\<lparr>sharedSecret := Some ?s\<rparr> = demo_conn"
    from arg_cong[OF this, of sharedSecret] s(2) show False by (simp add: demo_fields del: le_bytes_numeral)
  qed
  with init_snd_replaces_secret[OF a b _ _ _ s(1), of "replicate 32 0" "replicate 1335 0" "Inr []" "[]" "''attacker''"]
  show ?thesis by (simp add: demo_fields del: le_bytes_numeral lm_reads)
qed

section \<open>Opening\<close>

text \<open>
  C30: Dialing uses the head of the new public key as the identifier of the connection. It
  refuses an identifier in use, and otherwise adds a fresh connection that will start the
  handshake; but with a key log it panics, for the key of the peer is not known yet.
\<close>
theorem dial_outcome:
  assumes "lib_ok L" and "cid = le_word (take 8 (ecdh_PublicKey L k))"
  shows "Listener_Dial L (Inr k) l addr =
      (if conn_at l cid \<noteq> None then (Inl (Err ''conn already exists''), l)
       else if keyLogWriter l \<noteq> None then (Inl (Panic ''nil pointer dereference''), l)
       else (Inr (mk_conn cid addr k None None True False), put_conn l cid (mk_conn cid addr k None None True False))) \<and>
    Listener_DialWithCrypto L (Inr k) l addr (Some pubId) =
      (if conn_at l cid \<noteq> None then (Inl (Err ''conn already exists''), l)
       else if keyLogWriter l \<noteq> None then (Inl (Panic ''nil pointer dereference''), l)
       else (Inr (mk_conn cid addr k (Some pubId) None True True),
             put_conn l cid (mk_conn cid addr k (Some pubId) None True True)))"
proof -
  have "8 \<le> length (ecdh_PublicKey L k)" using length_PublicKey[OF assms(1), of k] by simp
  then have "Uint64 (ecdh_PublicKey L k) = Some cid" using assms(2) by (simp add: u64c.get_eq)
  then show ?thesis
    by (auto simp: Listener_Dial_def Listener_DialWithCrypto_def dial_with_def Listener_newConn_def ECDH_ptr_def Let_def
        simp del: lm_reads split: option.splits)
qed

theorem dial_outcome_witness:
  "Listener_Dial demo_lib (Inr (replicate 32 1)) (demo_listener\<lparr>keyLogWriter := Some []\<rparr>) ''peer'' =
     (Inl (Panic ''nil pointer dereference''), demo_listener\<lparr>keyLogWriter := Some []\<rparr>) \<and>
   fst (Listener_Dial demo_lib (Inr (replicate 32 1)) demo_listener ''peer'') =
     Inr (mk_conn 0x010101010101010A ''peer'' (replicate 32 1) None None True False)"
proof -
  have pk: "take 8 (ecdh_PublicKey demo_lib (replicate 32 1)) = [10, 1, 1, 1, 1, 1, 1, 1]" by code_simp
  have cid: "le_word [10, 1, 1, 1, 1, 1, 1, 1 :: u8] = (0x010101010101010A :: u64)" by simp
  show ?thesis
    using dial_outcome[OF demo_lib_ok refl, of "replicate 32 1" demo_listener "''peer''" "[]"]
      dial_outcome[OF demo_lib_ok refl, of "replicate 32 1" "demo_listener\<lparr>keyLogWriter := Some []\<rparr>" "''peer''" "[]"]
    unfolding pk cid by (simp add: demo_listener_def al_put_def)
qed

lemma WithSeedStrHex_fails: "WithSeedStrHex s opt \<noteq> Inr opt'"
  by (auto simp: WithSeedStrHex_def split: prod.splits option.splits)

lemma apply_options_fails:
  assumes "opt \<in> set options" and "\<And>o1 o2. opt o1 \<noteq> Inr o2"
  shows "apply_options lOpts options \<noteq> Inr lOpts'"
  using assms by (induction options arbitrary: lOpts) (auto simp: and_then_eq_Inr)

text \<open>
  No listener is ever opened with the option for a hexadecimal seed: a seed that is not 32
  bytes is an error, and a correct one is written through a nil pointer.
\<close>
theorem seed_hex_unusable:
  "(WithSeedStrHex s \<in> set options \<longrightarrow> Listen gen listenUDP options \<noteq> Inr l) \<and>
   (length k = 32 \<longrightarrow> o_seed opt = None \<longrightarrow> WithSeedStrHex (hex_bytes k) opt = Inl (Panic ''nil pointer dereference''))"
proof (intro conjI impI)
  assume "WithSeedStrHex s \<in> set options"
  from apply_options_fails[OF this WithSeedStrHex_fails] show "Listen gen listenUDP options \<noteq> Inr l"
    by (simp add: Listen_def fillListenOpts_def and_then_eq_Inr)
next
  assume "length k = 32" "o_seed opt = None"
  then show "WithSeedStrHex (hex_bytes k) opt = Inl (Panic ''nil pointer dereference'')"
    by (simp add: WithSeedStrHex_def decodeHex_def hex_bytes_no_prefix hex_DecodeString_hex_bytes)
qed

theorem seed_hex_unusable_witness:
  "Listen (Inr (replicate 32 1)) (\<lambda>_. Inr ''0.0.0.0:8881'') [WithMtu 1400, WithSeedStrHex (hex_bytes (replicate 32 7))] \<noteq> Inr demo_listener"
  using seed_hex_unusable[of "hex_bytes (replicate 32 7)" "[WithMtu 1400, WithSeedStrHex (hex_bytes (replicate 32 7))]"] by simp

end
