(* ===== verification/Listener_Cleanup.thy ===== *)
theory Listener_Cleanup
  imports Listener_Safety
begin

text \<open>
  What the cleanup after a flush does to the streams.
\<close>

lemma set_current_stream_conn:
  assumes "conn_at l (fst at) = Some c" and "lm_get (streams c) (snd at) = Some s"
  shows "conn_at (set_current_stream l at v) k =
    (if k = fst at then Some (c\<lparr>streams := lm_put (streams c) (snd at) (s\<lparr>st_streamID := v\<rparr>)\<rparr>) else conn_at l k)"
  using assms by (simp add: set_current_stream_def Let_def del: lm_reads)

text \<open>
  C32: A flush that ends with data sent on one connection, after it has marked a closed stream of
  another connection with the same stream number for removal, changes the number of the stream
  it has just sent on: it becomes that of the next stream of the other connection. The cursor
  that is moved on is a pointer into that stream.
\<close>
theorem cleanup_renames_stream:
  assumes "currentStreamID (fs_l fs) = Some ((b, k), sid)" and "fs_closeConn fs = []"
    and "fs_closeStream fs = [(a, sid)]" and "a \<noteq> b" and "ord [(a, sid)] = [(a, sid)]"
    and "conn_at (fs_l fs) a = Some ca" and "conn_at (fs_l fs) b = Some cb" and "lm_get (streams cb) k = Some s"
  shows "\<exists>cb'. conn_at (flush_cleanup ord fs) b = Some cb' \<and>
    lm_get (streams cb') k = Some (s\<lparr>st_streamID := fst (lm_next (streams ca) sid)\<rparr>)"
proof -
  let ?l = "set_current_stream (fs_l fs) (b, k) (fst (lm_next (streams ca) sid))"
  let ?cb = "cb\<lparr>streams := lm_put (streams cb) k (s\<lparr>st_streamID := fst (lm_next (streams ca) sid)\<rparr>)\<rparr>"
  have at: "conn_at ?l j = (if j = b then Some ?cb else conn_at (fs_l fs) j)" for j
    using set_current_stream_conn[of "fs_l fs" "(b, k)" cb s] assms(7,8) by simp
  have "flush_cleanup ord fs = (cleanupStream (fs_l fs) a (streams ca) sid)\<lparr>currentConnID := None, currentStreamID := None\<rparr>"
    using assms(2,3,5,6) by (simp add: flush_cleanup_def Let_def del: lm_reads)
  moreover have "conn_at (cleanupStream (fs_l fs) a (streams ca) sid) b = Some ?cb"
    using assms(1,4,6) at by (simp add: cleanupStream_def Let_def del: lm_reads)
  ultimately show ?thesis by (simp add: lmc.get_put del: lm_reads)
qed

text \<open>
  The instance is a whole flush: the first connection has a closed stream 1 and a stream 3, the
  second has three bytes queued on its stream 1, which is stream 3 afterwards.
\<close>

definition demo_closed_stream :: Conn where
  "demo_closed_stream = demo_conn\<lparr>connId := 4,
     streams := lm_put (lm_put lm_new 1 \<lparr>st_streamID = 1, st_closedAtNano = 9\<rparr>) 3 \<lparr>st_streamID = 3, st_closedAtNano = 0\<rparr>,
     c_snd := NewSendBuffer 100, c_rcv := NewReceiveBuffer 100\<rparr>"

definition demo_two :: Listener where
  "demo_two = demo_listener\<lparr>connMap := lm_put (lm_put lm_new 4 demo_closed_stream) 5 demo_conn\<rparr>"

lemma demo_quiet_flush:
  "Conn_Flush demo_env demo_closed_stream s 50 None = (Inr (0, MinDeadLine), demo_closed_stream, None)"
  by (simp add: Conn_Flush_def demo_closed_stream_def demo_conn_def demo_env_def ReceiveBuffer_GetSndAck_def NewReceiveBuffer_def
      ReceiveBuffer_Size_def flush_new_def Conn_msgType_def go_int_def SendBuffer_ReadyToRetransmit_def SendBuffer_ReadyToSend_def
      NewSendBuffer_def Let_def)

lemma demo_data_flush:
  "\<exists>pacing c' pkt. Conn_Flush demo_env demo_conn demo_stream1 50 None = (Inr (3, pacing), c', Some pkt) \<and> streams c' = streams demo_conn \<and>
     connId c' = 5"
proof -
  have "encryptData demo_lib 5 True (Some (replicate 32 7)) 8 0 (payloadBytes p (Some [7, 8, 9])) =
      Inr (id_header Data 5 @ sealed_with demo_lib (replicate 32 7) 8 0 True (id_header Data 5) (payloadBytes p (Some [7, 8, 9])))" for p
    by (rule encryptData_eq[OF demo_lib_ok]) (simp_all add: payloadBytes_def streamBytes_def isAckOnly_def del: le_bytes_numeral)
  then show ?thesis
    by (simp add: Conn_Flush_def demo_conn_def demo_env_def demo_half_def ReceiveBuffer_GetSndAck_def ReceiveBuffer_Size_def
        flush_new_def Conn_msgType_def Conn_sendPacket_def Conn_encode_def encrypt_packet_def encode_payload_def EncodePayload_eq
        next_sn_def write_packet_def go_int_def calcPacing_def NewMeasurements_def demo_queued_def demo_stream_def
        SendBuffer_ReadyToRetransmit_def SendBuffer_ReadyToSend_def entry_result_def maxData_def calcCryptoOverheadWithData_def
        calcProtoOverhead_def crypto_consts meas_consts Let_def)
qed

lemma demo_two_conns:
  "conn_at demo_two k = (if k = 5 then Some demo_conn else if k = 4 then Some demo_closed_stream else None)"
  "l_env demo_lib demo_two = demo_env"
  "lm_get (streams demo_closed_stream) 1 = Some \<lparr>st_streamID = 1, st_closedAtNano = 9\<rparr>"
  "lm_get (streams demo_closed_stream) 3 = Some \<lparr>st_streamID = 3, st_closedAtNano = 0\<rparr>"
  "fst (lm_next (streams demo_closed_stream) 1) = 3"
  "lm_get (streams demo_conn) 1 = Some demo_stream1"
  "isSenderOnInit demo_closed_stream" "lastReadTimeNano (measurements demo_closed_stream) = 0"
  by (simp_all add: demo_two_def demo_listener_def demo_closed_stream_def demo_conn_def demo_env_def l_env_def al_put_def
      entry_result_def NewMeasurements_def)

lemma demo_two_cursor: "lm_size (connMap demo_two) = 2" "currentConnID demo_two = None" "currentStreamID demo_two = None"
  by (simp_all add: demo_two_def demo_listener_def al_put_def)

lemma l_env_put [simp]: "l_env L (put_conn l k c) = l_env L l"
  by (simp add: l_env_def)

theorem cleanup_renames_stream_witness:
  "\<exists>wait l' sent c. Listener_Flush demo_lib (\<lambda>_. None) (\<lambda>x. x) demo_two 50 = Inr (wait, l', sent) \<and>
     conn_at l' 5 = Some c \<and> lm_get (streams c) 1 = Some \<lparr>st_streamID = 3, st_closedAtNano = 0\<rparr>"
proof -
  obtain pacing c' pkt where f: "Conn_Flush demo_env demo_conn demo_stream1 50 None = (Inr (3, pacing), c', Some pkt)"
    and c': "streams c' = streams demo_conn" "connId c' = 5"
    using demo_data_flush by blast
  let ?l = "put_conn (put_conn demo_two 4 demo_closed_stream) 4 demo_closed_stream"
  let ?fs = "\<lparr>fs_l = put_conn ?l 5 c'\<lparr>currentConnID := Some (5, 5), currentStreamID := Some ((5, 1), 1)\<rparr>,
    fs_minPacing = 0, fs_closeConn = [], fs_closeStream = [(4, 1)], fs_sent = [(remoteAddr c', pkt)]\<rparr>"
  have "nested_keys None (lm_iterator (connMap demo_two) None) = [(4, 1), (4, 3), (5, 1)]"
    by (simp add: demo_two_def demo_listener_def demo_closed_stream_def demo_conn_def al_put_def al_iterate_def)
  moreover have "flush_loop demo_lib (\<lambda>_. None) 50 \<lparr>fs_l = demo_two, fs_minPacing = MinDeadLine, fs_closeConn = [], fs_closeStream = [], fs_sent = []\<rparr>
      [(4, 1), (4, 3), (5, 1)] = Inr ?fs"
    using f c' by (simp add: flush_one_def demo_two_conns demo_quiet_flush al_put_def Let_def del: lm_reads)
  ultimately have "Listener_Flush demo_lib (\<lambda>_. None) (\<lambda>x. x) demo_two 50 = Inr (0, flush_cleanup (\<lambda>x. x) ?fs, [(remoteAddr c', pkt)])"
    using demo_two_cursor by (simp add: Listener_Flush_def del: lm_reads flush_loop.simps)
  moreover have "\<exists>c. conn_at (flush_cleanup (\<lambda>x. x) ?fs) 5 = Some c \<and> lm_get (streams c) 1 = Some \<lparr>st_streamID = 3, st_closedAtNano = 0\<rparr>"
    using cleanup_renames_stream[of ?fs 5 1 1 4 "\<lambda>x. x" demo_closed_stream c' demo_stream1]
    by (simp add: c' demo_two_conns del: lm_reads)
  ultimately show ?thesis by blast
qed

end
