(* ===== verification/Conn_Inv.thy ===== *)
theory Conn_Inv
  imports Conn
begin

text \<open>
  The invariant of a connection: the packet counters stay in their bits, the send buffer is in
  a state its own operations reach, the measurements are in their bounds, and the keys that
  the next packet needs are there. Every operation of a connection keeps it, and a flush of a
  connection in this state does not panic.
\<close>

section \<open>No panic\<close>

definition no_panic :: "'a result \<Rightarrow> bool" where
  "no_panic r \<longleftrightarrow> (\<forall>m. r \<noteq> Inl (Panic m))"

lemma no_panic_simps [simp]: "no_panic (Inr x)" "no_panic (Inl e) \<longleftrightarrow> (\<forall>m. e \<noteq> Panic m)"
  by (simp_all add: no_panic_def)

lemma no_panic_and_then: "no_panic r \<Longrightarrow> (\<And>x. r = Inr x \<Longrightarrow> no_panic (f x)) \<Longrightarrow> no_panic (and_then r f)"
  by (cases r) (auto simp: no_panic_def)

lemma no_panic_ECDH: "no_panic (ECDH L k p)"
  by (simp add: ECDH_def Let_def)

lemma no_panic_make_bytes: "0 \<le> n \<Longrightarrow> no_panic (make_bytes n)"
  by (simp add: make_bytes_def)

lemma no_panic_copy_at: "off \<le> length b \<Longrightarrow> no_panic (copy_at b off src)"
  by (simp add: copy_at_def at_slice_def split: prod.splits)

lemma no_panic_put_byte: "off < length b \<Longrightarrow> no_panic (put_at b off (put_byte x))"
  by (cases "drop off b") (auto simp: put_at_def at_slice_def put_byte_def)

lemma no_panic_put_uint64: "off + 8 \<le> length b \<Longrightarrow> no_panic (put_at b off (\<lambda>t. PutUint64 t v))"
  by (simp add: put_at_def at_slice_def u64c.put_eq del: le_bytes_numeral)

lemma no_panic_put_uint16: "off + 2 \<le> length b \<Longrightarrow> no_panic (put_at b off (\<lambda>t. PutUint16 t v))"
  by (simp add: put_at_def at_slice_def u16c.put_eq del: le_bytes_numeral)

lemma no_panic_slice_from: "i \<le> length b \<Longrightarrow> no_panic (slice_from b i)"
  by (simp add: slice_from_def)

lemma no_panic_uint64: "8 \<le> length b \<Longrightarrow> no_panic (or_panic (Uint64 b))"
  by (simp add: u64c.get_eq)

lemma no_panic_chainedEncrypt:
  assumes L: "lib_ok L" and d: "8 \<le> length d"
  shows "no_panic (chainedEncrypt L sn epoch isSender secret header d)"
proof (cases "length secret = 32")
  case True
  then show ?thesis using chainedEncrypt_eq[OF L True d] by simp
next
  case False
  then show ?thesis by (simp add: chainedEncrypt_def nonceDet_eq chacha_New_def)
qed

lemmas no_panic_intros = no_panic_and_then no_panic_ECDH no_panic_make_bytes no_panic_copy_at no_panic_put_byte
  no_panic_put_uint64 no_panic_put_uint16 no_panic_slice_from no_panic_uint64 no_panic_chainedEncrypt

lemma make_bytes_length: "make_bytes n = Inr b \<Longrightarrow> int (length b) = n"
  by (auto simp: make_bytes_def split: if_splits)

lemma slice_from_length: "slice_from b i = Inr t \<Longrightarrow> length t = length b - i"
  by (auto simp: slice_from_def split: if_splits)

lemmas made_length = make_bytes_length written_length slice_from_length

lemma encryptInitSnd_no_panic: "65 \<le> mtu \<Longrightarrow> no_panic (encryptInitSnd (Some ki) (Some ke) mtu)"
  by (auto simp: encryptInitSnd_def nil_key_def crypto_consts intro!: no_panic_intros dest!: made_length)

lemma encryptData_no_panic:
  "lib_ok L \<Longrightarrow> 8 \<le> length d \<Longrightarrow> no_panic (encryptData L cid isS (Some secret) sn epoch d)"
  by (auto simp: encryptData_def crypto_consts intro!: no_panic_intros dest!: made_length)

lemma encryptInitRcv_no_panic:
  "lib_ok L \<Longrightarrow> 8 \<le> length d \<Longrightarrow> no_panic (encryptInitRcv L cid (Some ki) (Some ke) (Some k) sn d)"
  by (auto simp: encryptInitRcv_def nil_key_def crypto_consts intro!: no_panic_intros dest!: made_length)

lemma encryptInitCryptoRcv_no_panic:
  "lib_ok L \<Longrightarrow> 8 \<le> length d \<Longrightarrow> no_panic (encryptInitCryptoRcv L cid (Some ke) (Some k) sn d)"
  by (auto simp: encryptInitCryptoRcv_def nil_key_def crypto_consts intro!: no_panic_intros dest!: made_length)

lemma encryptInitCryptoSnd_no_panic:
  "lib_ok L \<Longrightarrow> 8 \<le> length d \<Longrightarrow> no_panic (encryptInitCryptoSnd L (Some kr) (Some ki) (Some k) sn mtu d)"
  by (auto simp: encryptInitCryptoSnd_def nil_key_def crypto_consts Let_def intro!: no_panic_intros dest!: made_length)

lemma payload_min: "8 \<le> length (payloadBytes p d)"
  by (auto simp: payloadBytes_def ackBytes_def streamBytes_def isAckOnly_def offsetSize_def simp del: le_bytes_numeral
      split: option.splits)

lemma encode_payload_eq: "encode_payload p d = Inr (payloadBytes p d)"
  by (simp add: encode_payload_def EncodePayload_eq)

section \<open>The keys\<close>

text \<open>The keys the current packet kind needs.\<close>

definition keys_ok :: "Conn \<Rightarrow> bool" where
  "keys_ok c \<longleftrightarrow> (isSenderOnInit c \<or> pubKeyEpRcv c \<noteq> None) \<and>
     (isSenderOnInit c \<and> isWithCryptoOnInit c \<longrightarrow> pubKeyIdRcv c \<noteq> None) \<and>
     (isHandshakeDoneOnRcv c \<longrightarrow> sharedSecret c \<noteq> None)"

lemma encrypt_packet_no_panic:
  assumes "lib_ok (env_lib env)" and "65 \<le> env_mtu env" and "keys_ok c"
  shows "no_panic (encrypt_packet env c p d (Conn_msgType c))"
proof -
  note np = encryptInitSnd_no_panic encryptData_no_panic[OF assms(1) payload_min] encryptInitRcv_no_panic[OF assms(1) payload_min]
    encryptInitCryptoRcv_no_panic[OF assms(1) payload_min] encryptInitCryptoSnd_no_panic[OF assms(1) payload_min]
  show ?thesis
    using assms(2,3)
    by (auto simp: encrypt_packet_def Conn_msgType_def keys_ok_def encode_payload_eq Let_def
        intro!: no_panic_and_then np)
qed

section \<open>The send buffer\<close>

definition snd_buffer_ok :: "SendBuffer \<Rightarrow> bool" where
  "snd_buffer_ok sb \<longleftrightarrow> (\<exists>cap y. snd_reachable cap y \<and> sys_buf y = sb)"

lemma snd_buffer_step:
  assumes "snd_reachable cap y" and "snd_ok y e" and "snd_step y e = Some y'"
  shows "snd_buffer_ok (sys_buf y')"
  using assms reachable_step[of _ "guarded snd_ok snd_step" y e y']
  unfolding snd_buffer_ok_def snd_reachable_def guarded_def by (metis (no_types, lifting))

lemma snd_buffer_new: "0 \<le> cap \<Longrightarrow> snd_buffer_ok (NewSendBuffer cap)"
  using reachable_init[of "snd_init (int (nat cap))"]
  unfolding snd_buffer_ok_def snd_reachable_def by (metis int_nat_eq snd_init_def snd_sys.select_convs(1))

lemma snd_buffer_streams_ok: "snd_buffer_ok sb \<Longrightarrow> snd_streams_ok sb"
  by (auto simp: snd_buffer_ok_def intro: snd_streams_ok_reachable)

lemma snd_buffer_ops:
  assumes "snd_buffer_ok sb"
  shows "snd_buffer_ok (SendBuffer_QueuePing sb sid)" "snd_buffer_ok (SendBuffer_Close sb sid)"
    "snd_buffer_ok (snd (SendBuffer_AcknowledgeRange sb a))"
    "mtu_ok t mtu \<Longrightarrow> snd_buffer_ok (snd (SendBuffer_ReadyToSend sb sid t ack mtu now))"
proof -
  obtain cap y where y: "snd_reachable cap y" "sys_buf y = sb" using assms by (auto simp: snd_buffer_ok_def)
  show "snd_buffer_ok (SendBuffer_QueuePing sb sid)" "snd_buffer_ok (SendBuffer_Close sb sid)"
    "mtu_ok t mtu \<Longrightarrow> snd_buffer_ok (snd (SendBuffer_ReadyToSend sb sid t ack mtu now))"
    using snd_buffer_step[OF y(1), of "Ping_ev sid"] snd_buffer_step[OF y(1), of "Close_ev sid"]
      snd_buffer_step[OF y(1), of "Send_ev sid t ack mtu now"] y(2) by simp_all
  show "snd_buffer_ok (snd (SendBuffer_AcknowledgeRange sb a))"
    using snd_buffer_step[OF y(1), of "Ack_ev a"] y(2)
    by (cases "SendBuffer_AcknowledgeRange sb a") (auto split: prod.splits)
qed

lemma snd_buffer_retransmit:
  assumes "snd_buffer_ok sb" and "mtu_ok t mtu"
  shows "no_panic (SendBuffer_ReadyToRetransmit sb sid ack mtu rto t now) \<and>
    (\<forall>x sb'. SendBuffer_ReadyToRetransmit sb sid ack mtu rto t now = Inr (x, sb') \<longrightarrow> snd_buffer_ok sb')"
proof -
  obtain cap y where y: "snd_reachable cap y" "sys_buf y = sb" using assms(1) by (auto simp: snd_buffer_ok_def)
  let ?e = "Retransmit_ev sid ack mtu rto t now"
  obtain y' where y': "snd_step y ?e = Some y'" using snd_inv_step[OF snd_reachable_inv[OF y(1)], of ?e] assms(2) by auto
  have "snd_buffer_ok (sys_buf y')" by (rule snd_buffer_step[OF y(1) _ y']) (simp add: assms(2))
  then show ?thesis using y' y(2) by (auto simp: no_panic_def split: sum.splits go_error.splits prod.splits)
qed

text \<open>The bytes a stream has accepted so far.\<close>

definition stream_total :: "SendBuffer \<Rightarrow> u32 \<Rightarrow> nat" where
  "stream_total sb sid =
     (let st = snd_getOrCreateStream sb sid in unat (bytesSentOffset st) + length (queuedData st))"

lemma stream_total_written: "snd_reachable cap y \<Longrightarrow> stream_total (sys_buf y) sid = length (sys_written y sid)"
  using stream_inv_stream[OF snd_reachable_inv, of cap y sid] by (auto simp: stream_total_def stream_inv_def flight_inv_def Let_def)

lemma snd_buffer_queue:
  assumes "snd_buffer_ok sb" and "stream_total sb sid + length d < 2 ^ 48"
  shows "\<exists>r sb'. SendBuffer_QueueData sb sid d = Some (r, sb') \<and> snd_buffer_ok sb'"
proof -
  obtain cap y where y: "snd_reachable cap y" "sys_buf y = sb" using assms(1) by (auto simp: snd_buffer_ok_def)
  have ok: "snd_ok y (Queue_ev sid d)" using assms(2) stream_total_written[OF y(1)] y(2) by simp
  obtain y' where y': "snd_step y (Queue_ev sid d) = Some y'" using snd_inv_step[OF snd_reachable_inv[OF y(1)] ok] by blast
  from snd_buffer_step[OF y(1) ok y'] y' y(2) show ?thesis by (auto split: option.splits)
qed

section \<open>The invariant\<close>

definition conn_inv :: "Conn \<Rightarrow> bool" where
  "conn_inv c \<longleftrightarrow> sn_inv c \<and> snd_buffer_ok (c_snd c) \<and> meas_inv (measurements c) \<and> keys_ok c"

text \<open>What identifies a connection: packets and flushes do not change it.\<close>

definition conn_ident :: "Conn \<Rightarrow> u64 \<times> string \<times> prvKey \<times> pubKey option \<times> pubKey option \<times> bytes option \<times> bool \<times> bool \<times> bool" where
  "conn_ident c = (connId c, remoteAddr c, prvKeyEpSnd c, pubKeyEpRcv c, pubKeyIdRcv c, sharedSecret c,
     isSenderOnInit c, isWithCryptoOnInit c, isHandshakeDoneOnRcv c)"

lemma conn_ident_frame [simp]:
  "conn_ident (c\<lparr>c_snd := sb\<rparr>) = conn_ident c" "conn_ident (c\<lparr>c_rcv := rb\<rparr>) = conn_ident c"
  "conn_ident (c\<lparr>dataInFlight := i\<rparr>) = conn_ident c" "conn_ident (c\<lparr>rcvWndSize := w\<rparr>) = conn_ident c"
  "conn_ident (c\<lparr>nextWriteTime := t\<rparr>) = conn_ident c" "conn_ident (c\<lparr>streams := strs\<rparr>) = conn_ident c"
  "conn_ident (c\<lparr>isInitSentOnSnd := b\<rparr>) = conn_ident c" "conn_ident (c\<lparr>epochCryptoRcv := e\<rparr>) = conn_ident c"
  "conn_ident (c\<lparr>measurements := m\<rparr>) = conn_ident c" "conn_ident (c\<lparr>snCrypto := sn\<rparr>) = conn_ident c"
  "conn_ident (c\<lparr>epochCryptoSnd := e\<rparr>) = conn_ident c"
  by (simp_all add: conn_ident_def)

lemma keys_ok_ident: "conn_ident c = conn_ident c' \<Longrightarrow> keys_ok c = keys_ok c'"
  by (simp add: conn_ident_def keys_ok_def)

lemma conn_inv_frame [simp]:
  "conn_inv (c\<lparr>c_rcv := rb\<rparr>) = conn_inv c" "conn_inv (c\<lparr>dataInFlight := i\<rparr>) = conn_inv c"
  "conn_inv (c\<lparr>rcvWndSize := w\<rparr>) = conn_inv c" "conn_inv (c\<lparr>nextWriteTime := t\<rparr>) = conn_inv c"
  "conn_inv (c\<lparr>streams := strs\<rparr>) = conn_inv c" "conn_inv (c\<lparr>isInitSentOnSnd := b\<rparr>) = conn_inv c"
  "conn_inv (c\<lparr>epochCryptoRcv := e\<rparr>) = conn_inv c"
  by (simp_all add: conn_inv_def sn_inv_def keys_ok_def)

lemma conn_inv_snd: "conn_inv c \<Longrightarrow> snd_buffer_ok sb \<Longrightarrow> conn_inv (c\<lparr>c_snd := sb\<rparr>)"
  by (simp add: conn_inv_def keys_ok_def)

lemma conn_inv_meas: "conn_inv c \<Longrightarrow> meas_inv m \<Longrightarrow> conn_inv (c\<lparr>measurements := m\<rparr>)"
  by (simp add: conn_inv_def keys_ok_def)

lemma conn_invD: "conn_inv c \<Longrightarrow> snd_buffer_ok (c_snd c)" "conn_inv c \<Longrightarrow> meas_inv (measurements c)" "conn_inv c \<Longrightarrow> keys_ok c"
  "conn_inv c \<Longrightarrow> sn_inv c"
  by (simp_all add: conn_inv_def)

subsection \<open>Receiving\<close>

lemma Conn_Stream_inv: "Conn_Stream c sid = (s, c') \<Longrightarrow> conn_inv c' = conn_inv c \<and> conn_ident c' = conn_ident c"
  by (auto simp: Conn_Stream_def Let_def simp del: lm_reads split: option.splits)

lemma put_stream_inv [simp]: "conn_inv (put_stream c k s) = conn_inv c" "conn_ident (put_stream c k s) = conn_ident c"
  by (simp_all add: put_stream_def del: lm_reads)

lemma put_stream_fields [simp]: "measurements (put_stream c k s) = measurements c" "c_snd (put_stream c k s) = c_snd c"
  by (simp_all add: put_stream_def del: lm_reads)

lemma decode_ack_inv:
  assumes inv: "conn_inv c" and d: "decode_ack c k s ack rawLen now = Some c'"
  shows "conn_inv c' \<and> conn_ident c' = conn_ident c"
proof -
  obtain status t sb where a: "SendBuffer_AcknowledgeRange (c_snd c) ack = ((status, t), sb)" by (metis prod.exhaust)
  have sb: "snd_buffer_ok sb" using snd_buffer_ops(3)[OF conn_invD(1)[OF inv], of ack] a by simp
  define c1 where "c1 = (case status of
      AckStatusOk \<Rightarrow> (c\<lparr>c_snd := sb\<rparr>)\<lparr>dataInFlight := dataInFlight c - rawLen\<rparr>
    | AckDup \<Rightarrow> (c\<lparr>c_snd := sb\<rparr>)\<lparr>measurements := onDuplicateAck (measurements c)\<rparr>
    | AckNoStream \<Rightarrow> c\<lparr>c_snd := sb\<rparr>)"
  define c2 where "c2 = (let c1 = c1\<lparr>rcvWndSize := ack_rcvWnd ack\<rparr> in
    if checkStreamFullyAcked c1 (st_streamID s) then put_stream c1 k (s\<lparr>st_closedAtNano := now\<rparr>) else c1)"
  have "conn_inv c1 \<and> conn_ident c1 = conn_ident c"
    using inv sb onDuplicateAck_inv[OF conn_invD(2)[OF inv]]
    by (cases status) (auto simp: c1_def intro: conn_inv_snd conn_inv_meas)
  then have c2: "conn_inv c2" "conn_ident c2 = conn_ident c" by (simp_all add: c2_def Let_def)
  have len: "unat (ucast (ack_len ack) :: u64) \<le> 65535"
    using unsigned_less[of "ack_len ack", where 'a = nat] by (simp add: unsigned_ucast_eq take_bit_nat_eq_self)
  have "decode_ack c k s ack rawLen now =
      (if now > t \<and> status = AckStatusOk
       then Option.bind (updateMeasurements (now - t) (ucast (ack_len ack)) now (measurements c2)) (\<lambda>m. Some (c2\<lparr>measurements := m\<rparr>))
       else Some c2)"
    using a by (cases status) (simp_all add: decode_ack_def c2_def c1_def Let_def)
  with d updateMeasurements_inv[OF conn_invD(2)[OF c2(1)] len] c2 show ?thesis
    by (auto simp: bind_eq_Some_conv intro: conn_inv_meas split: if_splits) (metis conn_inv_meas option.inject)+
qed

lemma decode_data_inv: "decode_data c sid p d now = Some c' \<Longrightarrow> conn_inv c' = conn_inv c \<and> conn_ident c' = conn_ident c"
  by (auto simp: decode_data_def bind_eq_Some_conv split: if_splits)

lemma Conn_decode_inv:
  assumes inv: "conn_inv c" and d: "Conn_decode c p userData rawLen now = Some (sid, c')"
  shows "conn_inv c' \<and> conn_ident c' = conn_ident c"
proof -
  obtain s c1 where s: "Conn_Stream c (ph_StreamID p) = (s, c1)" by fastforce
  have c1: "conn_inv c1" "conn_ident c1 = conn_ident c" using Conn_Stream_inv[OF s] inv by simp_all
  obtain c2 c3 where c2: "(case ph_Ack p of None \<Rightarrow> Some c1 | Some ack \<Rightarrow> decode_ack c1 (ph_StreamID p) s ack rawLen now) = Some c2"
    and c3: "decode_data c2 (st_streamID s) p userData now = Some c3"
    and c': "c' = (if ph_IsClose p
                   then c3\<lparr>c_rcv := ReceiveBuffer_Close (c_rcv c3) (st_streamID s) (ph_StreamOffset p),
                          c_snd := SendBuffer_Close (c_snd c3) (st_streamID s)\<rparr>
                   else c3)"
    using d unfolding Conn_decode_def s prod.case by (auto simp: bind_eq_Some_conv Let_def)
  have "conn_inv c2 \<and> conn_ident c2 = conn_ident c"
    using c1 c2 decode_ack_inv[OF c1(1)] by (cases "ph_Ack p") auto
  then have "conn_inv c3" "conn_ident c3 = conn_ident c" using decode_data_inv[OF c3] by simp_all
  then show ?thesis using conn_invD(1) snd_buffer_ops(2) by (auto simp: c' intro: conn_inv_snd)
qed

subsection \<open>Flushing\<close>

text \<open>
  A flush does not panic, keeps what identifies the connection and its streams, and keeps the
  invariant unless it reports an error, upon which the listener drops the connection.
\<close>

definition flush_ok :: "Conn \<Rightarrow> flush_result \<Rightarrow> bool" where
  "flush_ok c res \<longleftrightarrow> (case res of (r, c', pkt) \<Rightarrow>
     no_panic r \<and> conn_ident c' = conn_ident c \<and> streams c' = streams c \<and> (\<forall>x. r = Inr x \<longrightarrow> conn_inv c'))"

lemma flush_ok_trans: "flush_ok c1 res \<Longrightarrow> conn_ident c1 = conn_ident c \<Longrightarrow> streams c1 = streams c \<Longrightarrow> flush_ok c res"
  by (auto simp: flush_ok_def)

lemma next_sn_frame:
  assumes "next_sn c = (r, c')"
  shows "conn_ident c' = conn_ident c \<and> streams c' = streams c \<and> c_snd c' = c_snd c \<and> measurements c' = measurements c \<and> no_panic r"
  using assms by (auto simp: next_sn_def Let_def split: if_splits)

lemma Conn_encode_inv:
  assumes L: "lib_ok (env_lib env)" and mtu: "65 \<le> env_mtu env" and inv: "conn_inv c" and t: "t = Conn_msgType c"
    and e: "Conn_encode env c p d t = (r, c')"
  shows "no_panic r \<and> conn_ident c' = conn_ident c \<and> streams c' = streams c \<and> (\<forall>x. r = Inr x \<longrightarrow> conn_inv c')"
proof -
  have np: "no_panic (encrypt_packet env c p d t)" unfolding t by (rule encrypt_packet_no_panic[OF L mtu conn_invD(3)[OF inv]])
  let ?c = "if t = Data then c else c\<lparr>isInitSentOnSnd := True\<rparr>"
  have id: "conn_ident ?c = conn_ident c" "streams ?c = streams c" "c_snd ?c = c_snd c" "measurements ?c = measurements c"
    by simp_all
  show ?thesis
  proof (cases "encrypt_packet env c p d t")
    case (Inl err)
    then show ?thesis using e np by (auto simp: Conn_encode_def)
  next
    case (Inr enc)
    obtain r0 c0 where n: "next_sn ?c = (r0, c0)" by fastforce
    have r: "r = and_then r0 (\<lambda>_. Inr enc)" "c' = c0" using e Inr n by (auto simp: Conn_encode_def split: prod.splits)
    note f = next_sn_frame[OF n, unfolded id]
    have "conn_inv c0" if "r = Inr x" for x
    proof -
      have "sn_inv c0" using Conn_encode_counts[OF conn_invD(4)[OF inv], of env p d t x c'] e that r by simp
      then show ?thesis using f inv keys_ok_ident[of c0 c] by (simp add: conn_inv_def)
    qed
    then show ?thesis using f r by (auto intro: no_panic_and_then)
  qed
qed

lemma calcPacing_some: "\<exists>t. calcPacing m n = Some t"
  by (simp add: calcPacing_def go_div_def Let_def)

lemma write_packet_ok:
  assumes "conn_inv c" and "\<And>m. werr \<noteq> Some (Panic m)"
  shows "flush_ok c (write_packet c enc werr pl l now)"
proof (cases werr)
  case None
  then show ?thesis using assms(1) calcPacing_some[of "measurements c" pl] by (auto simp: write_packet_def flush_ok_def)
next
  case (Some err)
  then show ?thesis using assms(2) by (cases err) (auto simp: write_packet_def flush_ok_def)
qed

lemma sendPacket_ok:
  assumes L: "lib_ok (env_lib env)" and mtu: "65 \<le> env_mtu env" and inv: "conn_inv c" and t: "t = Conn_msgType c"
    and w: "\<And>m. werr \<noteq> Some (Panic m)"
  shows "flush_ok c (Conn_sendPacket env c s ack b off cl t now track werr)"
proof -
  let ?p = "\<lparr>ph_IsClose = cl, ph_Ack = ack, ph_StreamID = st_streamID s, ph_StreamOffset = off\<rparr>"
  obtain r c' where e: "Conn_encode env c ?p (Some b) t = (r, c')" by fastforce
  note i = Conn_encode_inv[OF L mtu inv t e]
  show ?thesis
  proof (cases r)
    case (Inl err)
    then show ?thesis using e i by (simp add: Conn_sendPacket_def flush_ok_def)
  next
    case (Inr enc)
    let ?c = "if track \<and> werr = None then c'\<lparr>dataInFlight := dataInFlight c' + int (length b)\<rparr> else c'"
    let ?pl = "if track then len64 enc else len64 b"
    have "flush_ok ?c (write_packet ?c enc werr ?pl (int (length b)) now)"
      using i Inr by (intro write_packet_ok w) simp
    then have "flush_ok c (write_packet ?c enc werr ?pl (int (length b)) now)" by (rule flush_ok_trans) (use i in simp_all)
    then show ?thesis using e Inr by (simp add: Conn_sendPacket_def Let_def)
  qed
qed

lemma writeAck_ok:
  assumes L: "lib_ok (env_lib env)" and mtu: "65 \<le> env_mtu env" and inv: "conn_inv c" and w: "\<And>m. werr \<noteq> Some (Panic m)"
  shows "flush_ok c (Conn_writeAck env c s ack now werr)"
proof -
  let ?p = "\<lparr>ph_IsClose = checkStreamFullyAcked c (st_streamID s), ph_Ack = ack, ph_StreamID = st_streamID s, ph_StreamOffset = 0\<rparr>"
  obtain r c' where e: "Conn_encode env c ?p None (Conn_msgType c) = (r, c')" by fastforce
  note i = Conn_encode_inv[OF L mtu inv refl e]
  show ?thesis
  proof (cases r)
    case (Inl err)
    then show ?thesis using e i by (simp add: Conn_writeAck_def flush_ok_def)
  next
    case (Inr enc)
    have "flush_ok c' (write_packet c' enc werr (len64 enc) 0 now)" using i Inr by (intro write_packet_ok w) simp
    then have "flush_ok c (write_packet c' enc werr (len64 enc) 0 now)" by (rule flush_ok_trans) (use i in simp_all)
    then show ?thesis using e Inr by (simp add: Conn_writeAck_def Let_def)
  qed
qed

lemma flush_new_ok:
  assumes L: "lib_ok (env_lib env)" and mtu: "119 \<le> env_mtu env" "env_mtu env \<le> 65535" and inv: "conn_inv c"
    and t: "t = Conn_msgType c" and w: "\<And>m. werr \<noteq> Some (Panic m)"
  shows "flush_ok c (flush_new env c s ack t now werr)"
proof -
  have m: "65 \<le> env_mtu env" "mtu_ok t (env_mtu env)" using mtu by (simp_all add: mtu_ok_def)
  obtain d off cl sb where r: "SendBuffer_ReadyToSend (c_snd c) (st_streamID s) t ack (env_mtu env) now = ((d, off, cl), sb)"
    by (metis prod.exhaust)
  have sb: "snd_buffer_ok sb" using snd_buffer_ops(4)[OF conn_invD(1)[OF inv] m(2), of "st_streamID s" ack now] r by simp
  let ?c = "c\<lparr>c_snd := sb\<rparr>"
  have c: "conn_inv ?c" "t = Conn_msgType ?c" using conn_inv_snd[OF inv sb] t by simp_all
  have "flush_ok c (Conn_sendPacket env ?c s ack b off cl t now True werr)" for b
    by (rule flush_ok_trans[OF sendPacket_ok[OF L m(1) c w]]) simp_all
  moreover have "flush_ok c (Conn_writeAck env ?c s ack now werr)"
    by (rule flush_ok_trans[OF writeAck_ok[OF L m(1) c(1) w]]) simp_all
  moreover have "flush_ok c (Inr (0, MinDeadLine), ?c, None)" "flush_ok c (Inr (0, MinDeadLine), c, None)"
    using c inv by (simp_all add: flush_ok_def)
  ultimately show ?thesis
    using r writeAck_ok[OF L m(1) inv w] by (auto simp: flush_new_def Let_def split: option.splits)
qed

lemma Conn_Flush_ok:
  assumes L: "lib_ok (env_lib env)" and mtu: "119 \<le> env_mtu env" "env_mtu env \<le> 65535" and inv: "conn_inv c"
    and w: "\<And>m. werr \<noteq> Some (Panic m)"
  shows "flush_ok c (Conn_Flush env c s now werr)"
proof -
  let ?t = "Conn_msgType c"
  have m: "65 \<le> env_mtu env" "mtu_ok ?t (env_mtu env)" using mtu by (simp_all add: mtu_ok_def)
  obtain ack0 rcv where g: "ReceiveBuffer_GetSndAck (c_rcv c) = (ack0, rcv)" by fastforce
  let ?c = "c\<lparr>c_rcv := rcv\<rparr>"
  define ack where
    "ack = map_option (\<lambda>a. a\<lparr>ack_rcvWnd := word_of_int (rcv_capacity rcv) - word_of_int (ReceiveBuffer_Size rcv)\<rparr>) ack0"
  let ?rt = "SendBuffer_ReadyToRetransmit (c_snd c) (st_streamID s) ack (env_mtu env) (rtoNano (measurements c)) ?t now"
  have c: "conn_inv ?c" using inv by simp
  note rt = snd_buffer_retransmit[OF conn_invD(1)[OF inv] m(2), of "st_streamID s" ack "rtoNano (measurements c)" now]
  have ackOnly: "flush_ok c (Conn_writeAck env ?c s ack now werr)"
    by (rule flush_ok_trans[OF writeAck_ok[OF L m(1) c w]]) simp_all
  have quiet: "flush_ok c (Inr (n, p), ?c, None)" for n p using c by (simp add: flush_ok_def)
  have rest: "flush_ok c
      (case d of Some b \<Rightarrow> Conn_sendPacket env (?c\<lparr>c_snd := sb, measurements := onPacketLoss (measurements c)\<rparr>) s ack b off cl ?t now False werr
       | None \<Rightarrow> flush_new env (?c\<lparr>c_snd := sb\<rparr>) s ack ?t now werr)" if r: "?rt = Inr ((d, off, cl), sb)" for d off cl sb
  proof -
    have sb: "conn_inv (?c\<lparr>c_snd := sb\<rparr>)" using rt r by (intro conn_inv_snd[OF c]) blast
    have loss: "conn_inv (?c\<lparr>c_snd := sb, measurements := onPacketLoss (measurements c)\<rparr>)"
      by (rule conn_inv_meas[OF sb onPacketLoss_inv[OF conn_invD(2)[OF inv]]])
    show ?thesis
      using flush_ok_trans[OF flush_new_ok[OF L mtu sb _ w], of ?t c s ack now]
        flush_ok_trans[OF sendPacket_ok[OF L m(1) loss _ w], of ?t c s ack _ off cl now False]
      by (auto simp: Conn_msgType_def split: option.splits)
  qed
  have err: "flush_ok c (Inl e, ?c, None)" if "?rt = Inl e" for e using rt that by (simp add: flush_ok_def)
  show ?thesis
  proof (cases ?rt)
    case (Inl e)
    show ?thesis
      unfolding Conn_Flush_def g prod.case Let_def ack_def[symmetric]
      using ackOnly quiet err[OF Inl] Inl by simp
  next
    case (Inr x)
    obtain d off cl sb where x: "x = ((d, off, cl), sb)" by (metis prod.exhaust)
    show ?thesis
      unfolding Conn_Flush_def g prod.case Let_def ack_def[symmetric]
      using ackOnly quiet rest[OF Inr[unfolded x]] Inr x by (cases ack; cases d) simp_all
  qed
qed

end
