(* ===== verification/Listener_System.thy ===== *)
theory Listener_System
  imports Conn_Inv Listener_Safety
begin

text \<open>
  The listener as a transition system: any sequence of dials, received packets, flushes and
  calls on streams and connections. Every connection keeps its invariant, so that a flush of
  the listener never panics, whatever the peers have sent.
\<close>

section \<open>Well-formed listeners\<close>

definition conns_ok :: "Listener \<Rightarrow> bool" where
  "conns_ok l \<longleftrightarrow> (\<forall>k c. conn_at l k = Some c \<longrightarrow> connId c = k \<and> conn_inv c)"

text \<open>
  X25519 gives the all-zero result exactly for points of low order, whatever the private key.
\<close>

definition low_order_uniform :: "crypto_lib \<Rightarrow> bool" where
  "low_order_uniform L \<longleftrightarrow> (\<forall>a b p. x25519 L a p = replicate 32 0 \<longrightarrow> x25519 L b p = replicate 32 0)"

lemma conns_okD: "conns_ok l \<Longrightarrow> conn_at l k = Some c \<Longrightarrow> connId c = k \<and> conn_inv c"
  by (simp add: conns_ok_def del: lm_reads)

lemma conns_ok_put: "conns_ok l \<Longrightarrow> connId c = k \<Longrightarrow> conn_inv c \<Longrightarrow> conns_ok (put_conn l k c)"
  by (simp add: conns_ok_def del: lm_reads)

lemma conns_ok_same: "connMap l' = connMap l \<Longrightarrow> conns_ok l' = conns_ok l"
  by (simp add: conns_ok_def del: lm_reads)

lemma conns_ok_remove: "conns_ok l \<Longrightarrow> conns_ok (l\<lparr>connMap := lm_remove (connMap l) k\<rparr>)"
  by (simp add: conns_ok_def lmc.get_remove del: lm_reads)

lemma mk_conn_inv:
  assumes "isS \<or> ke \<noteq> None" and "isS \<and> wc \<longrightarrow> ki \<noteq> None"
  shows "conn_inv (mk_conn cid addr ep ki ke isS wc)"
  using assms snd_buffer_new[of sndBufferCapacity]
  by (simp add: conn_inv_def mk_conn_def sn_inv_def keys_ok_def meas_inv_new sndBufferCapacity_def)

lemma mk_conn_fields [simp]: "connId (mk_conn cid addr ep ki ke isS wc) = cid" "prvKeyEpSnd (mk_conn cid addr ep ki ke isS wc) = ep"
  by (simp_all add: mk_conn_def)

lemma newConn_ok:
  assumes ok: "conns_ok l" and n: "Listener_newConn L l cid addr ep ki ke isS wc = (r, l')"
    and k: "isS \<or> ke \<noteq> None" "isS \<and> wc \<longrightarrow> ki \<noteq> None"
  shows "conns_ok l'"
proof -
  have "conns_ok l'" if o: "only_conn cid l l'" and c: "conn_at l' cid = Some (mk_conn cid addr ep ki ke isS wc)"
  proof (unfold conns_ok_def, intro allI impI)
    fix k' c' assume "conn_at l' k' = Some c'"
    then show "connId c' = k' \<and> conn_inv c'"
      using o c conns_okD[OF ok, of k' c'] mk_conn_inv[OF k, of cid addr ep]
      by (cases "k' = cid") (auto simp: only_conn_def simp del: lm_reads)
  qed
  then show ?thesis using newConn_cases[OF n] ok by blast
qed

lemma conn_for_init_ok:
  assumes ok: "conns_ok l" and c: "conn_for_init L gen l cid addr ki ke wc = (r, l')"
  shows "conns_ok l' \<and> (\<forall>c. r = Inr c \<longrightarrow> conn_at l' cid = Some c)"
proof (cases "conn_at l cid = None \<and> (\<exists>ep. gen = Inr ep)")
  case True
  then obtain ep where ep: "gen = Inr ep" by blast
  obtain r0 l0 where n: "Listener_newConn L l cid addr ep (Some ki) (Some ke) False wc = (r0, l0)" by fastforce
  have l0: "conns_ok l0" by (rule newConn_ok[OF ok n]) simp_all
  have "conns_ok (put_conn l0 cid c)" if "r0 = Inr c" for c
    using newConn_cases[OF n] that mk_conn_inv[of False "Some ke" wc "Some ki" cid addr ep]
    by (intro conns_ok_put[OF l0]) auto
  then show ?thesis
    using c n l0 ep True by (cases r0) (auto simp: conn_for_init_def simp del: lm_reads)
qed (use c ok in \<open>auto simp: conn_for_init_def simp del: lm_reads split: option.splits sum.splits\<close>)

section \<open>Receiving\<close>

lemma keys_ok_secret: "keys_ok c \<Longrightarrow> keys_ok (c\<lparr>sharedSecret := Some s\<rparr>)"
  by (simp add: keys_ok_def)

lemma conn_inv_keys:
  "conn_inv c \<Longrightarrow> conn_inv (c\<lparr>sharedSecret := Some s\<rparr>)"
  "conn_inv c \<Longrightarrow> conn_inv (c\<lparr>pubKeyEpRcv := Some ke, sharedSecret := Some s\<rparr>)"
  "conn_inv c \<Longrightarrow> conn_inv (c\<lparr>pubKeyIdRcv := Some ki, pubKeyEpRcv := Some ke, sharedSecret := Some s\<rparr>)"
  by (simp_all add: conn_inv_def keys_ok_def sn_inv_def)

text \<open>
  A decoded packet leaves the connections in order, and if it ends the handshake, the secret of
  its connection is known.
\<close>

definition ends_handshake :: "CryptoMsgType \<Rightarrow> bool" where
  "ends_handshake t \<longleftrightarrow> t = InitRcv \<or> t = InitCryptoRcv \<or> t = Data"

definition decoded_ok :: "decoded \<Rightarrow> bool" where
  "decoded_ok res \<longleftrightarrow> conns_ok (snd res) \<and>
     (case fst res of
        Inl e \<Rightarrow> True
      | Inr (k, _, t) \<Rightarrow> (\<exists>c. conn_at (snd res) k = Some c \<and> (ends_handshake t \<longrightarrow> sharedSecret c \<noteq> None)))"

lemma decoded_ok_Inl: "conns_ok l \<Longrightarrow> decoded_ok (Inl e, l)"
  by (simp add: decoded_ok_def)

lemma decoded_ok_put:
  assumes "conns_ok l" and "connId c = k" and "conn_inv c" and "ends_handshake t \<Longrightarrow> sharedSecret c \<noteq> None"
  shows "decoded_ok (Inr (k, payload, t), put_conn l k c)"
  using assms conns_ok_put[OF assms(1-3)] by (simp add: decoded_ok_def del: lm_reads)

lemma decode_replies_ok:
  assumes ok: "conns_ok l"
  shows "decoded_ok (decode_InitRcv L l cid d spare)" "decoded_ok (decode_InitCryptoRcv L l cid d spare)"
    "decoded_ok (decode_Data L l cid d spare)"
proof -
  show "decoded_ok (decode_InitRcv L l cid d spare)" "decoded_ok (decode_InitCryptoRcv L l cid d spare)"
    using conns_okD[OF ok, of cid] ok
    by (auto simp: decode_InitRcv_def decode_InitCryptoRcv_def simp del: lm_reads split: option.splits sum.splits
        intro!: decoded_ok_Inl decoded_ok_put conn_inv_keys)
  show "decoded_ok (decode_Data L l cid d spare)"
    using conns_okD[OF ok, of cid] ok
    by (auto simp: decode_Data_def simp del: lm_reads split: option.splits sum.splits
        intro!: decoded_ok_Inl decoded_ok_put dest!: decryptData_secret)
qed

lemma decode_InitSnd_ok:
  assumes ok: "conns_ok l"
  shows "decoded_ok (decode_InitSnd L gen l cid d spare addr)"
proof (cases "decryptInitSnd d spare (l_mtu l)")
  case (Inr x)
  obtain ki ke where x: "x = (ki, ke)" by fastforce
  obtain r l1 where ci: "conn_for_init L gen l cid addr ki ke False = (r, l1)" by fastforce
  note i = conn_for_init_ok[OF ok ci]
  show ?thesis
  proof (cases r)
    case (Inr c)
    then have c: "connId c = cid" "conn_inv c" using i conns_okD[of l1 cid c] by auto
    show ?thesis
      using \<open>decryptInitSnd d spare (l_mtu l) = Inr x\<close> x ci Inr i c
      by (cases "ECDH L (prvKeyEpSnd c) ke")
         (auto simp: decode_InitSnd_def ends_handshake_def intro: decoded_ok_Inl intro!: decoded_ok_put conn_inv_keys)
  qed (use Inr x ci i in \<open>simp add: decode_InitSnd_def decoded_ok_Inl\<close>)
qed (simp add: decode_InitSnd_def decoded_ok_Inl ok)

lemma decryptInitCryptoSnd_ECDH:
  assumes "low_order_uniform L" and "decryptInitCryptoSnd L d spare k0 mtu = Inr (ki, ke, m)"
  shows "\<exists>s. ECDH L k ke = Inr s"
proof -
  have "\<exists>s0. ECDH L k0 ke = Inr s0"
    using assms(2) by (auto simp: decryptInitCryptoSnd_def and_then_eq_Inr ecdh_NewPublicKey_def split: if_splits)
  then show ?thesis using assms(1) by (auto simp: ECDH_def Let_def low_order_uniform_def split: if_splits)
qed

lemma decode_InitCryptoSnd_ok:
  assumes ok: "conns_ok l" and low: "low_order_uniform L"
  shows "decoded_ok (decode_InitCryptoSnd L gen l cid d spare addr)"
proof (cases "decryptInitCryptoSnd L d spare (l_prvKeyId l) (l_mtu l)")
  case (Inr x)
  obtain ki ke m where x: "x = (ki, ke, m)" by (metis prod.exhaust)
  obtain r l1 where ci: "conn_for_init L gen l cid addr ki ke True = (r, l1)" by fastforce
  note i = conn_for_init_ok[OF ok ci]
  show ?thesis
  proof (cases r)
    case (Inr c)
    then have c: "connId c = cid" "conn_inv c" using i conns_okD[of l1 cid c] by auto
    obtain s where "ECDH L (prvKeyEpSnd c) ke = Inr s"
      using decryptInitCryptoSnd_ECDH[OF low] \<open>decryptInitCryptoSnd L d spare (l_prvKeyId l) (l_mtu l) = Inr x\<close> x by blast
    then show ?thesis
      using \<open>decryptInitCryptoSnd L d spare (l_prvKeyId l) (l_mtu l) = Inr x\<close> x ci Inr i c
      by (auto simp: decode_InitCryptoSnd_def Let_def ends_handshake_def intro!: decoded_ok_put conn_inv_keys)
  qed (use Inr x ci i in \<open>simp add: decode_InitCryptoSnd_def decoded_ok_Inl\<close>)
qed (simp add: decode_InitCryptoSnd_def decoded_ok_Inl ok)

lemma Listener_decode_conns:
  assumes ok: "conns_ok l" and low: "low_order_uniform L"
  shows "decoded_ok (Listener_decode L gen l d spare addr)"
proof (cases "MinPacketSize \<le> length d \<and> d ! 0 AND 0x1F = CryptoVersion")
  case True
  then show ?thesis
    using decode_replies_ok[OF ok] decode_InitSnd_ok[OF ok] decode_InitCryptoSnd_ok[OF ok low] decoded_ok_Inl[OF ok]
    by (auto simp: Listener_decode_by_kind split: option.splits CryptoMsgType.splits)
next
  case False
  then obtain e where "Listener_decode L gen l d spare addr = (Inl (Err e), l)" using Listener_decode_bad by blast
  then show ?thesis using decoded_ok_Inl[OF ok] by simp
qed

text \<open>The fields no operation on connections changes.\<close>

definition same_settings :: "Listener \<Rightarrow> Listener \<Rightarrow> bool" where
  "same_settings l l' \<longleftrightarrow> l_prvKeyId l' = l_prvKeyId l \<and> l_mtu l' = l_mtu l \<and>
     currentConnID l' = currentConnID l \<and> currentStreamID l' = currentStreamID l"

lemma same_settings_refl [simp]: "same_settings l l"
  by (simp add: same_settings_def)

lemma same_settings_put [simp]: "same_settings l (put_conn l' k c) = same_settings l l'"
  by (simp add: same_settings_def)

lemma same_settings_only: "only_conn cid l l' \<Longrightarrow> same_settings l l'"
  by (simp add: only_conn_def same_settings_def)

lemma listen_decoded_ok:
  assumes ok: "conns_ok l" and c: "conn_at l cid = Some c" "ends_handshake t \<longrightarrow> sharedSecret c \<noteq> None"
    and r: "listen_decoded l cid payload t n now = (r, l')"
  shows "conns_ok l' \<and> same_settings l l'"
proof -
  define c1 where "c1 = (if now > lastReadTimeNano (measurements c)
    then c\<lparr>measurements := (measurements c)\<lparr>lastReadTimeNano := now\<rparr>\<rparr> else c)"
  have ci: "connId c = cid" "conn_inv c" using conns_okD[OF ok c(1)] by auto
  have m: "meas_inv ((measurements c)\<lparr>lastReadTimeNano := now\<rparr>)"
    using conn_invD(2)[OF ci(2)] by (simp add: meas_inv_def)
  have c1: "conn_inv c1" "conn_ident c1 = conn_ident c" using ci conn_inv_meas[OF ci(2) m] by (simp_all add: c1_def)
  have l1: "conns_ok (put_conn l cid c1)" using c1 ci by (intro conns_ok_put[OF ok]) (simp_all add: conn_ident_def)
  have fin: "conns_ok (put_conn (put_conn l cid c1) cid (handshake_after t c2))"
    if "Conn_decode c1 p d n now = Some (s, c2)" for p d s c2
  proof -
    have c2: "conn_inv c2" "conn_ident c2 = conn_ident c" using Conn_decode_inv[OF c1(1) that] c1(2) by auto
    then have "conn_inv (handshake_after t c2) \<and> connId (handshake_after t c2) = cid"
      using c(2) ci(1)
      by (auto simp: handshake_after_def conn_ident_def conn_inv_def keys_ok_def ends_handshake_def sn_inv_def)
    then show ?thesis by (intro conns_ok_put[OF l1]) auto
  qed
  have "listen_decoded l cid payload t n now =
      (let l = put_conn l cid c1 in
       case (if length payload = 0 \<and> t = InitSnd
             then Inr (\<lparr>ph_IsClose = False, ph_Ack = None, ph_StreamID = 0, ph_StreamOffset = 0\<rparr>, Some [])
             else DecodePayload payload) of
         Inl e \<Rightarrow> (Inl e, l)
       | Inr (p, userData) \<Rightarrow>
           (case Conn_decode c1 p userData n now of
              None \<Rightarrow> (Inl (Panic ''Conn.decode''), l)
            | Some (_, conn) \<Rightarrow> (Inr (Some (cid, ph_StreamID p)), put_conn l cid (handshake_after t conn))))"
    by (simp only: listen_decoded_def c option.case c1_def Let_def)
  then show ?thesis
    using r l1 fin by (auto simp: Let_def split: sum.splits option.splits prod.splits if_splits)
qed

lemma Listener_Listen_ok:
  assumes ok: "conns_ok l" and low: "low_order_uniform L" and r: "Listener_Listen L gen l rd now = (r, l')"
  shows "conns_ok l' \<and> same_settings l l'"
proof -
  have packet: "conns_ok l2 \<and> same_settings l l2"
    if dec: "Listener_decode L gen l d spare addr = (r1, l1)"
      and l2: "l2 = (case r1 of Inl e \<Rightarrow> l1 | Inr (cid, payload, t) \<Rightarrow> snd (listen_decoded l1 cid payload t n now))" for d spare addr r1 l1 n l2
  proof -
    have s: "same_settings l l1"
      using Listener_decode_ok[of d l L gen spare addr] dec same_settings_only by (auto simp: decode_ok_def)
    note dok = Listener_decode_conns[OF ok low, of gen d spare addr, unfolded dec]
    show ?thesis
    proof (cases r1)
      case (Inl e)
      then show ?thesis using s dok l2 by (simp add: decoded_ok_def)
    next
      case (Inr x)
      obtain cid payload t where x: "x = (cid, payload, t)" by (metis prod.exhaust)
      obtain r2 l3 where l3: "listen_decoded l1 cid payload t n now = (r2, l3)" by fastforce
      then have r2: "listen_decoded l1 cid payload t n now = (r2, l2)" using l2 Inr x by simp
      obtain c where "conns_ok l1" "conn_at l1 cid = Some c" "ends_handshake t \<longrightarrow> sharedSecret c \<noteq> None"
        using dok Inr x by (auto simp: decoded_ok_def simp del: lm_reads)
      from listen_decoded_ok[OF this r2] s show ?thesis by (simp add: same_settings_def)
    qed
  qed
  show ?thesis
  proof (cases rd)
    case (ReadData pkt addr)
    define d where "d = take (nat (l_mtu l)) pkt"
    obtain r1 l1 where dec: "Listener_decode L gen l d (replicate (nat (l_mtu l) - length d) 0) addr = (r1, l1)" by fastforce
    have "l' = (if l_mtu l < 0 \<or> length d = 0 then l else
        case r1 of Inl e \<Rightarrow> l1 | Inr (cid, payload, t) \<Rightarrow> snd (listen_decoded l1 cid payload t (int (length d)) now))"
      using r dec ReadData
      by (cases r1) (auto simp: Listener_Listen_def Let_def d_def[symmetric] split: if_splits)
    then show ?thesis using packet[OF dec refl, of "int (length d)"] ok by simp
  qed (use r ok in \<open>auto simp: Listener_Listen_def split: if_splits\<close>)
qed

section \<open>Flushing\<close>

text \<open>
  The state of the loop, compared with the listener \<open>l0\<close> it started from: connections keep their
  identity and their streams, and their invariant unless they are to be closed; the packets
  are within the MTU and go to the peers.
\<close>

definition same_conn :: "Conn \<Rightarrow> Conn \<Rightarrow> bool" where
  "same_conn c0 c \<longleftrightarrow> streams c = streams c0 \<and> remoteAddr c = remoteAddr c0 \<and> connId c = connId c0"

definition peer_addr :: "Listener \<Rightarrow> string \<Rightarrow> bool" where
  "peer_addr l a \<longleftrightarrow> (\<exists>k c. conn_at l k = Some c \<and> a = remoteAddr c)"

definition flush_inv :: "Listener \<Rightarrow> flush_state \<Rightarrow> bool" where
  "flush_inv l0 fs \<longleftrightarrow>
     l_mtu (fs_l fs) = l_mtu l0 \<and> l_prvKeyId (fs_l fs) = l_prvKeyId l0 \<and>
     (\<forall>k. rel_option same_conn (conn_at l0 k) (conn_at (fs_l fs) k)) \<and>
     (\<forall>k c. conn_at (fs_l fs) k = Some c \<longrightarrow> conn_inv c \<or> k \<in> set (fs_closeConn fs)) \<and>
     (\<forall>e \<in> set (fs_sent fs). int (length (snd e)) \<le> l_mtu l0 \<and> peer_addr l0 (fst e)) \<and>
     fs_minPacing fs \<le> MinDeadLine \<and> (fs_closeConn fs = [] \<or> currentConnID (fs_l fs) = None)"

definition going_on :: "flush_state \<Rightarrow> bool" where
  "going_on fs \<longleftrightarrow> fs_closeConn fs = [] \<and> currentConnID (fs_l fs) = None"

text \<open>One connection is put back, with or without its invariant, and a packet is added.\<close>

lemma flush_inv_put:
  assumes inv: "flush_inv l0 fs" and c0: "conn_at (fs_l fs) k = Some c0" and same: "same_conn c0 c"
    and pkt: "\<And>enc. pkt = Some enc \<Longrightarrow> int (length enc) \<le> l_mtu l0" and c: "conn_inv c \<or> k \<in> set (fs_closeConn fs)"
  shows "flush_inv l0 (fs\<lparr>fs_l := put_conn (fs_l fs) k c,
    fs_sent := fs_sent fs @ (case pkt of None \<Rightarrow> [] | Some enc \<Rightarrow> [(remoteAddr c, enc)])\<rparr>)"
proof -
  have "rel_option same_conn (conn_at l0 k) (conn_at (fs_l fs) k)" using inv unfolding flush_inv_def by blast
  then have r: "rel_option same_conn (conn_at l0 k) (Some c0)" unfolding c0 .
  then obtain d where d: "conn_at l0 k = Some d" "same_conn d c0" by (auto simp: option_rel_Some2)
  have dc: "same_conn d c" using d(2) same by (simp add: same_conn_def)
  then have addr: "peer_addr l0 (remoteAddr c)"
    using d(1) unfolding peer_addr_def by (intro exI[of _ k] exI[of _ d]) (simp add: same_conn_def)
  show ?thesis
    using inv c pkt d(1) dc addr unfolding flush_inv_def
    by (auto simp del: lm_reads split: option.splits)
qed

lemma flush_inv_close:
  assumes "flush_inv l0 fs" and "going_on fs"
  shows "flush_inv l0 (fs\<lparr>fs_closeConn := fs_closeConn fs @ [k]\<rparr>)"
  using assms by (auto simp: flush_inv_def going_on_def simp del: lm_reads)

lemma flush_inv_updates:
  "flush_inv l0 (fs\<lparr>fs_closeStream := cs\<rparr>) = flush_inv l0 fs"
  "flush_inv l0 fs \<Longrightarrow> n \<le> MinDeadLine \<Longrightarrow> flush_inv l0 (fs\<lparr>fs_minPacing := n\<rparr>)"
  "flush_inv l0 fs \<Longrightarrow> fs_closeConn fs = [] \<Longrightarrow>
   flush_inv l0 (fs\<lparr>fs_minPacing := 0, fs_l := (fs_l fs)\<lparr>currentConnID := i, currentStreamID := j\<rparr>\<rparr>)"
  by (simp_all add: flush_inv_def del: lm_reads)

lemma flush_one_inv:
  assumes L: "lib_ok L" and mtu: "119 \<le> l_mtu l0" "l_mtu l0 \<le> 65535" and w: "\<And>m. werr at \<noteq> Some (Panic m)"
    and inv: "flush_inv l0 fs" and go: "going_on fs"
    and at: "conn_at l0 (fst at) = Some d" "lm_get (streams d) (snd at) = Some s"
  shows "\<exists>fs' b. flush_one L werr now fs at = Inr (fs', b) \<and> flush_inv l0 fs' \<and> (b \<longrightarrow> going_on fs')"
proof -
  let ?env = "l_env L (fs_l fs)"
  have "rel_option same_conn (conn_at l0 (fst at)) (conn_at (fs_l fs) (fst at))" using inv unfolding flush_inv_def by blast
  then obtain c where c: "conn_at (fs_l fs) (fst at) = Some c" "same_conn d c" unfolding at(1) by (auto simp: option_rel_Some1)
  have ci: "conn_inv c" using inv c(1) go unfolding flush_inv_def going_on_def by fastforce
  have s: "lm_get (streams c) (snd at) = Some s" using at(2) c(2) by (simp add: same_conn_def del: lm_reads)
  have env: "lib_ok (env_lib ?env)" "119 \<le> env_mtu ?env" "env_mtu ?env \<le> 65535" "env_mtu ?env = l_mtu l0"
    using L mtu inv by (simp_all add: l_env_def flush_inv_def)
  obtain r c' pkt where f: "Conn_Flush ?env c s now (werr at) = (r, c', pkt)" by (metis prod.exhaust)
  have fo: "no_panic r" "conn_ident c' = conn_ident c" "streams c' = streams c" "\<And>x. r = Inr x \<Longrightarrow> conn_inv c'"
    using Conn_Flush_ok[OF env(1-3) ci, of "werr at" s now] w f by (auto simp: flush_ok_def)
  have same: "same_conn c c'" using fo(2,3) by (simp add: same_conn_def conn_ident_def)
  have "mtu_ok (Conn_msgType c) (env_mtu ?env)" using env by (simp add: mtu_ok_def)
  from Conn_Flush_good[OF conn_invD(4)[OF ci] env(1) this snd_buffer_streams_ok[OF conn_invD(1)[OF ci]], of s now "werr at"]
  have pkt: "int (length enc) \<le> l_mtu l0" if "pkt = Some enc" for enc using that f env(4) by (simp add: good_flush_def)
  let ?fs = "fs\<lparr>fs_l := put_conn (fs_l fs) (fst at) c',
    fs_sent := fs_sent fs @ (case pkt of None \<Rightarrow> [] | Some enc \<Rightarrow> [(remoteAddr c', enc)])\<rparr>"
  have one: "flush_one L werr now fs at = (case r of
      Inl (Panic m) \<Rightarrow> Inl (Panic m)
    | Inl (Err _) \<Rightarrow> Inr (?fs\<lparr>fs_closeConn := fs_closeConn ?fs @ [fst at]\<rparr>, False)
    | Inr (dataSent, pacingNano) \<Rightarrow>
        if st_closedAtNano s \<noteq> 0 \<and> (isSenderOnInit c' \<or> st_closedAtNano s + ReadDeadLine > now)
        then Inr (?fs\<lparr>fs_closeStream := al_put (fst at) (st_streamID s) (fs_closeStream ?fs)\<rparr>, True)
        else if dataSent > 0 then
          Inr (?fs\<lparr>fs_minPacing := 0, fs_l := (fs_l ?fs)\<lparr>currentConnID := Some (fst at, connId c'),
                  currentStreamID := Some (at, st_streamID s)\<rparr>\<rparr>, False)
        else if lastReadTimeNano (measurements c') \<noteq> 0 \<and> now > lastReadTimeNano (measurements c') + ReadDeadLine
        then Inr (?fs\<lparr>fs_closeConn := fs_closeConn ?fs @ [fst at]\<rparr>, False)
        else Inr (if pacingNano < fs_minPacing ?fs then ?fs\<lparr>fs_minPacing := pacingNano\<rparr> else ?fs, True))"
    unfolding flush_one_def c(1) option.case s f prod.case Let_def ..
  have eq: "?fs\<lparr>fs_closeConn := fs_closeConn ?fs @ [fst at]\<rparr> =
      fs\<lparr>fs_closeConn := fs_closeConn fs @ [fst at], fs_l := put_conn (fs_l fs) (fst at) c',
        fs_sent := fs_sent fs @ (case pkt of None \<Rightarrow> [] | Some enc \<Rightarrow> [(remoteAddr c', enc)])\<rparr>"
    by (cases fs) simp
  have closing: "flush_inv l0 (?fs\<lparr>fs_closeConn := fs_closeConn ?fs @ [fst at]\<rparr>)"
    unfolding eq using flush_inv_put[OF flush_inv_close[OF inv go, of "fst at"], of "fst at" c c' pkt] c(1) same pkt
    by (simp del: lm_reads)
  show ?thesis
  proof (cases r)
    case (Inl e)
    then obtain m where "e = Err m" using fo(1) by (cases e) auto
    then show ?thesis using one Inl closing by auto
  next
    case (Inr x)
    have good: "flush_inv l0 ?fs" by (rule flush_inv_put[OF inv c(1) same pkt disjI1[OF fo(4)[OF Inr]]])
    have go': "going_on ?fs" using go by (simp add: going_on_def)
    have le: "n \<le> MinDeadLine" if "n < fs_minPacing ?fs" for n
      using that good unfolding flush_inv_def by (meson less_imp_le order_trans)
    show ?thesis
      using one Inr closing good go' le flush_inv_updates[where fs = ?fs]
      by (auto simp: going_on_def split: prod.splits if_splits)
  qed
qed

lemma flush_loop_inv:
  assumes L: "lib_ok L" and mtu: "119 \<le> l_mtu l0" "l_mtu l0 \<le> 65535" and w: "\<And>at m. werr at \<noteq> Some (Panic m)"
    and "flush_inv l0 fs" and "going_on fs"
    and "\<forall>at \<in> set ats. \<exists>d s. conn_at l0 (fst at) = Some d \<and> lm_get (streams d) (snd at) = Some s"
  shows "\<exists>fs'. flush_loop L werr now fs ats = Inr fs' \<and> flush_inv l0 fs'"
  using assms(5-)
proof (induction ats arbitrary: fs)
  case (Cons at ats)
  obtain d s where at: "conn_at l0 (fst at) = Some d" "lm_get (streams d) (snd at) = Some s" using Cons.prems(3) by auto
  obtain fs' b where one: "flush_one L werr now fs at = Inr (fs', b)" "flush_inv l0 fs'" "b \<longrightarrow> going_on fs'"
    using flush_one_inv[where werr = werr and now = now, OF L mtu w Cons.prems(1,2) at] by blast
  show ?case using Cons.IH[OF one(2)] Cons.prems(3) one by (cases b) simp_all
qed simp

subsection \<open>Cleanup\<close>

lemma cleanupConn_conns:
  assumes "currentConnID l = None"
  shows "cleanupConn l c = l\<lparr>connMap := lm_remove (connMap l) (connId c)\<rparr>"
  using assms by (simp add: cleanupConn_def)

lemma set_current_stream_ok:
  assumes "conns_ok l"
  shows "conns_ok (set_current_stream l at v) \<and> l_mtu (set_current_stream l at v) = l_mtu l"
proof (cases "conn_at l (fst at)")
  case (Some c)
  then have c: "connId c = fst at" "conn_inv c" using conns_okD[OF assms] by auto
  have "conns_ok (l\<lparr>currentStreamID := Some (at, v)\<rparr>)" using assms conns_ok_same[of "l\<lparr>currentStreamID := Some (at, v)\<rparr>" l] by simp
  then show ?thesis
    using c Some by (auto simp: set_current_stream_def Let_def simp del: lm_reads split: option.splits intro!: conns_ok_put)
qed (use assms conns_ok_same[of "l\<lparr>currentStreamID := Some (at, v)\<rparr>" l] in \<open>simp add: set_current_stream_def del: lm_reads\<close>)

lemma cleanupStream_ok:
  assumes "conns_ok l"
  shows "conns_ok (cleanupStream l cid strs sid) \<and> l_mtu (cleanupStream l cid strs sid) = l_mtu l"
proof -
  define l1 where "l1 = (case currentStreamID l of
      None \<Rightarrow> l
    | Some (at, v) \<Rightarrow> if sid = v then set_current_stream l at (fst (lm_next strs sid)) else l)"
  have l1: "conns_ok l1" "l_mtu l1 = l_mtu l"
    using assms set_current_stream_ok[OF assms] by (auto simp: l1_def simp del: lm_reads split: option.splits)
  have "cleanupStream l cid strs sid =
      (case conn_at l1 cid of None \<Rightarrow> l1 | Some c \<Rightarrow> put_conn l1 cid (c\<lparr>streams := lm_remove (streams c) sid\<rparr>))"
    by (simp only: cleanupStream_def l1_def Let_def)
  then show ?thesis
    using l1 conns_okD[OF l1(1), of cid] by (auto simp del: lm_reads split: option.splits intro!: conns_ok_put)
qed

lemma cleanupStreams_ok:
  assumes "conns_ok l"
  shows "conns_ok (foldl (\<lambda>l (k, sid). case m k of None \<Rightarrow> l | Some c \<Rightarrow> cleanupStream l k (streams c) sid) l xs) \<and>
    l_mtu (foldl (\<lambda>l (k, sid). case m k of None \<Rightarrow> l | Some c \<Rightarrow> cleanupStream l k (streams c) sid) l xs) = l_mtu l"
  using assms
proof (induction xs arbitrary: l)
  case (Cons x xs)
  obtain k sid where x: "x = (k, sid)" by fastforce
  show ?case
  proof (cases "m k")
    case (Some c)
    note s = cleanupStream_ok[OF Cons.prems, of k "streams c" sid]
    show ?thesis using Cons.IH[OF conjunct1[OF s]] s x Some by simp
  qed (use Cons x in simp)
qed simp

lemma cleanupConns_conns:
  assumes "currentConnID l = None" and "\<And>k c. m k = Some c \<Longrightarrow> connId c = k" and "\<And>k. k \<in> set ks \<Longrightarrow> m k \<noteq> None"
  defines "l' \<equiv> foldl (\<lambda>l k. case m k of None \<Rightarrow> l | Some c \<Rightarrow> cleanupConn l c) l ks"
  shows "conn_at l' k = (if k \<in> set ks then None else conn_at l k) \<and> l_mtu l' = l_mtu l"
  unfolding l'_def using assms(1,3)
proof (induction ks arbitrary: l)
  case (Cons j js)
  obtain c where c: "m j = Some c" using Cons.prems(2) by fastforce
  let ?l = "l\<lparr>connMap := lm_remove (connMap l) j\<rparr>"
  have "cleanupConn l c = ?l" using cleanupConn_conns[OF Cons.prems(1)] assms(2)[OF c] by simp
  then show ?case using Cons.IH[of ?l] Cons.prems c by (auto simp: lmc.get_remove simp del: lm_reads)
qed simp

lemma set_al_iterate: "set (al_iterate sk es) \<subseteq> set es"
proof (cases sk)
  case (Some x)
  have "set (dropWhile (\<lambda>e. fst e \<noteq> x) es) \<subseteq> set es" by (auto dest: set_dropWhileD)
  then show ?thesis by (auto simp: al_iterate_def Some split: list.splits)
qed (simp add: al_iterate_def)

lemma nested_keys_valid:
  "at \<in> set (nested_keys sk es) \<Longrightarrow> \<exists>c s. (fst at, Some c) \<in> set es \<and> lm_get (streams c) (snd at) = Some s"
proof (induction sk es rule: nested_keys.induct)
  case (3 sk cid c rest)
  show ?case
  proof (cases "at \<in> set (nested_keys None rest)")
    case False
    then obtain k s where "(k, s) \<in> set (al_iterate sk (lm_entries (streams c)))" "at = (cid, k)" using 3(2) by auto
    then have "(k, s) \<in> set (lm_entries (streams c))" using set_al_iterate by fastforce
    then have "lm_get (streams c) k = Some s" by (simp only: lmc.get_iff)
    then show ?thesis using \<open>at = (cid, k)\<close> by auto
  qed (use 3 in auto)
qed auto

lemma flush_order_valid:
  assumes "at \<in> set (nested_keys sk (lm_iterator (connMap l) ck))"
  shows "\<exists>c s. conn_at l (fst at) = Some c \<and> lm_get (streams c) (snd at) = Some s"
proof -
  obtain c s where e: "(fst at, Some c) \<in> set (lm_iterator (connMap l) ck)" and s: "lm_get (streams c) (snd at) = Some s"
    using nested_keys_valid[OF assms] by blast
  have "(fst at, c) \<in> set (lm_entries (connMap l))" using e set_al_iterate by fastforce
  then have "conn_at l (fst at) = Some c" by (simp only: lmc.get_iff)
  then show ?thesis using s by blast
qed

definition l_inv :: "Listener \<Rightarrow> bool" where
  "l_inv l \<longleftrightarrow> conns_ok l \<and> currentConnID l = None \<and> currentStreamID l = None \<and> 119 \<le> l_mtu l \<and> l_mtu l \<le> 65535"

lemma flush_cleanup_ok:
  assumes l0: "conns_ok l0" and inv: "flush_inv l0 fs"
  shows "conns_ok (flush_cleanup ord fs) \<and> l_mtu (flush_cleanup ord fs) = l_mtu l0 \<and>
    currentConnID (flush_cleanup ord fs) = None \<and> currentStreamID (flush_cleanup ord fs) = None"
proof -
  let ?m = "conn_at (fs_l fs)" and ?ks = "filter (\<lambda>k. conn_at (fs_l fs) k \<noteq> None) (fs_closeConn fs)"
  let ?f = "\<lambda>l k. case ?m k of None \<Rightarrow> l | Some c \<Rightarrow> cleanupConn l c"
  have ids: "connId c = k" if m: "?m k = Some c" for k c
  proof -
    have "rel_option same_conn (conn_at l0 k) (?m k)" using inv unfolding flush_inv_def by blast
    then obtain d where "conn_at l0 k = Some d" "same_conn d c" unfolding m by (auto simp: option_rel_Some2)
    then show ?thesis using conns_okD[OF l0] by (auto simp: same_conn_def)
  qed
  define l1 where "l1 = foldl ?f (fs_l fs) (fs_closeConn fs)"
  have l1: "conns_ok l1 \<and> l_mtu l1 = l_mtu l0"
  proof (cases "fs_closeConn fs = []")
    case True
    then show ?thesis using inv ids by (auto simp: l1_def flush_inv_def conns_ok_def simp del: lm_reads)
  next
    case False
    then have cur: "currentConnID (fs_l fs) = None" using inv by (simp add: flush_inv_def)
    have "foldl ?f l ks = foldl ?f l (filter (\<lambda>k. ?m k \<noteq> None) ks)" for l ks
      by (induction ks arbitrary: l) (auto simp del: lm_reads split: option.splits)
    then have "l1 = foldl ?f (fs_l fs) ?ks" by (simp only: l1_def)
    then have "conn_at l1 k = (if k \<in> set ?ks then None else ?m k) \<and> l_mtu l1 = l_mtu (fs_l fs)" for k
      using cleanupConns_conns[where m = ?m and ks = ?ks and k = k, OF cur ids] by (simp del: lm_reads)
    then show ?thesis using inv ids by (auto simp: flush_inv_def conns_ok_def simp del: lm_reads)
  qed
  have "flush_cleanup ord fs =
      (foldl (\<lambda>l (k, sid). case ?m k of None \<Rightarrow> l | Some c \<Rightarrow> cleanupStream l k (streams c) sid) l1 (ord (fs_closeStream fs)))
        \<lparr>currentConnID := None, currentStreamID := None\<rparr>"
    by (simp only: flush_cleanup_def l1_def Let_def)
  then show ?thesis
    using cleanupStreams_ok[OF conjunct1[OF l1], of ?m "ord (fs_closeStream fs)"] l1
    by (simp add: conns_ok_def del: lm_reads)
qed

lemma Listener_Flush_ok:
  assumes L: "lib_ok L" and inv: "l_inv l" and w: "\<And>at m. werr at \<noteq> Some (Panic m)"
  shows "\<exists>wait l' sent. Listener_Flush L werr ord l now = Inr (wait, l', sent) \<and> l_inv l' \<and> wait \<le> MinDeadLine \<and>
    (\<forall>e \<in> set sent. int (length (snd e)) \<le> l_mtu l \<and> peer_addr l (fst e))"
proof (cases "lm_size (connMap l) = 0")
  case True
  then show ?thesis using inv by (simp add: Listener_Flush_def)
next
  case False
  let ?fs = "\<lparr>fs_l = l, fs_minPacing = MinDeadLine, fs_closeConn = [], fs_closeStream = [], fs_sent = []\<rparr>"
  let ?order = "nested_keys (map_option snd (currentStreamID l)) (lm_iterator (connMap l) (map_option snd (currentConnID l)))"
  have mtu: "119 \<le> l_mtu l" "l_mtu l \<le> 65535" and ok: "conns_ok l" using inv by (simp_all add: l_inv_def)
  have "rel_option same_conn x x" for x by (cases x) (simp_all add: same_conn_def)
  then have fi: "flush_inv l ?fs" using conns_okD[OF ok] by (auto simp: flush_inv_def simp del: lm_reads)
  have go: "going_on ?fs" using inv by (simp add: going_on_def l_inv_def)
  obtain fs' where fs': "flush_loop L werr now ?fs ?order = Inr fs'" "flush_inv l fs'"
    using flush_loop_inv[where werr = werr and now = now and ats = ?order, OF L mtu w fi go] flush_order_valid by blast
  have "Listener_Flush L werr ord l now = Inr (fs_minPacing fs', flush_cleanup ord fs', fs_sent fs')"
    unfolding Listener_Flush_def using False fs'(1) by (simp add: Let_def del: lm_reads)
  then show ?thesis
    using flush_cleanup_ok[OF ok fs'(2), of ord] fs'(2) mtu by (auto simp: l_inv_def flush_inv_def simp del: lm_reads)
qed

section \<open>The transition system\<close>

datatype l_event =
    Dial_l "prvKey result" string
  | DialCrypto_l "prvKey result" string pubKey
  | Listen_l "prvKey result" read_result u64
  | Flush_l "u64 \<times> u32 \<Rightarrow> go_error option" "(u64 \<times> u32) list \<Rightarrow> (u64 \<times> u32) list" u64
  | Stream_l u64 u32
  | Write_l u64 u32 bytes "io_error option"
  | Read_l u64 u32
  | Ping_l u64 u32
  | CloseStream_l u64 u32
  | CloseConn_l u64
  | ForceClose_l u64
  | Close_l

text \<open>A panic is \<open>None\<close>; an error leaves the state the call has left.\<close>

definition unless_panic :: "'a result \<Rightarrow> Listener \<Rightarrow> Listener option" where
  "unless_panic r l = (case r of Inl (Panic _) \<Rightarrow> None | _ \<Rightarrow> Some l)"

definition on_conn :: "Listener \<Rightarrow> u64 \<Rightarrow> (Conn \<Rightarrow> Conn option) \<Rightarrow> Listener option" where
  "on_conn l k f = (case conn_at l k of None \<Rightarrow> Some l | Some c \<Rightarrow> map_option (put_conn l k) (f c))"

definition on_stream :: "Listener \<Rightarrow> u64 \<Rightarrow> u32 \<Rightarrow> (Conn \<Rightarrow> Stream \<Rightarrow> Conn option) \<Rightarrow> Listener option" where
  "on_stream l k sid f = on_conn l k (\<lambda>c. case lm_get (streams c) sid of None \<Rightarrow> Some c | Some s \<Rightarrow> f c s)"

fun l_step :: "crypto_lib \<Rightarrow> Listener \<Rightarrow> l_event \<Rightarrow> Listener option" where
  "l_step L l (Dial_l gen addr) = (case Listener_Dial L gen l addr of (r, l) \<Rightarrow> unless_panic r l)"
| "l_step L l (DialCrypto_l gen addr k) = (case Listener_DialWithCrypto L gen l addr (Some k) of (r, l) \<Rightarrow> unless_panic r l)"
| "l_step L l (Listen_l gen rd now) = (case Listener_Listen L gen l rd now of (r, l) \<Rightarrow> unless_panic r l)"
| "l_step L l (Flush_l werr ord now) =
     (case Listener_Flush L werr ord l now of Inl _ \<Rightarrow> None | Inr (_, l, _) \<Rightarrow> Some l)"
| "l_step L l (Stream_l k sid) = on_conn l k (\<lambda>c. Some (snd (Conn_Stream c sid)))"
| "l_step L l (Write_l k sid d wake) = on_stream l k sid (\<lambda>c s. map_option snd (Stream_Write c s d wake))"
| "l_step L l (Read_l k sid) = on_stream l k sid (\<lambda>c s. Some (snd (snd (Stream_Read c sid s))))"
| "l_step L l (Ping_l k sid) = on_stream l k sid (\<lambda>c s. Some (Stream_Ping c s))"
| "l_step L l (CloseStream_l k sid) = on_stream l k sid (\<lambda>c s. Some (Stream_Close c s))"
| "l_step L l (CloseConn_l k) = on_conn l k (\<lambda>c. Some (Conn_Close c))"
| "l_step L l (ForceClose_l k) = Some (case conn_at l k of None \<Rightarrow> l | Some c \<Rightarrow> Listener_ForceClose l c)"
| "l_step L l Close_l = Some (snd (Listener_Close None None l))"

text \<open>
  The calls considered: the socket returns errors and does not panic, and fewer than \<open>2 ^ 48\<close>
  bytes are written to a stream.
\<close>

fun l_ok :: "Listener \<Rightarrow> l_event \<Rightarrow> bool" where
  "l_ok l (Flush_l werr ord now) = (\<forall>at m. werr at \<noteq> Some (Panic m))"
| "l_ok l (Write_l k sid d wake) =
     (\<forall>c s. conn_at l k = Some c \<longrightarrow> lm_get (streams c) sid = Some s \<longrightarrow>
        stream_total (c_snd c) (st_streamID s) + length d < 2 ^ 48)"
| "l_ok l _ = True"

lemma l_inv_put: "l_inv l \<Longrightarrow> connId c = k \<Longrightarrow> conn_inv c \<Longrightarrow> l_inv (put_conn l k c)"
  by (simp add: l_inv_def conns_ok_put)

lemma on_conn_inv:
  assumes "l_inv l" and "on_conn l k f = Some l'"
    and "\<And>c c'. conn_at l k = Some c \<Longrightarrow> conn_inv c \<Longrightarrow> f c = Some c' \<Longrightarrow> conn_inv c' \<and> conn_ident c' = conn_ident c"
  shows "l_inv l'"
proof (cases "conn_at l k")
  case (Some c)
  then obtain c' where c': "f c = Some c'" "l' = put_conn l k c'" using assms(2) by (auto simp: on_conn_def simp del: lm_reads)
  have c: "connId c = k" "conn_inv c" using conns_okD[OF _ Some] assms(1) by (auto simp: l_inv_def)
  have "conn_inv c'" "connId c' = k" using assms(3)[OF Some c(2) c'(1)] c(1) by (simp_all add: conn_ident_def)
  then show ?thesis using l_inv_put[OF assms(1)] c'(2) by blast
qed (use assms in \<open>simp add: on_conn_def del: lm_reads\<close>)

lemma on_stream_inv:
  assumes "l_inv l" and "on_stream l k sid f = Some l'"
    and "\<And>c c' s. conn_at l k = Some c \<Longrightarrow> lm_get (streams c) sid = Some s \<Longrightarrow> conn_inv c \<Longrightarrow> f c s = Some c' \<Longrightarrow>
      conn_inv c' \<and> conn_ident c' = conn_ident c"
  shows "l_inv l'"
  using assms(3)
  by (intro on_conn_inv[OF assms(1) assms(2)[unfolded on_stream_def]]) (auto simp del: lm_reads split: option.splits)

subsection \<open>The calls on streams\<close>

lemma stream_ops_inv:
  assumes "conn_inv c"
  shows "conn_inv (Stream_Ping c s) \<and> conn_ident (Stream_Ping c s) = conn_ident c"
    "conn_inv (Stream_Close c s) \<and> conn_ident (Stream_Close c s) = conn_ident c"
    "conn_inv (snd (snd (Stream_Read c k s))) \<and> conn_ident (snd (snd (Stream_Read c k s))) = conn_ident c"
  using assms snd_buffer_ops(1,2)[OF conn_invD(1)[OF assms]]
  by (auto simp: Stream_Ping_def Stream_Close_def Stream_Read_def Let_def intro: conn_inv_snd split: prod.splits option.splits)

lemma Stream_Write_inv:
  assumes "conn_inv c" and "stream_total (c_snd c) (st_streamID s) + length d < 2 ^ 48" and "Stream_Write c s d wake = Some (r, c')"
  shows "conn_inv c' \<and> conn_ident c' = conn_ident c"
proof -
  obtain q sb where "SendBuffer_QueueData (c_snd c) (st_streamID s) d = Some (q, sb)" "snd_buffer_ok sb"
    using snd_buffer_queue[OF conn_invD(1)[OF assms(1)] assms(2)] by blast
  with assms(1,3) show ?thesis
    by (auto simp: Stream_Write_def Let_def intro: conn_inv_snd split: if_splits prod.splits option.splits)
qed

lemma Conn_Close_inv:
  assumes "conn_inv c"
  shows "conn_inv (Conn_Close c) \<and> conn_ident (Conn_Close c) = conn_ident c"
proof -
  have "conn_inv (foldl Stream_Close c ss) \<and> conn_ident (foldl Stream_Close c ss) = conn_ident c" if "conn_inv c" for c ss
    using that
  proof (induction ss arbitrary: c)
    case (Cons s ss)
    show ?case using Cons.IH[of "Stream_Close c s"] stream_ops_inv(2)[OF Cons.prems] by simp
  qed simp
  then show ?thesis using assms by (simp add: Conn_Close_def)
qed

subsection \<open>The invariant of the system\<close>

lemma dial_with_inv:
  assumes "l_inv l" and "dial_with L gen l addr ki wc = (r, l')" and "wc \<longrightarrow> ki \<noteq> None"
  shows "l_inv l'"
proof -
  have new: "l_inv l1" if n: "Listener_newConn L l cid addr ep ki None True wc = (r1, l1)" for cid ep r1 l1
  proof -
    have "same_settings l l1" using newConn_cases[OF n] same_settings_only by fastforce
    moreover have "conns_ok l1" using assms(1,3) by (intro newConn_ok[OF _ n]) (simp_all add: l_inv_def)
    ultimately show ?thesis using assms(1) by (simp add: l_inv_def same_settings_def)
  qed
  show ?thesis using assms(1,2) new by (auto simp: dial_with_def split: sum.splits)
qed

lemma Listener_Close_inv:
  assumes "l_inv l"
  shows "l_inv (snd (Listener_Close e1 e2 l))"
proof -
  have "l_inv (foldl (\<lambda>l (k, c). put_conn l k (Conn_Close c)) l' es)"
    if "l_inv l'" "\<forall>e \<in> set es. connId (snd e) = fst e \<and> conn_inv (snd e)" for es l'
    using that
  proof (induction es arbitrary: l')
    case (Cons e es)
    obtain k c where e: "e = (k, c)" by fastforce
    have "l_inv (put_conn l' k (Conn_Close c))"
      using Cons.prems e Conn_Close_inv[of c] by (intro l_inv_put) (auto simp: conn_ident_def)
    then show ?case using Cons e by simp
  qed simp
  moreover have "\<forall>e \<in> set (lm_entries (connMap l)). connId (snd e) = fst e \<and> conn_inv (snd e)"
  proof
    fix e assume "e \<in> set (lm_entries (connMap l))"
    then have "conn_at l (fst e) = Some (snd e)" by (simp only: lmc.get_iff prod.collapse)
    then show "connId (snd e) = fst e \<and> conn_inv (snd e)" using assms conns_okD unfolding l_inv_def by blast
  qed
  moreover have "l_inv (l\<lparr>l_closed := True\<rparr>)" using assms by (simp add: l_inv_def conns_ok_def del: lm_reads)
  ultimately show ?thesis by (simp add: Listener_Close_def)
qed

lemma l_inv_step:
  assumes inv: "l_inv l" and L: "lib_ok L" "low_order_uniform L" and ok: "l_ok l e" and s: "l_step L l e = Some l'"
  shows "l_inv l'"
proof (cases e)
  case (Listen_l gen rd now)
  obtain r l1 where "Listener_Listen L gen l rd now = (r, l1)" by fastforce
  moreover from Listener_Listen_ok[OF _ L(2) this] inv have "l_inv l1" by (simp add: l_inv_def same_settings_def)
  ultimately show ?thesis using s Listen_l by (auto simp: unless_panic_def split: sum.splits go_error.splits)
next
  case (Flush_l werr ord now)
  then show ?thesis using Listener_Flush_ok[OF L(1) inv, of werr ord now] ok s by auto
next
  case (ForceClose_l k)
  then show ?thesis
    using inv s cleanupConn_conns[of l] conns_ok_remove[of l]
    by (auto simp: l_inv_def Listener_ForceClose_def simp del: lm_reads split: option.splits)
next
  case Close_l
  then show ?thesis using Listener_Close_inv[OF inv] s by auto
next
  case (Write_l k sid d wake)
  show ?thesis
    using s ok Write_l
    by (intro on_stream_inv[OF inv, of k sid "\<lambda>c s. map_option snd (Stream_Write c s d wake)"])
       (auto simp del: lm_reads dest!: Stream_Write_inv[rotated 2])
next
  case (Dial_l gen addr)
  then show ?thesis using s dial_with_inv[OF inv, of L gen addr None False]
    by (cases "Listener_Dial L gen l addr") (auto simp: Listener_Dial_def unless_panic_def split: sum.splits go_error.splits)
next
  case (DialCrypto_l gen addr k)
  then show ?thesis using s dial_with_inv[OF inv, of L gen addr "Some k" True]
    by (cases "Listener_DialWithCrypto L gen l addr (Some k)")
       (auto simp: Listener_DialWithCrypto_def unless_panic_def split: sum.splits go_error.splits)
next
  case (Stream_l k sid)
  show ?thesis
    using s Stream_l
    by (intro on_conn_inv[OF inv, of k "\<lambda>c. Some (snd (Conn_Stream c sid))"]) (use Conn_Stream_inv[OF prod.collapse[symmetric]] in auto)
next
  case (Read_l k sid)
  show ?thesis
    using s Read_l by (intro on_stream_inv[OF inv, of k sid "\<lambda>c s. Some (snd (snd (Stream_Read c sid s)))"]) (use stream_ops_inv in auto)
next
  case (Ping_l k sid)
  show ?thesis using s Ping_l by (intro on_stream_inv[OF inv, of k sid "\<lambda>c s. Some (Stream_Ping c s)"]) (use stream_ops_inv in auto)
next
  case (CloseStream_l k sid)
  show ?thesis using s CloseStream_l by (intro on_stream_inv[OF inv, of k sid "\<lambda>c s. Some (Stream_Close c s)"]) (use stream_ops_inv in auto)
next
  case (CloseConn_l k)
  show ?thesis using s CloseConn_l by (intro on_conn_inv[OF inv, of k "\<lambda>c. Some (Conn_Close c)"]) (use Conn_Close_inv in auto)
qed

definition l_start :: "crypto_lib \<Rightarrow> Listener \<Rightarrow> bool" where
  "l_start L l \<longleftrightarrow> lib_ok L \<and> low_order_uniform L \<and> l_inv l"

interpretation lsys: invariant_system l0 "l_step L" l_ok "\<lambda>l. l_start L l0 \<longrightarrow> l_inv l" for l0 L
  by unfold_locales (auto simp: l_start_def intro: l_inv_step)

definition l_reachable :: "crypto_lib \<Rightarrow> Listener \<Rightarrow> Listener \<Rightarrow> bool" where
  "l_reachable L l0 = reachable l0 (guarded l_ok (l_step L))"

lemma l_reachable_inv: "l_reachable L l0 l \<Longrightarrow> l_start L l0 \<Longrightarrow> l_inv l"
  unfolding l_reachable_def using lsys.reachable_inv by blast

lemma Listen_start:
  assumes "Listen gen udp options = Inr l0" and "119 \<le> l_mtu l0" and "l_mtu l0 \<le> 65535" and "lib_ok L" and "low_order_uniform L"
  shows "l_start L l0"
proof -
  have "connMap l0 = lm_new" "currentConnID l0 = None" "currentStreamID l0 = None"
    using assms(1) by (auto simp: Listen_def and_then_eq_Inr split: option.splits)
  then show ?thesis using assms(2-5) by (simp add: l_start_def l_inv_def conns_ok_def)
qed

section \<open>Properties\<close>

text \<open>
  C10: In every state a listener reaches, by dialing, by whatever packets arrive, by flushes and
  by calls on its streams, each connection is stored under its own identifier, its packet
  counters are in their 47 and 48 bits, its send buffer is one its own operations reach, and
  the keys for the next packet are set.
\<close>
theorem listener_well_formed:
  assumes "lib_ok L" and "low_order_uniform L" and "Listen gen udp options = Inr l0" and "119 \<le> l_mtu l0" and "l_mtu l0 \<le> 65535"
    and "l_reachable L l0 l" and "conn_at l k = Some c"
  shows "connId c = k \<and> sn_inv c \<and> keys_ok c \<and> snd_buffer_ok (c_snd c) \<and> meas_inv (measurements c)"
proof -
  have "l_inv l" by (rule l_reachable_inv[OF assms(6) Listen_start[OF assms(3-5,1,2)]])
  then show ?thesis using conns_okD[OF _ assms(7)] by (simp add: l_inv_def conn_inv_def del: lm_reads)
qed

text \<open>
  C11: A flush of the listener never panics in such a state, whatever the peers have sent. It
  returns a delay of at most the default one, and every packet it writes is within the MTU and
  goes to the address of one of the connections.
\<close>
theorem listener_flush_safe:
  assumes "lib_ok L" and "low_order_uniform L" and "Listen gen udp options = Inr l0" and "119 \<le> l_mtu l0" and "l_mtu l0 \<le> 65535"
    and "l_reachable L l0 l" and "\<forall>at m. werr at \<noteq> Some (Panic m)"
  shows "\<exists>wait l' sent. Listener_Flush L werr ord l now = Inr (wait, l', sent) \<and> l_reachable L l0 l' \<and> wait \<le> MinDeadLine \<and>
    (\<forall>e \<in> set sent. int (length (snd e)) \<le> l_mtu l \<and> (\<exists>k c. conn_at l k = Some c \<and> fst e = remoteAddr c))"
proof -
  have "l_inv l" by (rule l_reachable_inv[OF assms(6) Listen_start[OF assms(3-5,1,2)]])
  then obtain wait l' sent where f: "Listener_Flush L werr ord l now = Inr (wait, l', sent)" "wait \<le> MinDeadLine"
    "\<forall>e \<in> set sent. int (length (snd e)) \<le> l_mtu l \<and> peer_addr l (fst e)"
    using Listener_Flush_ok[OF assms(1), of l werr ord now] assms(7) by blast
  have "guarded l_ok (l_step L) l (Flush_l werr ord now) = Some l'" using f(1) assms(7) by (simp add: guarded_def)
  then have "l_reachable L l0 l'" using reachable_step assms(6) unfolding l_reachable_def by metis
  then show ?thesis using f unfolding peer_addr_def by blast
qed

text \<open>The instance: a listener that has dialed a peer and opened a stream.\<close>

definition demo_flat_lib :: crypto_lib where
  "demo_flat_lib = demo_lib\<lparr>x25519 := \<lambda>a p. pad32 p\<rparr>"

lemma demo_flat_lib_ok: "lib_ok demo_flat_lib" "low_order_uniform demo_flat_lib"
  using demo_lib_ok by (simp_all add: lib_ok_def low_order_uniform_def demo_flat_lib_def demo_lib_def)

definition demo_fresh :: Listener where
  "demo_fresh = \<lparr>l_prvKeyId = replicate 32 3, connMap = lm_new, currentConnID = None, currentStreamID = None, l_closed = False,
     keyLogWriter = None, l_mtu = 1400\<rparr>"

lemma demo_fresh_listen: "Listen (Inr (replicate 32 3)) (\<lambda>_. Inr '''') [] = Inr demo_fresh"
  by (simp add: Listen_def fillListenOpts_def demo_fresh_def)

definition demo_dialed :: Listener where
  "demo_dialed = the (run (guarded l_ok (l_step demo_flat_lib)) demo_fresh [Dial_l (Inr (replicate 32 1)) ''peer'', Stream_l 9 0])"

lemma demo_dialed_run:
  "run (guarded l_ok (l_step demo_flat_lib)) demo_fresh [Dial_l (Inr (replicate 32 1)) ''peer'', Stream_l 9 0] = Some demo_dialed \<and>
   conn_at demo_dialed 9 \<noteq> None"
proof -
  have pk: "Uint64 (ecdh_PublicKey demo_flat_lib k) = Some 9" for k
    by (simp add: ecdh_PublicKey_def demo_flat_lib_def basepoint_def pad32_def u64c.get_eq)
  show ?thesis
    unfolding demo_dialed_def
    by (simp add: guarded_def Listener_Dial_def dial_with_def pk Listener_newConn_def demo_fresh_def unless_panic_def on_conn_def
        put_conn_def Conn_Stream_def mk_conn_def al_put_def Let_def)
qed

lemma demo_dialed_reachable: "l_reachable demo_flat_lib demo_fresh demo_dialed"
  unfolding l_reachable_def by (rule run_reachable[OF reachable_init conjunct1[OF demo_dialed_run]])

theorem listener_well_formed_witness: "\<exists>c. conn_at demo_dialed 9 = Some c \<and> connId c = 9 \<and> keys_ok c"
proof -
  obtain c where "conn_at demo_dialed 9 = Some c" using demo_dialed_run by blast
  moreover note demo_dialed_reachable
  ultimately show ?thesis
    using listener_well_formed[OF demo_flat_lib_ok demo_fresh_listen, of demo_dialed 9 c] by (auto simp: demo_fresh_def)
qed

theorem listener_flush_safe_witness:
  "\<exists>wait l' sent. Listener_Flush demo_flat_lib (\<lambda>_. None) (\<lambda>x. x) demo_dialed 50 = Inr (wait, l', sent) \<and> wait \<le> MinDeadLine"
proof -
  show ?thesis
    using demo_dialed_reachable listener_flush_safe[OF demo_flat_lib_ok demo_fresh_listen, of demo_dialed "\<lambda>_. None" "\<lambda>x. x" 50] by (auto simp: demo_fresh_def)
qed

end
