(* ===== verification/Handshake.thy ===== *)
theory Handshake
  imports Listener_System
begin

text \<open>
  Two listeners that exchange the packets of a handshake: the flush of one side, the reception
  by the other, its flush, and the reception of the reply.
\<close>

section \<open>Flushing a single stream\<close>

text \<open>A connection that has nothing to send on a stream but must send its first packet.\<close>

lemma Conn_Flush_first:
  assumes "snd_streams (c_snd c) (st_streamID s) = None" and "\<not> now < nextWriteTime c"
    and "dataInFlight c + env_mtu env \<le> go_int (rcvWndSize c)" and "\<not> isInitSentOnSnd c"
    and "ReceiveBuffer_GetSndAck (c_rcv c) = (ack0, rcv)"
  shows "Conn_Flush env c s now werr =
    Conn_writeAck env (c\<lparr>c_rcv := rcv\<rparr>) s
      (map_option (\<lambda>a. a\<lparr>ack_rcvWnd := word_of_int (rcv_capacity rcv) - word_of_int (ReceiveBuffer_Size rcv)\<rparr>) ack0) now werr"
  using assms by (simp add: Conn_Flush_def Let_def SendBuffer_ReadyToRetransmit_def flush_new_def SendBuffer_ReadyToSend_def)

lemma Conn_writeAck_init:
  assumes "snd_streams (c_snd c) (st_streamID s) = None" and "snCrypto c = 0" and "Conn_msgType c \<noteq> Data"
    and "encrypt_packet env c \<lparr>ph_IsClose = False, ph_Ack = ack, ph_StreamID = st_streamID s, ph_StreamOffset = 0\<rparr> None (Conn_msgType c) = Inr enc"
  shows "\<exists>pacing. Conn_writeAck env c s ack now None =
    (Inr (0, pacing), c\<lparr>isInitSentOnSnd := True, snCrypto := 1, nextWriteTime := now + pacing\<rparr>, Some enc)"
proof -
  have "checkStreamFullyAcked c (st_streamID s) = False"
    using assms(1) by (simp add: checkStreamFullyAcked_def SendBuffer_GetOffsetClosedAt_def)
  moreover obtain pacing where "calcPacing (measurements c) (len64 enc) = Some pacing" using calcPacing_some by blast
  ultimately show ?thesis
    using assms(2-4) by (simp add: Conn_writeAck_def Conn_encode_def next_sn_def write_packet_def Let_def)
qed

text \<open>A listener with one connection with one stream.\<close>

definition single :: "Listener \<Rightarrow> u64 \<Rightarrow> Conn \<Rightarrow> u32 \<Rightarrow> Stream \<Rightarrow> bool" where
  "single l cid c sid s \<longleftrightarrow> lm_entries (connMap l) = [(cid, c)] \<and> lm_entries (streams c) = [(sid, s)] \<and>
     currentConnID l = None \<and> currentStreamID l = None \<and> st_closedAtNano s = 0"

lemma Listener_Flush_single:
  assumes l: "single l cid c sid s" and ord: "ord [] = []"
    and f: "Conn_Flush (l_env L l) c s now (werr (cid, sid)) = (Inr (n, pacing), c', Some enc)" and same: "streams c' = streams c"
    and alive: "0 < n \<or> now \<le> lastReadTimeNano (measurements c') + ReadDeadLine \<or> lastReadTimeNano (measurements c') = 0"
  shows "\<exists>wait l'. Listener_Flush L werr ord l now = Inr (wait, l', [(remoteAddr c', enc)]) \<and> single l' cid c' sid s \<and>
    l_env L l' = l_env L l"
proof -
  have order: "nested_keys (map_option snd (currentStreamID l)) (lm_iterator (connMap l) (map_option snd (currentConnID l))) = [(cid, sid)]"
    using l by (simp add: single_def al_iterate_def)
  have get: "conn_at l cid = Some c" "lm_get (streams c) sid = Some s" "lm_size (connMap l) \<noteq> 0"
    using l by (simp_all add: single_def)
  have put: "single ((put_conn l cid c')\<lparr>currentConnID := None, currentStreamID := None\<rparr>) cid c' sid s"
    using l same by (simp add: single_def put_conn_def al_put_def)
  have put': "single (put_conn l cid c') cid c' sid s"
    using l same by (simp add: single_def put_conn_def al_put_def)
  show ?thesis
    using l get f alive put put' ord unfolding Listener_Flush_def order
    by (auto simp: flush_one_def single_def Let_def flush_cleanup_def l_env_def not_less simp del: lm_reads)
qed

section \<open>The plain handshake\<close>

abbreviation stream0 :: Stream where
  "stream0 \<equiv> \<lparr>st_streamID = 0, st_closedAtNano = 0\<rparr>"

text \<open>A connection just dialed, with its stream 0, and what the listener of the peer makes of the first packet.\<close>

definition dialed :: "u64 \<Rightarrow> string \<Rightarrow> prvKey \<Rightarrow> pubKey option \<Rightarrow> bool \<Rightarrow> Conn" where
  "dialed cid addr k ki wc = (mk_conn cid addr k ki None True wc)\<lparr>streams := lm_put lm_new 0 stream0\<rparr>"

text \<open>What a dialed connection is after its first packet: the times and windows do not matter here.\<close>

definition init_sent :: "Conn \<Rightarrow> u64 \<Rightarrow> Conn" where
  "init_sent c t = c\<lparr>isInitSentOnSnd := True, snCrypto := 1, nextWriteTime := t\<rparr>"

lemma plain_first_packet:
  assumes L: "lib_ok L" and mtu: "env_mtu env = int (65 + fill)" "env_mtu env \<le> 65535" and env: "env_lib env = L"
  shows "\<exists>pacing t. Conn_Flush env (dialed cid addr k None False) stream0 now None =
    (Inr (0, pacing), init_sent (dialed cid addr k None False) t,
     Some (header_byte InitSnd # ecdh_PublicKey L k @ ecdh_PublicKey L (env_prvKeyId env) @ replicate fill 0))"
proof -
  let ?c = "dialed cid addr k None False"
  let ?p = "\<lparr>ph_IsClose = False, ph_Ack = None, ph_StreamID = 0, ph_StreamOffset = 0\<rparr>"
  have "go_int (rcvWndSize ?c) = 16777216" by (simp add: dialed_def mk_conn_def rcvBufferCapacity_def go_int_def)
  then have "Conn_Flush env ?c stream0 now None = Conn_writeAck env ?c stream0 None now None"
    using mtu(2) Conn_Flush_first[of ?c stream0 now env None "NewReceiveBuffer rcvBufferCapacity" None]
    by (simp add: dialed_def mk_conn_def NewSendBuffer_def ReceiveBuffer_GetSndAck_def NewReceiveBuffer_def)
  moreover have "Conn_msgType ?c = InitSnd" by (simp add: dialed_def mk_conn_def Conn_msgType_def)
  moreover from this have "encrypt_packet env ?c ?p None (Conn_msgType ?c) =
      Inr (header_byte InitSnd # ecdh_PublicKey L k @ ecdh_PublicKey L (env_prvKeyId env) @ replicate fill 0)"
    using encryptInitSnd_eq[OF length_PublicKey[OF L] length_PublicKey[OF L] mtu(1)] env
    by (simp add: encrypt_packet_def dialed_def mk_conn_def Let_def)
  ultimately show ?thesis
    using Conn_writeAck_init[of ?c stream0 env None _ now] by (auto simp: init_sent_def dialed_def mk_conn_def NewSendBuffer_def)
qed

text \<open>The connection of the responder after the first packet.\<close>

definition accepted ::
  "u64 \<Rightarrow> string \<Rightarrow> prvKey \<Rightarrow> pubKey \<Rightarrow> pubKey \<Rightarrow> bool \<Rightarrow> bytes \<Rightarrow> Measurements \<Rightarrow> ReceiveBuffer \<Rightarrow> Conn" where
  "accepted cid addr k ki ke wc secret m rcv =
     (mk_conn cid addr k (Some ki) (Some ke) False wc)
       \<lparr>sharedSecret := Some secret, measurements := m, streams := lm_put lm_new 0 stream0, c_rcv := rcv\<rparr>"

definition read_at_time :: "u64 \<Rightarrow> Measurements" where
  "read_at_time t = NewMeasurements\<lparr>lastReadTimeNano := t\<rparr>"

text \<open>A listener without connections.\<close>

definition idle :: "Listener \<Rightarrow> bool" where
  "idle l \<longleftrightarrow> lm_entries (connMap l) = [] \<and> currentConnID l = None \<and> currentStreamID l = None \<and> keyLogWriter l = None"

lemma idle_newConn:
  assumes "idle l"
  shows "conn_for_init L (Inr k) l cid addr ki ke wc =
    (Inr (mk_conn cid addr k (Some ki) (Some ke) False wc), put_conn (put_conn l cid (mk_conn cid addr k (Some ki) (Some ke) False wc)) cid
       (mk_conn cid addr k (Some ki) (Some ke) False wc))"
  using assms by (simp add: idle_def conn_for_init_def Listener_newConn_def Let_def)

lemma idle_put_single:
  assumes "idle l" and "lm_entries (streams c) = [(sid, s)]" and "st_closedAtNano s = 0"
  shows "single (put_conn (put_conn (put_conn (put_conn (put_conn l cid c1) cid c2) cid c3) cid c4) cid c) cid c sid s"
  using assms by (simp add: idle_def single_def put_conn_def al_put_def)

lemma plain_accept:
  assumes L: "lib_ok L" and ls: "idle ls" and mtu: "l_mtu ls = int (65 + fill)" and t: "0 < now"
    and len: "length ke = 32" "length ki = 32" and sec: "ECDH L kS ke = Inr secret" and cid: "cid = le_word (take 8 ke)"
  shows "\<exists>ls'. Listener_Listen L (Inr kS) ls (ReadData (header_byte InitSnd # ke @ ki @ replicate fill 0) addr) now =
      (Inr (Some (cid, 0)), ls') \<and>
    single ls' cid (accepted cid addr kS ki ke False secret (read_at_time now)
      ((NewReceiveBuffer rcvBufferCapacity)\<lparr>ackList := [mkAck 0 0 0]\<rparr>)) 0 stream0 \<and> l_env L ls' = l_env L ls"
proof -
  let ?d = "header_byte InitSnd # ke @ ki @ replicate fill 0"
  let ?c = "mk_conn cid addr kS (Some ki) (Some ke) False False"
  have min: "MinPacketSize \<le> length ?d" using len by (simp add: crypto_consts MinProtoSize_def)
  have f: "packet_connId ?d = cid" "packet_kind ?d = Some InitSnd" "?d ! 0 AND 0x1F = CryptoVersion"
    using len cid by (simp_all add: packet_connId_def packet_kind_def)
  have dec: "Listener_decode L (Inr kS) ls ?d [] addr =
      (Inr (cid, [], InitSnd), put_conn (put_conn (put_conn ls cid ?c) cid ?c) cid (?c\<lparr>sharedSecret := Some secret\<rparr>))"
    using Listener_decode_by_kind[OF min f(3), of L "Inr kS" ls] f idle_newConn[OF ls, of L kS cid addr ki ke False]
      decryptInitSnd_split[of ke ki "l_mtu ls" "replicate fill 0" "header_byte InitSnd" "[]"] len mtu sec
    by (simp add: decode_InitSnd_def)
  have "take (nat (l_mtu ls)) ?d = ?d" "nat (l_mtu ls) - length ?d = 0" using len mtu by simp_all
  then have "Listener_Listen L (Inr kS) ls (ReadData ?d addr) now = listen_decoded
      (put_conn (put_conn (put_conn ls cid ?c) cid ?c) cid (?c\<lparr>sharedSecret := Some secret\<rparr>)) cid [] InitSnd (int (length ?d)) now"
    using mtu by (simp add: Listener_Listen_def Let_def dec)
  moreover have "measurements (?c\<lparr>sharedSecret := Some secret\<rparr>) = NewMeasurements" by (simp add: mk_conn_def)
  moreover have "Conn_decode (?c\<lparr>sharedSecret := Some secret, measurements := read_at_time now\<rparr>)
      \<lparr>ph_IsClose = False, ph_Ack = None, ph_StreamID = 0, ph_StreamOffset = 0\<rparr> (Some []) n now =
      Some (0, accepted cid addr kS ki ke False secret (read_at_time now) ((NewReceiveBuffer rcvBufferCapacity)\<lparr>ackList := [mkAck 0 0 0]\<rparr>))" for n
    by (simp add: Conn_decode_def Conn_Stream_def decode_data_def ReceiveBuffer_EmptyInsert_def accepted_def mk_conn_def NewReceiveBuffer_def Let_def)
  moreover have "handshake_after InitSnd (accepted cid addr kS ki ke False secret m rcv) = accepted cid addr kS ki ke False secret m rcv" for m rcv
    by (simp add: handshake_after_def accepted_def mk_conn_def)
  ultimately show ?thesis
    using t idle_put_single[OF ls, of _ 0 stream0]
    by (simp add: listen_decoded_def Let_def read_at_time_def NewMeasurements_def del: lm_reads)
       (simp add: accepted_def al_put_def l_env_def)
qed

subsection \<open>The reply\<close>

text \<open>The window of the responder goes into the acknowledgement.\<close>

definition with_window :: "ReceiveBuffer \<Rightarrow> Ack \<Rightarrow> Ack" where
  "with_window rcv a = a\<lparr>ack_rcvWnd := word_of_int (rcv_capacity rcv) - word_of_int (rcv_size rcv)\<rparr>"

definition ack_header :: "Ack \<Rightarrow> PayloadHeader" where
  "ack_header a = \<lparr>ph_IsClose = False, ph_Ack = Some a, ph_StreamID = 0, ph_StreamOffset = 0\<rparr>"

lemma accepted_fields [simp]:
  "Conn_msgType (accepted cid addr k ki ke wc secret m rcv) = (if wc then InitCryptoRcv else InitRcv)"
  "c_rcv (accepted cid addr k ki ke wc secret m rcv) = rcv" "measurements (accepted cid addr k ki ke wc secret m rcv) = m"
  "streams (accepted cid addr k ki ke wc secret m rcv) = lm_put lm_new 0 stream0"
  "sharedSecret (accepted cid addr k ki ke wc secret m rcv) = Some secret"
  "remoteAddr (accepted cid addr k ki ke wc secret m rcv) = addr"
  "(accepted cid addr k ki ke wc secret m rcv)\<lparr>c_rcv := rcv'\<rparr> = accepted cid addr k ki ke wc secret m rcv'"
  by (simp_all add: accepted_def mk_conn_def Conn_msgType_def)

lemma accepted_flush:
  assumes "ackList rcv = [a]" and "env_mtu env \<le> 65535"
    and "encrypt_packet env (accepted cid addr k ki ke wc secret m (rcv\<lparr>ackList := []\<rparr>)) (ack_header (with_window rcv a)) None
      (if wc then InitCryptoRcv else InitRcv) = Inr enc"
  shows "\<exists>pacing t. Conn_Flush env (accepted cid addr k ki ke wc secret m rcv) stream0 now None =
    (Inr (0, pacing), init_sent (accepted cid addr k ki ke wc secret m (rcv\<lparr>ackList := []\<rparr>)) t, Some enc)"
proof -
  let ?c = "accepted cid addr k ki ke wc secret m rcv" and ?c' = "accepted cid addr k ki ke wc secret m (rcv\<lparr>ackList := []\<rparr>)"
  have f: "snd_streams (c_snd ?c) 0 = None" "snd_streams (c_snd ?c') 0 = None" "snCrypto ?c' = 0" "nextWriteTime ?c = 0" "dataInFlight ?c = 0"
    "\<not> isInitSentOnSnd ?c" "go_int (rcvWndSize ?c) = 16777216"
    by (simp_all add: accepted_def mk_conn_def NewSendBuffer_def rcvBufferCapacity_def go_int_def)
  have "Conn_Flush env ?c stream0 now None = Conn_writeAck env ?c' stream0 (Some (with_window rcv a)) now None"
    using Conn_Flush_first[of ?c stream0 now env "Some a" "rcv\<lparr>ackList := []\<rparr>" None] f assms(1,2)
    by (simp add: ReceiveBuffer_GetSndAck_def with_window_def ReceiveBuffer_Size_def)
  then show ?thesis
    using Conn_writeAck_init[of ?c' stream0 env "Some (with_window rcv a)" enc now] f assms(3)
    by (cases wc) (auto simp: init_sent_def ack_header_def)
qed

text \<open>What the initiator makes of an acknowledgement of a stream on which it has sent nothing.\<close>

lemma plain_reply_payload:
  assumes "unat (ack_offset a) < 2 ^ 48"
  shows "\<exists>a'. DecodePayload (payloadBytes (ack_header a) None) = Inr (ack_header a', None) \<and>
    a' = a\<lparr>ack_rcvWnd := DecodeRcvWindow (EncodeRcvWindow (ack_rcvWnd a))\<rparr>"
  using DecodePayload_payloadBytes[of "ack_header a" None] assms
  by (simp add: ack_header_def offsetsFit_def transmitted_def isAckOnly_def Let_def)

definition conn_traffic :: "Conn \<Rightarrow> SendBuffer \<times> ReceiveBuffer \<times> u64 \<times> u64 \<times> u64" where
  "conn_traffic c = (c_snd c, c_rcv c, snCrypto c, epochCryptoSnd c, epochCryptoRcv c)"

abbreviation fresh_traffic :: "SendBuffer \<times> ReceiveBuffer \<times> u64 \<times> u64 \<times> u64" where
  "fresh_traffic \<equiv> (NewSendBuffer sndBufferCapacity, NewReceiveBuffer rcvBufferCapacity, 1, 0, 0)"

lemma Conn_decode_no_stream:
  assumes "lm_entries (streams c) = [(0, stream0)]" and "snd_streams (c_snd c) (ack_streamID a) = None" and "snd_streams (c_snd c) 0 = None"
  shows "\<exists>c'. Conn_decode c (ack_header a) None n now = Some (0, c') \<and> conn_ident c' = conn_ident c \<and> lm_entries (streams c') = [(0, stream0)] \<and>
    measurements c' = measurements c \<and> conn_traffic c' = conn_traffic c"
  using assms
  by (simp add: Conn_decode_def ack_header_def Conn_Stream_def decode_ack_def SendBuffer_AcknowledgeRange_def checkStreamFullyAcked_def
      SendBuffer_GetOffsetClosedAt_def decode_data_def conn_traffic_def Let_def)

definition reply_packet :: "crypto_lib \<Rightarrow> u64 \<Rightarrow> prvKey \<Rightarrow> pubKey \<Rightarrow> bytes \<Rightarrow> PayloadHeader \<Rightarrow> bytes" where
  "reply_packet L cid k pubId secret p =
     (let h = id_header InitRcv cid @ ecdh_PublicKey L k @ pubId in h @ sealed_with L secret 0 0 False h (payloadBytes p None))"

lemma length_ack_payload: "unat (ack_offset a) < 2 ^ 24 \<Longrightarrow> length (payloadBytes (ack_header a) None) = 11"
  by (simp add: ack_header_def payloadBytes_def isAckOnly_def ackBytes_def needsExtend_def offsetSize_def word_less_nat_alt not_less)

lemma reply_packet_made:
  assumes L: "lib_ok L" and sec: "ECDH L k ke = Inr secret" and small: "unat (ack_offset a) < 2 ^ 24"
    and env: "env_lib env = L" "length (ecdh_PublicKey L (env_prvKeyId env)) = 32"
  shows "encrypt_packet env (accepted cid addr k ki ke False secret m rcv) (ack_header a) None InitRcv =
    Inr (reply_packet L cid k (ecdh_PublicKey L (env_prvKeyId env)) secret (ack_header a))"
  using encryptInitRcv_eq[OF L _ env(2) sec, of "payloadBytes (ack_header a) None" cid 0] length_ack_payload[OF small] env
  by (simp add: encrypt_packet_def encode_payload_eq accepted_def mk_conn_def reply_packet_def Let_def)

lemma length_reply_packet:
  assumes "lib_ok L" and "length secret = 32" and "length pubId = 32" and "unat (ack_offset a) < 2 ^ 24"
  shows "length (reply_packet L cid k pubId secret (ack_header a)) = 106"
  using assms by (simp add: reply_packet_def Let_def length_sealed_with length_ack_payload length_PublicKey)

lemma listen_decoded_single:
  assumes l: "single l cid c0 sid s" and "lastReadTimeNano (measurements c) < now" and "DecodePayload pl = Inr (p, d)"
    and "Conn_decode (c\<lparr>measurements := (measurements c)\<lparr>lastReadTimeNano := now\<rparr>\<rparr>) p d n now = Some (sid', c')"
    and "lm_entries (streams c') = [(sid', s')]" and "st_closedAtNano s' = 0" and "ty \<noteq> InitSnd"
  shows "\<exists>l'. listen_decoded (put_conn l cid c) cid pl ty n now = (Inr (Some (cid, ph_StreamID p)), l') \<and>
    single l' cid (handshake_after ty c') sid' s' \<and> l_env L l' = l_env L l"
proof -
  have "streams (handshake_after ty c') = streams c'" by (simp add: handshake_after_def)
  then show ?thesis
    using assms by (simp add: listen_decoded_def single_def put_conn_def al_put_def l_env_def Let_def)
qed

lemma plain_reply_received:
  assumes L: "lib_ok L" and l: "single l cid (init_sent (dialed cid addr k None False) t) 0 stream0" and mtu: "106 \<le> l_mtu l" and now: "0 < now"
    and len: "length pubId = 32" and sec: "ECDH L kS (ecdh_PublicKey L k) = Inr secret" and small: "unat (ack_offset a) < 2 ^ 24"
  shows "\<exists>l' c'. Listener_Listen L gen l (ReadData (reply_packet L cid kS pubId secret (ack_header a)) addr') now = (Inr (Some (cid, 0)), l') \<and>
    single l' cid c' 0 stream0 \<and> conn_ident c' = (cid, addr, k, Some (ecdh_PublicKey L kS), Some pubId, Some secret, True, False, True) \<and>
    conn_traffic c' = fresh_traffic \<and> l_env L l' = l_env L l"
proof -
  let ?d = "reply_packet L cid kS pubId secret (ack_header a)" and ?c = "init_sent (dialed cid addr k None False) t"
  let ?pl = "payloadBytes (ack_header a) None" and ?sp = "replicate (nat (l_mtu l) - 106) 0"
  have ld: "length ?d = 106" by (rule length_reply_packet[OF L ECDH_length[OF L sec] len small])
  then have tk: "take (nat (l_mtu l)) ?d = ?d" using mtu by simp
  have hd: "\<exists>b. ?d = id_header InitRcv cid @ b" by (simp add: reply_packet_def Let_def)
  then have f: "packet_connId ?d = cid" "packet_kind ?d = Some InitRcv" "?d ! 0 AND 0x1F = CryptoVersion" by auto
  have d8: "8 \<le> length ?pl" using length_ack_payload[OF small] by simp
  obtain enc where enc: "encryptInitRcv L cid (Some pubId) (Some (ecdh_PublicKey L k)) (Some kS) 0 ?pl = Inr enc"
      "decryptInitRcv L enc ?sp k = Inr (secret, pubId, ecdh_PublicKey L kS, mk_message (0, 0, ?pl))"
    using handshake_replies[OF L d8 _ len sec, of 0 cid ?sp] by auto
  then have dec: "decryptInitRcv L ?d ?sp k = Inr (secret, pubId, ecdh_PublicKey L kS, mk_message (0, 0, ?pl))"
    using encryptInitRcv_eq[OF L d8 len sec, of cid 0] by (simp add: reply_packet_def Let_def)
  let ?c1 = "?c\<lparr>pubKeyIdRcv := Some pubId, pubKeyEpRcv := Some (ecdh_PublicKey L kS), sharedSecret := Some secret\<rparr>"
  have get: "conn_at l cid = Some ?c" "prvKeyEpSnd ?c = k" using l by (simp_all add: single_def init_sent_def dialed_def mk_conn_def)
  have "Listener_decode L gen l ?d ?sp addr' = (Inr (cid, ?pl, InitRcv), put_conn l cid ?c1)"
    using Listener_decode_by_kind[OF _ f(3), of L gen l ?sp addr'] f ld get dec
    by (simp add: decode_InitRcv_def mk_message_def crypto_consts MinProtoSize_def del: lm_reads)
  then have listen: "Listener_Listen L gen l (ReadData ?d addr') now = listen_decoded (put_conn l cid ?c1) cid ?pl InitRcv 106 now"
    using mtu ld by (auto simp: Listener_Listen_def Let_def tk)
  let ?c2 = "?c1\<lparr>measurements := (measurements ?c1)\<lparr>lastReadTimeNano := now\<rparr>\<rparr>"
  obtain a' where a': "DecodePayload ?pl = Inr (ack_header a', None)" using plain_reply_payload[of a] small by auto
  have c2: "lm_entries (streams ?c2) = [(0, stream0)]" "snd_streams (c_snd ?c2) x = None" "lastReadTimeNano (measurements ?c1) = 0" for x
    by (simp_all add: init_sent_def dialed_def mk_conn_def NewSendBuffer_def NewMeasurements_def al_put_def)
  obtain c3 where c3: "Conn_decode ?c2 (ack_header a') None 106 now = Some (0, c3)" "conn_ident c3 = conn_ident ?c2"
      "lm_entries (streams c3) = [(0, stream0)]" "conn_traffic c3 = conn_traffic ?c2"
    using Conn_decode_no_stream[OF c2(1,2,2)] by blast
  have tr: "conn_traffic (handshake_after InitRcv c3) = fresh_traffic"
    using c3(4) by (auto simp: conn_traffic_def handshake_after_def init_sent_def dialed_def mk_conn_def)
  have cid: "conn_ident ?c2 = (cid, addr, k, Some (ecdh_PublicKey L kS), Some pubId, Some secret, True, False, False)"
    by (simp add: conn_ident_def init_sent_def dialed_def mk_conn_def)
  have id: "conn_ident (handshake_after InitRcv c3) = (cid, addr, k, Some (ecdh_PublicKey L kS), Some pubId, Some secret, True, False, True)"
    using c3(2) cid by (auto simp: conn_ident_def handshake_after_def)
  obtain l' where "listen_decoded (put_conn l cid ?c1) cid ?pl InitRcv 106 now = (Inr (Some (cid, ph_StreamID (ack_header a'))), l')"
      "single l' cid (handshake_after InitRcv c3) 0 stream0" "l_env L l' = l_env L l"
    using listen_decoded_single[OF l _ a' c3(1,3), of InitRcv L] now c2(3) by auto
  then show ?thesis
    unfolding listen using tr id by (intro exI[of _ l'] exI[of _ "handshake_after InitRcv c3"]) (simp add: ack_header_def)
qed

subsection \<open>The whole exchange\<close>

definition head_id :: "bytes \<Rightarrow> u64" where
  "head_id pk = le_word (take 8 pk)"

lemma idle_dial:
  fixes k :: prvKey and addr :: string
  assumes L: "lib_ok L" and l: "idle l"
  defines "cid \<equiv> head_id (ecdh_PublicKey L k)"
  defines "c \<equiv> mk_conn cid addr k None None True False"
  shows "Listener_Dial L (Inr k) l addr = (Inr c, put_conn l cid c)"
    and "single (put_conn (put_conn l cid c) cid (snd (Conn_Stream c 0))) cid (dialed cid addr k None False) 0 stream0"
proof -
  have "Uint64 (ecdh_PublicKey L k) = Some cid"
    using length_PublicKey[OF L, of k] by (simp add: u64c.get_eq cid_def head_id_def)
  then show "Listener_Dial L (Inr k) l addr = (Inr c, put_conn l cid c)"
    using l by (simp add: Listener_Dial_def dial_with_def Listener_newConn_def idle_def Let_def c_def)
  show "single (put_conn (put_conn l cid c) cid (snd (Conn_Stream c 0))) cid (dialed cid addr k None False) 0 stream0"
    using l by (simp add: single_def idle_def put_conn_def Conn_Stream_def dialed_def c_def mk_conn_def al_put_def Let_def)
qed

lemma client_first_flush:
  assumes L: "lib_ok L" and l: "single l cid (dialed cid addr k None False) 0 stream0" and mtu: "l_mtu l = int (65 + fill)" "l_mtu l \<le> 65535"
  shows "\<exists>wait l' t. Listener_Flush L (\<lambda>_. None) id l now = Inr (wait, l',
      [(addr, header_byte InitSnd # ecdh_PublicKey L k @ ecdh_PublicKey L (l_prvKeyId l) @ replicate fill 0)]) \<and>
    single l' cid (init_sent (dialed cid addr k None False) t) 0 stream0 \<and> l_env L l' = l_env L l"
proof -
  obtain pacing t where f: "Conn_Flush (l_env L l) (dialed cid addr k None False) stream0 now None =
    (Inr (0, pacing), init_sent (dialed cid addr k None False) t,
     Some (header_byte InitSnd # ecdh_PublicKey L k @ ecdh_PublicKey L (l_prvKeyId l) @ replicate fill 0))"
    using plain_first_packet[OF L, where env = "l_env L l" and fill = fill and cid = cid and addr = addr and k = k and now = now] mtu by (auto simp: l_env_def)
  show ?thesis
    using Listener_Flush_single[OF l, of id, OF _ f]
    by (fastforce simp: init_sent_def dialed_def mk_conn_def NewMeasurements_def)
qed

lemma server_reply_flush:
  assumes L: "lib_ok L" and rcv: "rcv = (NewReceiveBuffer rcvBufferCapacity)\<lparr>ackList := [mkAck 0 0 0]\<rparr>"
    and l: "single l cid (accepted cid addr k ki ke False secret (read_at_time t) rcv) 0 stream0" and mtu: "l_mtu l \<le> 65535"
    and sec: "ECDH L k ke = Inr secret" and alive: "now \<le> t + ReadDeadLine"
  shows "\<exists>wait l' t'. Listener_Flush L (\<lambda>_. None) id l now = Inr (wait, l',
      [(addr, reply_packet L cid k (ecdh_PublicKey L (l_prvKeyId l)) secret (ack_header (with_window rcv (mkAck 0 0 0))))]) \<and>
    single l' cid (init_sent (accepted cid addr k ki ke False secret (read_at_time t) (NewReceiveBuffer rcvBufferCapacity)) t') 0 stream0 \<and>
    l_env L l' = l_env L l"
proof -
  let ?p = "reply_packet L cid k (ecdh_PublicKey L (l_prvKeyId l)) secret (ack_header (with_window rcv (mkAck 0 0 0)))"
  have "encrypt_packet (l_env L l) (accepted cid addr k ki ke False secret (read_at_time t) (rcv\<lparr>ackList := []\<rparr>))
      (ack_header (with_window rcv (mkAck 0 0 0))) None InitRcv = Inr ?p"
    using reply_packet_made[OF L sec, of "with_window rcv (mkAck 0 0 0)" "l_env L l"]
    by (simp add: l_env_def with_window_def length_PublicKey[OF L] mkAck_def)
  then obtain pacing t' where f: "Conn_Flush (l_env L l) (accepted cid addr k ki ke False secret (read_at_time t) rcv) stream0 now None =
    (Inr (0, pacing), init_sent (accepted cid addr k ki ke False secret (read_at_time t) (NewReceiveBuffer rcvBufferCapacity)) t', Some ?p)"
    using accepted_flush[of rcv "mkAck 0 0 0" "l_env L l" cid addr k ki ke False secret "read_at_time t" ?p now] rcv mtu
    by (auto simp: l_env_def NewReceiveBuffer_def)
  show ?thesis
    using Listener_Flush_single[OF l, of id, OF _ f] alive
    by (fastforce simp: init_sent_def read_at_time_def)
qed

lemma l_env_eqD: "l_env L l' = l_env L l \<Longrightarrow> l_mtu l' = l_mtu l \<and> l_prvKeyId l' = l_prvKeyId l"
  by (simp add: l_env_def)

lemma single_conn_at: "single l cid c sid s \<Longrightarrow> conn_at l cid = Some c"
  by (simp add: single_def)

text \<open>The exchange, with the state of both listeners after it.\<close>

lemma plain_exchange:
  assumes L: "lib_ok L" and idle: "idle lC" "idle lS" and mtu: "l_mtu lS = l_mtu lC" "119 \<le> l_mtu lC" "l_mtu lC \<le> 65535"
    and sec: "ECDH L kS (ecdh_PublicKey L kC) = Inr secret" and time: "0 < t2" "t3 \<le> t2 + ReadDeadLine" "0 < t4"
  shows "\<exists>cid c lC1 lC2 lC3 lS1 lS2 w1 w2 p1 p2 cC cS.
    Listener_Dial L (Inr kC) lC addrS = (Inr c, lC1) \<and> connId c = cid \<and> cid = head_id (ecdh_PublicKey L kC) \<and>
    Listener_Flush L (\<lambda>_. None) id (put_conn lC1 (cid) (snd (Conn_Stream c 0))) t1 = Inr (w1, lC2, [(addrS, p1)]) \<and>
    Listener_Listen L (Inr kS) lS (ReadData p1 addrC) t2 = (Inr (Some (cid, 0)), lS1) \<and>
    Listener_Flush L (\<lambda>_. None) id lS1 t3 = Inr (w2, lS2, [(addrC, p2)]) \<and>
    Listener_Listen L gen lC2 (ReadData p2 addrS) t4 = (Inr (Some (cid, 0)), lC3) \<and>
    single lC3 cid cC 0 stream0 \<and> single lS2 cid cS 0 stream0 \<and>
    conn_ident cC = (cid, addrS, kC, Some (ecdh_PublicKey L kS), Some (ecdh_PublicKey L (l_prvKeyId lS)), Some secret, True, False, True) \<and>
    conn_ident cS = (cid, addrC, kS, Some (ecdh_PublicKey L kC), Some (ecdh_PublicKey L (l_prvKeyId lC)), Some secret, False, False, False) \<and>
    conn_traffic cC = fresh_traffic \<and> conn_traffic cS = fresh_traffic \<and> isInitSentOnSnd cS \<and> l_mtu lC3 = l_mtu lC \<and> l_mtu lS2 = l_mtu lC"
proof -
  define cid where "cid = head_id (ecdh_PublicKey L kC)"
  let ?c = "mk_conn cid addrS kC None None True False" and ?rcv = "(NewReceiveBuffer rcvBufferCapacity)\<lparr>ackList := [mkAck 0 0 0]\<rparr>"
  let ?lC1 = "put_conn lC cid ?c" and ?lC1' = "put_conn (put_conn lC cid ?c) cid (snd (Conn_Stream ?c 0))"
  let ?a = "with_window ?rcv (mkAck 0 0 0)"
  obtain fill where fill: "l_mtu lC = int (65 + fill)" using mtu(2) by (auto intro: that[of "nat (l_mtu lC - 65)"])
  have mtu': "l_mtu ?lC1' = int (65 + fill)" "l_mtu ?lC1' \<le> 65535" "l_prvKeyId ?lC1' = l_prvKeyId lC"
    using fill mtu by (simp_all add: put_conn_def)
  note dial = idle_dial[OF L idle(1), of kC addrS, folded cid_def]
  obtain w1 lC2 t where s1: "Listener_Flush L (\<lambda>_. None) id ?lC1' t1 = Inr (w1, lC2,
      [(addrS, header_byte InitSnd # ecdh_PublicKey L kC @ ecdh_PublicKey L (l_prvKeyId lC) @ replicate fill 0)])"
      "single lC2 cid (init_sent (dialed cid addrS kC None False) t) 0 stream0" "l_env L lC2 = l_env L ?lC1'"
    using client_first_flush[OF L dial(2) mtu'(1,2), of t1] mtu'(3) by auto
  obtain lS1 where s2: "Listener_Listen L (Inr kS) lS (ReadData
        (header_byte InitSnd # ecdh_PublicKey L kC @ ecdh_PublicKey L (l_prvKeyId lC) @ replicate fill 0) addrC) t2 = (Inr (Some (cid, 0)), lS1)"
      "single lS1 cid (accepted cid addrC kS (ecdh_PublicKey L (l_prvKeyId lC)) (ecdh_PublicKey L kC) False secret (read_at_time t2) ?rcv) 0 stream0"
      "l_env L lS1 = l_env L lS"
    using plain_accept[OF L idle(2) _ time(1) length_PublicKey[OF L] length_PublicKey[OF L] sec, of fill cid] fill mtu(1)
    by (auto simp: cid_def head_id_def)
  let ?cS = "\<lambda>t'. init_sent (accepted cid addrC kS (ecdh_PublicKey L (l_prvKeyId lC)) (ecdh_PublicKey L kC) False secret (read_at_time t2)
    (NewReceiveBuffer rcvBufferCapacity)) t'"
  obtain w2 lS2 t' where s3: "Listener_Flush L (\<lambda>_. None) id lS1 t3 =
      Inr (w2, lS2, [(addrC, reply_packet L cid kS (ecdh_PublicKey L (l_prvKeyId lS)) secret (ack_header ?a))])"
      "single lS2 cid (?cS t') 0 stream0" "l_env L lS2 = l_env L lS1"
    using server_reply_flush[OF L refl s2(2) _ sec time(2)] l_env_eqD[OF s2(3)] mtu by auto
  have "106 \<le> l_mtu lC2" "unat (ack_offset ?a) < 2 ^ 24" using l_env_eqD[OF s1(3)] mtu' mtu fill by (simp_all add: with_window_def mkAck_def)
  from plain_reply_received[OF L s1(2) this(1) time(3) length_PublicKey[OF L] sec this(2), of gen _ addrS]
  obtain lC3 cC where s4: "Listener_Listen L gen lC2 (ReadData
        (reply_packet L cid kS (ecdh_PublicKey L (l_prvKeyId lS)) secret (ack_header ?a)) addrS) t4 = (Inr (Some (cid, 0)), lC3)"
      "single lC3 cid cC 0 stream0" "conn_ident cC = (cid, addrS, kC, Some (ecdh_PublicKey L kS), Some (ecdh_PublicKey L (l_prvKeyId lS)), Some secret, True, False, True)"
      "conn_traffic cC = fresh_traffic" "l_env L lC3 = l_env L lC2"
    by blast
  have idC: "connId ?c = cid" by (simp add: mk_conn_def)
  have idS: "conn_ident (?cS t') = (cid, addrC, kS, Some (ecdh_PublicKey L kC), Some (ecdh_PublicKey L (l_prvKeyId lC)), Some secret, False, False, False)"
    "conn_traffic (?cS t') = fresh_traffic" "isInitSentOnSnd (?cS t')"
    by (simp_all add: conn_ident_def conn_traffic_def init_sent_def accepted_def mk_conn_def)
  have mtus: "l_mtu lC3 = l_mtu lC" "l_mtu lS2 = l_mtu lC"
    using l_env_eqD[OF s1(3)] l_env_eqD[OF s2(3)] l_env_eqD[OF s3(3)] l_env_eqD[OF s4(5)] mtu' mtu(1) fill by simp_all
  show ?thesis
    by (intro exI conjI) (rule dial(1) idC cid_def s1(1) s2(1) s3(1) s4(1) s4(2) s3(2) s4(3) idS(1) s4(4) idS(2,3) mtus)+
qed

text \<open>
  C6: The handshake without known keys, run through two listeners: the initiator dials and opens
  stream 0, its flush sends one packet, the responder accepts it and opens the same connection,
  the flush of the responder sends one packet back, and the initiator accepts that. Then the
  initiator is done with the handshake, both sides hold the same secret, and each holds the
  identity key and the ephemeral key of the other. Both keep the connection under the identifier
  of the dial, the first eight bytes of the ephemeral key of the initiator; the identifier is not
  replaced by one made of the two identity keys, as the description of the protocol says. The
  responder is not done with the handshake yet: that takes a data packet. The reply must be
  flushed while the connection is alive.
\<close>
theorem plain_handshake:
  assumes L: "lib_ok L" and idle: "idle lC" "idle lS" and mtu: "l_mtu lS = l_mtu lC" "119 \<le> l_mtu lC" "l_mtu lC \<le> 65535"
    and sec: "ECDH L kS (ecdh_PublicKey L kC) = Inr secret" and time: "0 < t2" "t3 \<le> t2 + ReadDeadLine" "0 < t4"
  shows "\<exists>cid c lC1 lC2 lC3 lS1 lS2 w1 w2 p1 p2 cC cS.
    Listener_Dial L (Inr kC) lC addrS = (Inr c, lC1) \<and> connId c = cid \<and> cid = head_id (ecdh_PublicKey L kC) \<and>
    Listener_Flush L (\<lambda>_. None) id (put_conn lC1 (cid) (snd (Conn_Stream c 0))) t1 = Inr (w1, lC2, [(addrS, p1)]) \<and>
    Listener_Listen L (Inr kS) lS (ReadData p1 addrC) t2 = (Inr (Some (cid, 0)), lS1) \<and>
    Listener_Flush L (\<lambda>_. None) id lS1 t3 = Inr (w2, lS2, [(addrC, p2)]) \<and>
    Listener_Listen L gen lC2 (ReadData p2 addrS) t4 = (Inr (Some (cid, 0)), lC3) \<and>
    conn_at lC3 (cid) = Some cC \<and> conn_at lS2 (cid) = Some cS \<and>
    conn_ident cC = (cid, addrS, kC, Some (ecdh_PublicKey L kS), Some (ecdh_PublicKey L (l_prvKeyId lS)), Some secret, True, False, True) \<and>
    conn_ident cS = (cid, addrC, kS, Some (ecdh_PublicKey L kC), Some (ecdh_PublicKey L (l_prvKeyId lC)), Some secret, False, False, False)"
  using plain_exchange[OF assms, of addrS t1 addrC gen] single_conn_at by blast

theorem plain_handshake_witness:
  "\<exists>secret c lC1 lC2 lC3 lS1 lS2 w1 w2 p1 p2 cC cS.
    Listener_Dial demo_lib (Inr (replicate 32 1)) demo_fresh ''server'' = (Inr c, lC1) \<and>
    Listener_Flush demo_lib (\<lambda>_. None) id (put_conn lC1 (connId c) (snd (Conn_Stream c 0))) 0 = Inr (w1, lC2, [(''server'', p1)]) \<and>
    Listener_Listen demo_lib (Inr (replicate 32 2)) demo_fresh (ReadData p1 ''client'') 1 = (Inr (Some (connId c, 0)), lS1) \<and>
    Listener_Flush demo_lib (\<lambda>_. None) id lS1 2 = Inr (w2, lS2, [(''client'', p2)]) \<and>
    Listener_Listen demo_lib (Inr []) lC2 (ReadData p2 ''server'') 3 = (Inr (Some (connId c, 0)), lC3) \<and>
    conn_at lC3 (connId c) = Some cC \<and> conn_at lS2 (connId c) = Some cS \<and>
    sharedSecret cC = Some secret \<and> sharedSecret cS = Some secret \<and> isHandshakeDoneOnRcv cC"
proof -
  obtain secret where sec: "ECDH demo_lib (replicate 32 2) (ecdh_PublicKey demo_lib (replicate 32 1)) = Inr secret"
    using demo_ECDH by blast
  have f: "idle demo_fresh" "119 \<le> l_mtu demo_fresh" "l_mtu demo_fresh \<le> 65535" by (simp_all add: demo_fresh_def idle_def)
  have t: "(0 :: u64) < 1" "(2 :: u64) \<le> 1 + ReadDeadLine" "(0 :: u64) < 3" by (simp_all add: ReadDeadLine_def secondNano_def)
  show ?thesis
    using plain_handshake[OF demo_lib_ok f(1,1) refl f(2,3) sec t, of "''server''" 0 "''client''" "Inr []"]
    unfolding conn_ident_def prod.inject by blast
qed

end
