(* ===== verification/First_Flight.thy ===== *)
theory First_Flight
  imports Handshake
begin

text \<open>
  A connection to a listener whose identity key is known: the first packet already carries data,
  and the application of the responder can read it before any reply.
\<close>

section \<open>The packet of the initiator\<close>

lemma fresh_send:
  assumes d: "d \<noteq> []" "int (length d) + 97 \<le> mtu" "mtu \<le> 65535"
    and sb: "snd_streams sb 0 = Some (NewStreamBuffer\<lparr>queuedData := d\<rparr>)"
  shows "\<exists>sb'. SendBuffer_ReadyToSend sb 0 InitCryptoSnd None mtu now = ((Some d, 0, False), sb')"
proof -
  have m: "maxData InitCryptoSnd None mtu 0 = int (nat (mtu - 97))"
    using d(2) by (simp add: maxData_def calcCryptoOverheadWithData_def calcProtoOverhead_def crypto_consts Let_def)
  have "unat (min (word_of_int (int (nat (mtu - 97)))) (word_of_nat (length d)) :: u64) = length d"
    using ReadyToSend_packet(1)[OF _ _ refl, of "nat (mtu - 97)" "length d"] d by simp
  moreover have "packetKey_offset (createPacketKey 0 n) = 0" for n by simp
  ultimately show ?thesis
    using d(1) sb m unfolding SendBuffer_ReadyToSend_def
    by (simp add: NewStreamBuffer_def Let_def del: packetKey_offset_create)
qed

definition packet_start :: PayloadHeader where
  "packet_start = \<lparr>ph_IsClose = False, ph_Ack = None, ph_StreamID = 0, ph_StreamOffset = 0\<rparr>"

text \<open>The connection after dialing with a known key and writing on stream 0.\<close>

definition with_data :: "u64 \<Rightarrow> string \<Rightarrow> prvKey \<Rightarrow> pubKey \<Rightarrow> bytes \<Rightarrow> Conn" where
  "with_data cid addr k ki d = (dialed cid addr k (Some ki) True)
     \<lparr>c_snd := (snd_put_stream (NewSendBuffer sndBufferCapacity) 0 (NewStreamBuffer\<lparr>queuedData := d\<rparr>))\<lparr>snd_size := int (length d)\<rparr>\<rparr>"

lemma write_first:
  assumes "d \<noteq> []" and "int (length d) \<le> 65535"
  shows "Stream_Write (dialed cid addr k (Some ki) True) stream0 d None = Some ((int (length d), None), with_data cid addr k ki d)"
  using assms QueueData_eq[of "NewSendBuffer sndBufferCapacity" 0 d]
  by (simp add: Stream_Write_def with_data_def dialed_def mk_conn_def SendBuffer_GetOffsetClosedAt_def NewSendBuffer_def snd_getOrCreateStream_def
      NewStreamBuffer_def sndBufferCapacity_def)

text \<open>The sealed packet, which starts with the ephemeral key and is opened by the identity key of the peer.\<close>

lemma first_data_sealed:
  assumes L: "lib_ok L" and d: "8 \<le> length pl" "int (length pl) + 89 \<le> mtu" "mtu \<le> 65535" and id: "length pubId = 32"
    and key: "ECDH L k (ecdh_PublicKey L kId) = Inr s"
  shows "\<exists>rest. encryptInitCryptoSnd L (Some (ecdh_PublicKey L kId)) (Some pubId) (Some k) 0 mtu pl =
      Inr (le_word (take 8 (ecdh_PublicKey L k)), header_byte InitCryptoSnd # ecdh_PublicKey L k @ rest) \<and>
    int (length (header_byte InitCryptoSnd # ecdh_PublicKey L k @ rest)) = mtu \<and>
    (\<forall>spare. decryptInitCryptoSnd L (header_byte InitCryptoSnd # ecdh_PublicKey L k @ rest) spare kId mtu =
       Inr (pubId, ecdh_PublicKey L k, mk_message (0, 0, pl)))"
proof -
  let ?enc = "encryptInitCryptoSnd L (Some (ecdh_PublicKey L kId)) (Some pubId) (Some k) 0 mtu pl"
  have fill: "mtu = int (89 + length pl + nat (mtu - int (length pl) - 89))" using d(2) by simp
  obtain rest where rest: "?enc = Inr (le_word (take 8 (ecdh_PublicKey L k)), header_byte InitCryptoSnd # ecdh_PublicKey L k @ rest)"
    using encryptInitCryptoSnd_eq[OF L id key fill d(1), of 0] by auto
  have "\<exists>enc. ?enc = Inr (le_word (take 8 (ecdh_PublicKey L k)), enc) \<and> int (length enc) = mtu \<and>
      decryptInitCryptoSnd L enc spare kId mtu = Inr (pubId, ecdh_PublicKey L k, mk_message (0, 0, pl))" for spare
    using crypto_init_decrypts[OF L d(1) _ id key d(2), of 0 spare] d(3) by simp
  then show ?thesis using rest by auto
qed

lemma first_data_flush:
  assumes L: "lib_ok L" and env: "env_lib env = L" "env_mtu env = mtu" and d: "d \<noteq> []" "int (length d) + 97 \<le> mtu" "mtu \<le> 65535"
    and enc: "encryptInitCryptoSnd L (Some ki) (Some (ecdh_PublicKey L (env_prvKeyId env))) (Some k) 0 mtu
      (payloadBytes (packet_start) (Some d)) = Inr (x, enc)"
  shows "\<exists>pacing c'. Conn_Flush env (with_data cid addr k ki d) stream0 now None = (Inr (int (length d), pacing), c', Some enc) \<and>
    streams c' = lm_put lm_new 0 stream0 \<and> remoteAddr c' = addr \<and> lastReadTimeNano (measurements c') = 0"
proof -
  let ?c = "with_data cid addr k ki d"
  have "snd_streams (c_snd ?c) 0 = Some (NewStreamBuffer\<lparr>queuedData := d\<rparr>)" by (simp add: with_data_def snd_put_stream_def)
  from fresh_send[OF d this] obtain sb' where
    send: "SendBuffer_ReadyToSend (c_snd ?c) 0 InitCryptoSnd None mtu now = ((Some d, 0, False), sb')" by blast
  have rt: "SendBuffer_ReadyToRetransmit (c_snd ?c) 0 None mtu r InitCryptoSnd now = Inr ((None, 0, False), c_snd ?c)" for r
    by (simp add: SendBuffer_ReadyToRetransmit_def with_data_def snd_put_stream_def NewStreamBuffer_def entry_result_def)
  have f: "Conn_msgType ?c = InitCryptoSnd" "\<not> isInitSentOnSnd ?c" "go_int (rcvWndSize ?c) = 16777216" "dataInFlight ?c = 0"
    "nextWriteTime ?c = 0" "ReceiveBuffer_GetSndAck (c_rcv ?c) = (None, c_rcv ?c)" "snCrypto ?c = 0" "pubKeyIdRcv ?c = Some ki" "prvKeyEpSnd ?c = k"
    "streams ?c = lm_put lm_new 0 stream0" "remoteAddr ?c = addr" "lastReadTimeNano (measurements ?c) = 0"
    by (simp_all add: with_data_def dialed_def mk_conn_def Conn_msgType_def rcvBufferCapacity_def go_int_def ReceiveBuffer_GetSndAck_def
        NewReceiveBuffer_def NewMeasurements_def)
  obtain pacing where "calcPacing (measurements ?c) (len64 enc) = Some pacing" using calcPacing_some by blast
  then show ?thesis
    using send rt f enc env d(3)
    by (simp add: Conn_Flush_def flush_new_def Conn_sendPacket_def Conn_encode_def encrypt_packet_def encode_payload_eq next_sn_def write_packet_def
        packet_start_def Let_def)
qed

section \<open>What the responder makes of it\<close>

lemma fresh_insert:
  assumes "d \<noteq> []" and "length d \<le> 65535"
  shows "\<exists>rb. ReceiveBuffer_Insert (NewReceiveBuffer rcvBufferCapacity) 0 0 now d = Some (RcvInsertOk, rb) \<and>
    fst (ReceiveBuffer_RemoveOldestInOrder rb 0) = (0, Some d, now) \<and> ReceiveBuffer_GetOffsetClosedAt rb 0 = None"
proof -
  have "unat (len64 d) = length d" using assms(2) by (simp add: unat_of_nat_small)
  then have "len64 d \<noteq> 0" using assms(1) by (metis length_0_conv unat_0)
  then show ?thesis
    using assms by (simp add: rcv_eval rcvBufferCapacity_def ReceiveBuffer_RemoveOldestInOrder_def ReceiveBuffer_GetOffsetClosedAt_def)
qed

lemma packet_start_decoded: "DecodePayload (payloadBytes packet_start (Some d)) = Inr (packet_start, Some d)"
  using DecodePayload_payloadBytes[of packet_start "Some d"]
  by (simp add: packet_start_def offsetsFit_def transmitted_def isAckOnly_def Let_def)

lemma length_first_payload: "length (payloadBytes packet_start (Some d)) = length d + 8"
  by (simp add: payloadBytes_def packet_start_def isAckOnly_def streamBytes_def needsExtend_def offsetSize_def)

lemma crypto_accept:
  assumes ls: "idle ls" and t: "0 < now" and len: "length ke = 32" "int (length (header_byte InitCryptoSnd # ke @ rest)) = l_mtu ls"
    and dec: "\<And>spare. decryptInitCryptoSnd L (header_byte InitCryptoSnd # ke @ rest) spare (l_prvKeyId ls) (l_mtu ls) =
      Inr (ki, ke, mk_message (0, 0, payloadBytes packet_start (Some d)))"
    and d: "d \<noteq> []" "length d \<le> 65535" and sec: "ECDH L kS ke = Inr secret" and cid: "cid = head_id ke" and mtu: "119 \<le> l_mtu ls"
  shows "\<exists>ls' cS. Listener_Listen L (Inr kS) ls (ReadData (header_byte InitCryptoSnd # ke @ rest) addr) now = (Inr (Some (cid, 0)), ls') \<and>
    single ls' cid cS 0 stream0 \<and> fst (Stream_Read cS 0 stream0) = (Some d, None) \<and>
    conn_ident cS = (cid, addr, kS, Some ke, Some ki, Some secret, False, True, False)"
proof -
  let ?d = "header_byte InitCryptoSnd # ke @ rest" and ?pl = "payloadBytes packet_start (Some d)"
  let ?c = "mk_conn cid addr kS (Some ki) (Some ke) False True"
  have min: "MinPacketSize \<le> length ?d" using mtu len(2) by (simp add: crypto_consts MinProtoSize_def)
  have f: "packet_connId ?d = cid" "packet_kind ?d = Some InitCryptoSnd" "?d ! 0 AND 0x1F = CryptoVersion"
    using len cid by (simp_all add: packet_connId_def packet_kind_def head_id_def)
  define l1 where "l1 = put_conn (put_conn ls cid ?c) cid ?c"
  have decode: "Listener_decode L (Inr kS) ls ?d spare addr = (Inr (cid, ?pl, InitCryptoSnd), put_conn l1 cid (?c\<lparr>sharedSecret := Some secret\<rparr>))" for spare
    using Listener_decode_by_kind[OF min f(3), of L "Inr kS" ls spare addr] f idle_newConn[OF ls, of L kS cid addr ki ke True] dec[of spare] sec
    by (simp add: decode_InitCryptoSnd_def l1_def mk_message_def mk_conn_def)
  obtain rb where rb: "ReceiveBuffer_Insert (NewReceiveBuffer rcvBufferCapacity) 0 0 now d = Some (RcvInsertOk, rb)"
    "fst (ReceiveBuffer_RemoveOldestInOrder rb 0) = (0, Some d, now)" "ReceiveBuffer_GetOffsetClosedAt rb 0 = None"
    using fresh_insert[OF d] by blast
  define cS where "cS = accepted cid addr kS ki ke True secret (read_at_time now) rb"
  have conn: "Conn_decode (?c\<lparr>sharedSecret := Some secret, measurements := read_at_time now\<rparr>) packet_start (Some d) n now = Some (0, cS)" for n
    using d(1) rb(1) by (simp add: Conn_decode_def Conn_Stream_def decode_data_def packet_start_def cS_def accepted_def mk_conn_def Let_def)
  define l2 where "l2 = put_conn (put_conn l1 cid (?c\<lparr>sharedSecret := Some secret\<rparr>)) cid (?c\<lparr>sharedSecret := Some secret, measurements := read_at_time now\<rparr>)"
  have hs: "handshake_after InitCryptoSnd cS = cS" by (simp add: handshake_after_def cS_def accepted_def mk_conn_def)
  have "take (nat (l_mtu ls)) ?d = ?d" "nat (l_mtu ls) - length ?d = 0" "\<not> l_mtu ls < 0" using len(2) by simp_all
  then have "Listener_Listen L (Inr kS) ls (ReadData ?d addr) now =
      listen_decoded (put_conn l1 cid (?c\<lparr>sharedSecret := Some secret\<rparr>)) cid ?pl InitCryptoSnd (int (length ?d)) now"
    by (simp add: Listener_Listen_def Let_def decode)
  moreover have "listen_decoded (put_conn l1 cid (?c\<lparr>sharedSecret := Some secret\<rparr>)) cid ?pl InitCryptoSnd n now = (Inr (Some (cid, 0)), put_conn l2 cid cS)" for n
  proof -
    have "measurements (?c\<lparr>sharedSecret := Some secret\<rparr>) = NewMeasurements" "NewMeasurements\<lparr>lastReadTimeNano := now\<rparr> = read_at_time now"
      "lastReadTimeNano NewMeasurements = 0" "ph_StreamID packet_start = 0"
      by (simp_all add: mk_conn_def read_at_time_def NewMeasurements_def packet_start_def)
    then show ?thesis
      using t conn hs packet_start_decoded[of d] by (simp add: listen_decoded_def Let_def l2_def del: lm_reads)
  qed
  moreover have "single (put_conn l2 cid cS) cid cS 0 stream0"
    using idle_put_single[OF ls, of cS 0 stream0] by (simp add: l2_def l1_def cS_def al_put_def)
  moreover have "fst (Stream_Read cS 0 stream0) = (Some d, None)"
    using rb(2,3) by (cases "ReceiveBuffer_RemoveOldestInOrder rb 0") (simp add: Stream_Read_def cS_def Let_def)
  moreover have "conn_ident cS = (cid, addr, kS, Some ke, Some ki, Some secret, False, True, False)"
    by (simp add: conn_ident_def cS_def accepted_def mk_conn_def)
  ultimately show ?thesis by metis
qed

section \<open>From the write to the read\<close>

lemma idle_dial_crypto:
  fixes k :: prvKey and addr :: string and ki :: pubKey
  assumes L: "lib_ok L" and l: "idle l"
  defines "cid \<equiv> head_id (ecdh_PublicKey L k)"
  defines "c \<equiv> mk_conn cid addr k (Some ki) None True True"
  shows "Listener_DialWithCrypto L (Inr k) l addr (Some ki) = (Inr c, put_conn l cid c)"
    and "snd (Conn_Stream c 0) = dialed cid addr k (Some ki) True" and "fst (Conn_Stream c 0) = stream0"
    and "single (put_conn (put_conn l cid c) cid (with_data cid addr k ki d)) cid (with_data cid addr k ki d) 0 stream0"
proof -
  have "Uint64 (ecdh_PublicKey L k) = Some cid"
    using length_PublicKey[OF L, of k] by (simp add: u64c.get_eq cid_def head_id_def)
  then show "Listener_DialWithCrypto L (Inr k) l addr (Some ki) = (Inr c, put_conn l cid c)"
    using l by (simp add: Listener_DialWithCrypto_def dial_with_def Listener_newConn_def idle_def Let_def c_def)
  show "snd (Conn_Stream c 0) = dialed cid addr k (Some ki) True" "fst (Conn_Stream c 0) = stream0"
    by (simp_all add: Conn_Stream_def dialed_def c_def mk_conn_def Let_def)
  show "single (put_conn (put_conn l cid c) cid (with_data cid addr k ki d)) cid (with_data cid addr k ki d) 0 stream0"
    using l by (simp add: single_def idle_def put_conn_def with_data_def dialed_def al_put_def)
qed

text \<open>
  C8: Data in the first packet: the initiator knows the identity key of the listener, dials with
  it, writes data that fits one packet on stream 0 and flushes. The one packet sent fills the
  MTU, the responder accepts it and opens the connection, and the next read of stream 0 on its
  side returns exactly the data. The responder has learnt the identity key of the initiator.
\<close>
theorem first_packet_delivers:
  assumes L: "lib_ok L" and idle: "idle lC" "idle lS" and mtu: "l_mtu lS = l_mtu lC" "119 \<le> l_mtu lC" "l_mtu lC \<le> 65535"
    and d: "d \<noteq> []" "int (length d) + 97 \<le> l_mtu lC" and t: "0 < t2"
    and key: "ECDH L kC (ecdh_PublicKey L (l_prvKeyId lS)) = Inr s" and sec: "ECDH L kS (ecdh_PublicKey L kC) = Inr secret"
  shows "\<exists>c c1 lC1 lC2 lS1 cS p w.
    Listener_DialWithCrypto L (Inr kC) lC addrS (Some (ecdh_PublicKey L (l_prvKeyId lS))) = (Inr c, lC1) \<and>
    Stream_Write (snd (Conn_Stream c 0)) (fst (Conn_Stream c 0)) d None = Some ((int (length d), None), c1) \<and>
    Listener_Flush L (\<lambda>_. None) id (put_conn lC1 (connId c) c1) t1 = Inr (w, lC2, [(addrS, p)]) \<and> int (length p) = l_mtu lC \<and>
    Listener_Listen L (Inr kS) lS (ReadData p addrC) t2 = (Inr (Some (connId c, 0)), lS1) \<and>
    conn_at lS1 (connId c) = Some cS \<and> fst (Stream_Read cS 0 stream0) = (Some d, None) \<and>
    pubKeyIdRcv cS = Some (ecdh_PublicKey L (l_prvKeyId lC)) \<and> sharedSecret cS = Some secret"
proof -
  let ?ki = "ecdh_PublicKey L (l_prvKeyId lS)" and ?ke = "ecdh_PublicKey L kC" and ?pl = "payloadBytes packet_start (Some d)"
  define cid where "cid = head_id ?ke"
  let ?c = "mk_conn cid addrS kC (Some ?ki) None True True" and ?c1 = "with_data cid addrS kC ?ki d"
  let ?l = "put_conn (put_conn lC cid ?c) cid ?c1"
  note dial = idle_dial_crypto(1-3)[OF L idle(1), where k = kC and addr = addrS and ki = ?ki, folded cid_def]
    idle_dial_crypto(4)[OF L idle(1), where k = kC and addr = addrS and ki = ?ki and d = d, folded cid_def]
  have wr: "Stream_Write (dialed cid addrS kC (Some ?ki) True) stream0 d None = Some ((int (length d), None), ?c1)"
    using write_first[OF d(1)] d(2) mtu(3) by simp
  have env: "env_lib (l_env L ?l) = L" "env_mtu (l_env L ?l) = l_mtu lC" "env_prvKeyId (l_env L ?l) = l_prvKeyId lC"
    by (simp_all add: l_env_def put_conn_def)
  obtain rest where rest: "encryptInitCryptoSnd L (Some ?ki) (Some (ecdh_PublicKey L (l_prvKeyId lC))) (Some kC) 0 (l_mtu lC) ?pl =
        Inr (le_word (take 8 ?ke), header_byte InitCryptoSnd # ?ke @ rest)"
      "int (length (header_byte InitCryptoSnd # ?ke @ rest)) = l_mtu lC"
      "\<And>spare. decryptInitCryptoSnd L (header_byte InitCryptoSnd # ?ke @ rest) spare (l_prvKeyId lS) (l_mtu lC) =
        Inr (ecdh_PublicKey L (l_prvKeyId lC), ?ke, mk_message (0, 0, ?pl))"
    using first_data_sealed[OF L _ _ mtu(3) length_PublicKey[OF L, of "l_prvKeyId lC"] key, where pl = ?pl] d(2)
    by (auto simp: length_first_payload)
  obtain pacing c' where fl: "Conn_Flush (l_env L ?l) ?c1 stream0 t1 None = (Inr (int (length d), pacing), c', Some (header_byte InitCryptoSnd # ?ke @ rest))"
      "streams c' = streams ?c1" "remoteAddr c' = addrS" "lastReadTimeNano (measurements c') = 0"
    using first_data_flush[OF L env(1,2) d mtu(3) rest(1)[folded env(3)], where cid = cid and addr = addrS and now = t1] by (auto simp: with_data_def dialed_def)
  obtain w lC2 where s1: "Listener_Flush L (\<lambda>_. None) id ?l t1 = Inr (w, lC2, [(addrS, header_byte InitCryptoSnd # ?ke @ rest)])"
    using Listener_Flush_single[OF dial(4), of id, OF _ fl(1,2)] fl(3,4) by auto
  obtain lS1 cS where s2: "Listener_Listen L (Inr kS) lS (ReadData (header_byte InitCryptoSnd # ?ke @ rest) addrC) t2 = (Inr (Some (cid, 0)), lS1)"
      "single lS1 cid cS 0 stream0" "fst (Stream_Read cS 0 stream0) = (Some d, None)"
      "conn_ident cS = (cid, addrC, kS, Some ?ke, Some (ecdh_PublicKey L (l_prvKeyId lC)), Some secret, False, True, False)"
    using crypto_accept[OF idle(2) t length_PublicKey[OF L] rest(2)[folded mtu(1)] rest(3)[folded mtu(1)] d(1) _ sec cid_def, where addr = addrC] d(2) mtu by auto
  have id: "connId ?c = cid" by (simp add: mk_conn_def)
  have "pubKeyIdRcv cS = Some (ecdh_PublicKey L (l_prvKeyId lC))" "sharedSecret cS = Some secret" using s2(4) by (simp_all add: conn_ident_def)
  then show ?thesis
    using dial(1) wr[folded dial(2,3)] s1 rest(2) s2(1,3) single_conn_at[OF s2(2)] id by metis
qed

theorem first_packet_delivers_witness:
  "\<exists>c c1 lC1 lC2 lS1 cS p w.
    Listener_DialWithCrypto demo_lib (Inr (replicate 32 2)) demo_fresh ''server'' (Some (ecdh_PublicKey demo_lib (replicate 32 1))) = (Inr c, lC1) \<and>
    Stream_Write (snd (Conn_Stream c 0)) (fst (Conn_Stream c 0)) [7, 8] None = Some ((2, None), c1) \<and>
    Listener_Flush demo_lib (\<lambda>_. None) id (put_conn lC1 (connId c) c1) 5 = Inr (w, lC2, [(''server'', p)]) \<and>
    Listener_Listen demo_lib (Inr (replicate 32 1)) (demo_fresh\<lparr>l_prvKeyId := replicate 32 1\<rparr>) (ReadData p ''client'') 6 =
      (Inr (Some (connId c, 0)), lS1) \<and>
    conn_at lS1 (connId c) = Some cS \<and> fst (Stream_Read cS 0 stream0) = (Some [7, 8], None)"
proof -
  let ?lS = "demo_fresh\<lparr>l_prvKeyId := replicate 32 1\<rparr>"
  obtain s where s: "ECDH demo_lib (replicate 32 2) (ecdh_PublicKey demo_lib (replicate 32 1)) = Inr s" using demo_ECDH by blast
  then have s': "ECDH demo_lib (replicate 32 1) (ecdh_PublicKey demo_lib (replicate 32 2)) = Inr s" using ECDH_agree[OF demo_lib_ok] by simp
  have f: "idle demo_fresh" "idle ?lS" "l_mtu ?lS = l_mtu demo_fresh" "119 \<le> l_mtu demo_fresh" "l_mtu demo_fresh \<le> 65535"
    "int (length [7, 8 :: u8]) + 97 \<le> l_mtu demo_fresh" "int (length [7, 8 :: u8]) = 2" "l_prvKeyId ?lS = replicate 32 1"
    by (simp_all add: demo_fresh_def idle_def)
  have key: "ECDH demo_lib (replicate 32 2) (ecdh_PublicKey demo_lib (l_prvKeyId ?lS)) = Inr s" using s by simp
  have t: "[7, 8 :: u8] \<noteq> []" "(0 :: u64) < 6" by simp_all
  show ?thesis
    using first_packet_delivers[OF demo_lib_ok f(1-5) t(1) f(6) t(2) key s', of "''server''" 5 "''client''", unfolded f(7,8)] by blast
qed

end
