(* ===== verification/Transport.thy ===== *)
theory Transport
  imports Conn
begin

text \<open>
  The send buffer of one side, the receive buffer of the other, and the network between them.
  Packets are the encoded payloads: the network keeps every payload ever sent, and delivers any
  of them at any time, again, out of order or never. Acknowledgements go back the same way.
\<close>

record transport =
  t_snd :: snd_sys
  t_rcv :: rcv_sys
  t_data :: "bytes list"
  t_acks :: "bytes list"

datatype t_event =
    Write_t u32 bytes
  | Ping_t u32
  | Close_t u32
  | Send_t u32 CryptoMsgType "Ack option" int u64
  | Resend_t u32 "Ack option" int u64 CryptoMsgType u64
  | Empty_t bool "Ack option" u32 u64
  | Deliver_t bytes u64
  | Read_t u32
  | Reply_t u64 bool u32 u64 "bytes option"
  | Deliver_ack_t bytes

definition t_init :: "int \<Rightarrow> int \<Rightarrow> transport" where
  "t_init sc rc = \<lparr>t_snd = snd_init sc, t_rcv = rcv_init rc, t_data = [], t_acks = []\<rparr>"

definition packet_header :: "bool \<Rightarrow> Ack option \<Rightarrow> u32 \<Rightarrow> u64 \<Rightarrow> PayloadHeader" where
  "packet_header cl ack sid off = \<lparr>ph_IsClose = cl, ph_Ack = ack, ph_StreamID = sid, ph_StreamOffset = off\<rparr>"

text \<open>What \<^verbatim>\<open>encode\<close> puts on the wire for the answer of the send buffer; the first message carries no payload.\<close>

definition emit :: "u32 \<Rightarrow> CryptoMsgType \<Rightarrow> Ack option \<Rightarrow> bytes option \<times> u64 \<times> bool \<Rightarrow> transport \<Rightarrow> transport option" where
  "emit sid msgType ack r s =
     (case r of
        (None, _) \<Rightarrow> Some s
      | (Some d, off, cl) \<Rightarrow>
          if msgType = InitSnd then Some s
          else map_option (\<lambda>(b, _). s\<lparr>t_data := b # t_data s\<rparr>) (EncodePayload (packet_header cl ack sid off) (Some d)))"

text \<open>The receiving half of \<^verbatim>\<open>decode\<close> of a connection.\<close>

definition t_receive :: "rcv_sys \<Rightarrow> PayloadHeader \<Rightarrow> bytes option \<Rightarrow> u64 \<Rightarrow> rcv_sys option" where
  "t_receive r p ud now = do {
     r \<leftarrow> (case ud of
            None \<Rightarrow> if ph_IsClose p then rcv_step r (Insert_empty (ph_StreamID p) (ph_StreamOffset p) now) else Some r
          | Some d \<Rightarrow>
              if d \<noteq> [] then rcv_step r (Insert_seg (ph_StreamID p) (ph_StreamOffset p) now d)
              else rcv_step r (Insert_empty (ph_StreamID p) (ph_StreamOffset p) now));
     if ph_IsClose p then rcv_step r (Close_at (ph_StreamID p) (ph_StreamOffset p)) else Some r
   }"

definition on_snd :: "transport \<Rightarrow> snd_event \<Rightarrow> transport option" where
  "on_snd s e = map_option (\<lambda>x. s\<lparr>t_snd := x\<rparr>) (snd_step (t_snd s) e)"

fun t_step :: "transport \<Rightarrow> t_event \<Rightarrow> transport option" where
  "t_step s (Write_t sid d) = on_snd s (Queue_ev sid d)"
| "t_step s (Ping_t sid) = on_snd s (Ping_ev sid)"
| "t_step s (Close_t sid) = on_snd s (Close_ev sid)"
| "t_step s (Send_t sid msgType ack mtu now) = do {
     s' \<leftarrow> on_snd s (Send_ev sid msgType ack mtu now);
     emit sid msgType ack (fst (SendBuffer_ReadyToSend (sys_buf (t_snd s)) sid msgType ack mtu now)) s'
   }"
| "t_step s (Resend_t sid ack mtu rto msgType now) = do {
     s' \<leftarrow> on_snd s (Retransmit_ev sid ack mtu rto msgType now);
     case SendBuffer_ReadyToRetransmit (sys_buf (t_snd s)) sid ack mtu rto msgType now of
       Inl _ \<Rightarrow> Some s'
     | Inr (r, _) \<Rightarrow> emit sid msgType ack r s'
   }"
| "t_step s (Empty_t cl ack sid off) =
     map_option (\<lambda>(b, _). s\<lparr>t_data := b # t_data s\<rparr>) (EncodePayload (packet_header cl ack sid off) None)"
| "t_step s (Deliver_t pkt now) =
     (case DecodePayload pkt of
        Inl _ \<Rightarrow> Some s
      | Inr (p, ud) \<Rightarrow> map_option (\<lambda>r. s\<lparr>t_rcv := r\<rparr>) (t_receive (t_rcv s) p ud now))"
| "t_step s (Read_t sid) = map_option (\<lambda>r. s\<lparr>t_rcv := r\<rparr>) (rcv_step (t_rcv s) (Read_next sid))"
| "t_step s (Reply_t wnd cl sid off ud) = do {
     r \<leftarrow> rcv_step (t_rcv s) Take_ack;
     case fst (ReceiveBuffer_GetSndAck (rs_buf (t_rcv s))) of
       None \<Rightarrow> Some (s\<lparr>t_rcv := r\<rparr>)
     | Some a \<Rightarrow> map_option (\<lambda>(b, _). s\<lparr>t_rcv := r, t_acks := b # t_acks s\<rparr>)
                 (EncodePayload (packet_header cl (Some (a\<lparr>ack_rcvWnd := wnd\<rparr>)) sid off) ud)
   }"
| "t_step s (Deliver_ack_t pkt) =
     (case DecodePayload pkt of
        Inl _ \<Rightarrow> Some s
      | Inr (p, _) \<Rightarrow> (case ph_Ack p of None \<Rightarrow> Some s | Some a \<Rightarrow> on_snd s (Ack_ev a)))"

text \<open>
  The runs considered: what the send buffer allows, offsets of the other direction that the wire
  format can carry, and deliveries of packets that were sent. With \<open>fit\<close> a delivery must in addition
  have less than 65536 bytes of data and not overlap more than one stored segment.
\<close>

abbreviation ack_fits :: "Ack option \<Rightarrow> bool" where
  "ack_fits ack \<equiv> (case ack of None \<Rightarrow> True | Some a \<Rightarrow> unat (ack_offset a) < 2 ^ 48)"

definition packet_fits :: "rcv_sys \<Rightarrow> bytes \<Rightarrow> bool" where
  "packet_fits r pkt = (case DecodePayload pkt of
     Inr (p, Some d) \<Rightarrow> length d < 2 ^ 16 \<and> meets_one (rcv_getOrCreateStream (rs_buf r) (ph_StreamID p)) (ph_StreamOffset p) d
   | _ \<Rightarrow> True)"

fun t_ok :: "bool \<Rightarrow> transport \<Rightarrow> t_event \<Rightarrow> bool" where
  "t_ok fit s (Write_t sid d) = snd_ok (t_snd s) (Queue_ev sid d)"
| "t_ok fit s (Send_t sid msgType ack mtu now) = (mtu_ok msgType mtu \<and> ack_fits ack)"
| "t_ok fit s (Resend_t sid ack mtu rto msgType now) = (mtu_ok msgType mtu \<and> ack_fits ack)"
| "t_ok fit s (Empty_t cl ack sid off) = (ack_fits ack \<and> unat off < 2 ^ 48)"
| "t_ok fit s (Deliver_t pkt now) = (pkt \<in> set (t_data s) \<and> (fit \<longrightarrow> packet_fits (t_rcv s) pkt))"
| "t_ok fit s (Reply_t wnd cl sid off ud) = (unat off < 2 ^ 48)"
| "t_ok fit s (Deliver_ack_t pkt) = (pkt \<in> set (t_acks s))"
| "t_ok fit s _ = True"

text \<open>The receiving half is what \<^const>\<open>Conn_decode\<close> does to the receive buffer.\<close>

lemma decode_ack_rcv: "decode_ack c k s a n now = Some c' \<Longrightarrow> c_rcv c' = c_rcv c"
  by (auto simp: decode_ack_def put_stream_def bind_eq_Some_conv Let_def split: prod.splits if_splits AckStatus.splits)

lemma Conn_decode_receives:
  assumes d: "Conn_decode c p ud n now = Some (sid, c')" and r: "rs_buf r = c_rcv c"
    and label: "st_streamID (fst (Conn_Stream c (ph_StreamID p))) = ph_StreamID p"
  shows "\<exists>r'. t_receive r p ud now = Some r' \<and> rs_buf r' = c_rcv c'"
proof -
  obtain s c1 where c1: "Conn_Stream c (ph_StreamID p) = (s, c1)" "c_rcv c1 = c_rcv c" "st_streamID s = ph_StreamID p"
    using label by (auto simp: Conn_Stream_def Let_def split: option.splits)
  obtain c2 c3 where c2: "(case ph_Ack p of None \<Rightarrow> Some c1 | Some a \<Rightarrow> decode_ack c1 (ph_StreamID p) s a n now) = Some c2"
    and c3: "decode_data c2 (ph_StreamID p) p ud now = Some c3"
    and c': "c_rcv c' = (if ph_IsClose p then ReceiveBuffer_Close (c_rcv c3) (ph_StreamID p) (ph_StreamOffset p) else c_rcv c3)"
    using d c1 by (cases "ph_IsClose p") (auto simp: Conn_decode_def bind_eq_Some_conv Let_def)
  have "c_rcv c2 = rs_buf r" using c2 c1(2) r decode_ack_rcv[of c1 _ s _ n now c2] by (auto split: option.splits)
  then have "\<exists>r3. (case ud of
      None \<Rightarrow> if ph_IsClose p then rcv_step r (Insert_empty (ph_StreamID p) (ph_StreamOffset p) now) else Some r
    | Some d \<Rightarrow> if d \<noteq> [] then rcv_step r (Insert_seg (ph_StreamID p) (ph_StreamOffset p) now d)
        else rcv_step r (Insert_empty (ph_StreamID p) (ph_StreamOffset p) now)) = Some r3 \<and> rs_buf r3 = c_rcv c3"
    using c3 by (cases ud) (auto simp: decode_data_def bind_eq_Some_conv split: if_splits)
  then obtain r3 where "t_receive r p ud now = (if ph_IsClose p then rcv_step r3 (Close_at (ph_StreamID p) (ph_StreamOffset p)) else Some r3)"
      "rs_buf r3 = c_rcv c3"
    unfolding t_receive_def by (elim exE conjE) (simp only: Option.bind.bind_lunit)
  then show ?thesis using c' by simp
qed

section \<open>A content that grows\<close>

text \<open>The receiver's invariants for a content hold for every extension of it.\<close>

definition extends :: "(u32 \<Rightarrow> bytes) \<Rightarrow> (u32 \<Rightarrow> bytes) \<Rightarrow> bool" where
  "extends W W' \<longleftrightarrow> (\<forall>sid. \<exists>r. W' sid = W sid @ r)"

lemma seg_of_append: "seg_of W k d \<Longrightarrow> seg_of (W @ r) k d"
  by (auto simp: seg_of_def)

lemma seg_of_extends: "extends W W' \<Longrightarrow> seg_of (W sid) k d \<Longrightarrow> seg_of (W' sid) k d"
  using seg_of_append by (metis extends_def)

lemma read_inv_extends:
  assumes e: "extends W W'" and inv: "read_inv W r"
  shows "read_inv W' r"
proof -
  have "segs_of (W' sid) m" if "segs_of (W sid) m" for sid m
    using that seg_of_extends[OF e] by (auto simp: segs_of_def)
  moreover have "n \<le> length (W' sid) \<and> take n (W' sid) = take n (W sid)" if "n \<le> length (W sid)" for n sid
    using e that by (auto simp: extends_def) (metis append_take_drop_id le_add1 length_append order_trans, metis take_append append_Nil2 diff_is_0_eq take0)
  ultimately show ?thesis using inv by (simp add: read_inv_def Let_def)
qed

lemma rcv_inv_extends:
  assumes e: "extends W W'" and W: "contents_ok W'" and inv: "rcv_inv W r"
  shows "rcv_inv W' r"
proof -
  have "rstream_inv (W' sid) A st" if "rstream_inv (W sid) A st" for sid A st
  proof -
    have "length (W sid) \<le> length (W' sid)" using e by (metis extends_def le_add1 length_append)
    moreover have "segs_of (W' sid) (segments st)"
      using rstream_invD(3)[OF that] seg_of_extends[OF e] by (auto simp: segs_of_def)
    ultimately show ?thesis using that W by (auto simp: rstream_inv_def contents_ok_def)
  qed
  then show ?thesis using inv by (simp add: rcv_inv_def)
qed

lemma snd_step_extends: "snd_step s e = Some s' \<Longrightarrow> extends (sys_written s) (sys_written s')"
  by (cases e) (auto simp: extends_def split: option.splits sum.splits go_error.splits prod.splits)

lemma snd_inv_contents: "snd_inv s \<Longrightarrow> contents_ok (sys_written s)"
  by (simp add: snd_inv_def contents_ok_def content_ok_def stream_inv_def flight_inv_def)

section \<open>Packets and acknowledgements on the wire\<close>

definition data_ok :: "(u32 \<Rightarrow> bytes) \<Rightarrow> bytes \<Rightarrow> bool" where
  "data_ok W pkt \<longleftrightarrow> (\<exists>p ud. DecodePayload pkt = Inr (p, ud) \<and> unat (ph_StreamOffset p) < 2 ^ 48 \<and>
     (\<forall>d. ud = Some d \<longrightarrow> d \<noteq> [] \<longrightarrow> seg_of (W (ph_StreamID p)) (ph_StreamOffset p) d))"

definition ack_ok :: "(u32 \<Rightarrow> nat set) \<Rightarrow> Ack \<Rightarrow> bool" where
  "ack_ok A a \<longleftrightarrow> unat (ack_offset a) < 2 ^ 48 \<and> ack_range a \<subseteq> A (ack_streamID a)"

definition reply_ok :: "(u32 \<Rightarrow> nat set) \<Rightarrow> bytes \<Rightarrow> bool" where
  "reply_ok A pkt \<longleftrightarrow> (\<forall>p ud a. DecodePayload pkt = Inr (p, ud) \<longrightarrow> ph_Ack p = Some a \<longrightarrow> ack_ok A a)"

lemma data_ok_extends: "extends W W' \<Longrightarrow> data_ok W pkt \<Longrightarrow> data_ok W' pkt"
  using seg_of_extends by (fastforce simp: data_ok_def)

lemma ack_ok_mono: "ack_ok A a \<Longrightarrow> (\<And>sid. A sid \<subseteq> A' sid) \<Longrightarrow> ack_ok A' a"
  by (fastforce simp: ack_ok_def)

lemma reply_ok_mono: "reply_ok A pkt \<Longrightarrow> (\<And>sid. A sid \<subseteq> A' sid) \<Longrightarrow> reply_ok A' pkt"
  using ack_ok_mono by (fastforce simp: reply_ok_def)

lemma data_ok_encoded:
  assumes "unat off < 2 ^ 48" and "ack_fits ack" and "\<And>d. ud = Some d \<Longrightarrow> d \<noteq> [] \<Longrightarrow> seg_of (W sid) off d"
  shows "data_ok W (payloadBytes (packet_header cl ack sid off) ud)"
  using DecodePayload_payloadBytes[of "packet_header cl ack sid off" ud] assms
  by (auto simp: data_ok_def packet_header_def offsetsFit_def transmitted_def isAckOnly_def Let_def split: option.splits if_splits)

lemma reply_ok_encoded:
  assumes "unat off < 2 ^ 48" and "ack_ok A a"
  shows "reply_ok A (payloadBytes (packet_header cl (Some (a\<lparr>ack_rcvWnd := wnd\<rparr>)) sid off) ud)"
  using DecodePayload_payloadBytes[of "packet_header cl (Some (a\<lparr>ack_rcvWnd := wnd\<rparr>)) sid off" ud] assms
  by (auto simp: reply_ok_def packet_header_def offsetsFit_def transmitted_def ack_ok_def ack_range_def Let_def split: if_splits)

lemma slice_seg_of:
  assumes d: "d = take (length d) (drop (unat off) W)" and "d \<noteq> []"
  shows "seg_of W off d"
proof -
  have "length d = min (length d) (length W - unat off)" by (subst d) (simp add: min.commute)
  then have "length d \<le> length W - unat off" by linarith
  moreover have "0 < length d" using assms(2) by simp
  ultimately have "unat off + length d \<le> length W" by linarith
  with d show ?thesis by (simp add: seg_of_def)
qed

text \<open>What the send buffer hands out are slices of what was written, at offsets the wire format can carry.\<close>

lemma ReadyToSend_slice:
  assumes inv: "snd_inv s" and mtu: "mtu_ok msgType mtu"
    and r: "SendBuffer_ReadyToSend (sys_buf s) sid msgType ack mtu now = ((Some d, off, cl), sb)"
  shows "unat off < 2 ^ 48 \<and> (d \<noteq> [] \<longrightarrow> seg_of (sys_written s sid) off d)"
proof -
  obtain st where st: "snd_streams (sys_buf s) sid = Some st"
    using r by (cases "snd_streams (sys_buf s) sid") (auto simp: SendBuffer_ReadyToSend_def)
  show ?thesis
  proof (rule ReadyToSend_inv[OF stream_inv_stream[OF inv, of sid, unfolded getOrCreate_Some[OF st]] st mtu r])
    fix st'
    assume si: "stream_inv (sys_written s sid) (sys_acked s sid) st'"
      and b: "\<And>b. Some d = Some b \<Longrightarrow> b = take (length b) (drop (unat off) (sys_written s sid)) \<and> unat off + length b \<le> unat (bytesSentOffset st')"
    have "unat off < 2 ^ 48" using si b[OF refl] by (simp add: stream_inv_def flight_inv_def)
    then show ?thesis using slice_seg_of[of d off] b[OF refl] by blast
  qed
qed

lemma ReadyToRetransmit_slice:
  assumes inv: "snd_inv s" and mtu: "mtu_ok msgType mtu"
    and r: "SendBuffer_ReadyToRetransmit (sys_buf s) sid ack mtu rto msgType now = Inr ((Some d, off, cl), sb)"
  shows "unat off < 2 ^ 48 \<and> (d \<noteq> [] \<longrightarrow> seg_of (sys_written s sid) off d)"
proof -
  obtain st where st: "snd_streams (sys_buf s) sid = Some st"
    using r by (cases "snd_streams (sys_buf s) sid") (auto simp: SendBuffer_ReadyToRetransmit_def)
  have "resend_ok (sys_written s sid) (sys_acked s sid) (sys_buf s) sid (Inr ((Some d, off, cl), sb))"
    using ReadyToRetransmit_inv[OF stream_inv_stream[OF inv, of sid, unfolded getOrCreate_Some[OF st]] st mtu] r by metis
  then have "d = take (length d) (drop (unat off) (sys_written s sid))" by (auto simp: resend_ok_def)
  moreover have "\<exists>p. off = packetKey_offset p"
    using r st by (auto simp: SendBuffer_ReadyToRetransmit_def and_then_def Let_def split: prod.splits option.splits bool.splits sum.splits if_splits) metis+
  ultimately show ?thesis using slice_seg_of koff_less by blast
qed

section \<open>The invariant\<close>

definition rcv_side :: "bool \<Rightarrow> (u32 \<Rightarrow> bytes) \<Rightarrow> rcv_sys \<Rightarrow> bool" where
  "rcv_side fit W r \<longleftrightarrow> read_inv W r \<and> (fit \<longrightarrow> rcv_inv W r) \<and> (\<forall>a \<in> set (ackList (rs_buf r)). ack_ok (rs_arrived r) a)"

definition t_inv :: "bool \<Rightarrow> transport \<Rightarrow> bool" where
  "t_inv fit s \<longleftrightarrow> snd_inv (t_snd s) \<and> rcv_side fit (sys_written (t_snd s)) (t_rcv s) \<and>
     (\<forall>pkt \<in> set (t_data s). data_ok (sys_written (t_snd s)) pkt) \<and>
     (\<forall>pkt \<in> set (t_acks s). reply_ok (rs_arrived (t_rcv s)) pkt) \<and>
     (\<forall>sid. sys_acked (t_snd s) sid \<subseteq> rs_arrived (t_rcv s) sid)"

subsection \<open>Steps of the sender\<close>

lemma snd_acked_step:
  "snd_step s e = Some s' \<Longrightarrow> sys_acked s' sid \<subseteq> sys_acked s sid \<union>
     (case e of Ack_ev a \<Rightarrow> if ack_streamID a = sid then krange (createPacketKey (ack_offset a) (ack_len a)) else {} | _ \<Rightarrow> {})"
  by (cases e) (auto split: option.splits sum.splits go_error.splits prod.splits if_splits)

lemma t_inv_snd:
  assumes inv: "t_inv fit s" and ok: "snd_ok (t_snd s) e" and step: "on_snd s e = Some s'"
    and acked: "\<And>a. e = Ack_ev a \<Longrightarrow> ack_ok (rs_arrived (t_rcv s)) a"
  shows "t_inv fit s'"
proof -
  obtain x where x: "snd_step (t_snd s) e = Some x" "s' = s\<lparr>t_snd := x\<rparr>" using step by (auto simp: on_snd_def)
  have si: "snd_inv (t_snd s)" using inv by (simp add: t_inv_def)
  have xi: "snd_inv x" using snd_inv_step[OF si ok] x(1) by auto
  note ext = snd_step_extends[OF x(1)]
  have "krange (createPacketKey (ack_offset a) (ack_len a)) = ack_range a" if "unat (ack_offset a) < 2 ^ 48" for a
    using that by (simp add: krange_def ack_range_def)
  then have "krange (createPacketKey (ack_offset a) (ack_len a)) \<subseteq> rs_arrived (t_rcv s) (ack_streamID a)" if "e = Ack_ev a" for a
    using acked[OF that] by (simp add: ack_ok_def)
  moreover have "sys_acked (t_snd s) sid \<subseteq> rs_arrived (t_rcv s) sid" for sid using inv by (simp add: t_inv_def)
  ultimately have "sys_acked x sid \<subseteq> rs_arrived (t_rcv s) sid" for sid
    using snd_acked_step[OF x(1), of sid] by (cases e) (fastforce split: if_splits)+
  moreover have "rcv_side fit (sys_written x) (t_rcv s)"
    using inv read_inv_extends[OF ext] rcv_inv_extends[OF ext snd_inv_contents[OF xi]] by (auto simp: t_inv_def rcv_side_def)
  ultimately show ?thesis
    using inv xi data_ok_extends[OF ext] by (simp add: t_inv_def x(2))
qed

lemma on_snd_defined:
  assumes "t_inv fit s" and "snd_ok (t_snd s) e"
  shows "on_snd s e \<noteq> None"
  using snd_inv_step[of "t_snd s" e] assms by (auto simp: t_inv_def on_snd_def)

lemma t_inv_emit:
  assumes inv: "t_inv fit s" and step: "emit sid msgType ack r s = Some s'" and ack: "ack_fits ack"
    and r: "\<And>d off cl. r = (Some d, off, cl) \<Longrightarrow> unat off < 2 ^ 48 \<and> (d \<noteq> [] \<longrightarrow> seg_of (sys_written (t_snd s) sid) off d)"
  shows "t_inv fit s'"
proof (cases r)
  case (fields d off cl)
  then show ?thesis
    using inv step r data_ok_encoded[OF _ ack]
    by (cases d) (auto simp: emit_def EncodePayload_eq t_inv_def split: if_splits, blast+)
qed

lemma emit_defined: "emit sid msgType ack r s \<noteq> None"
  by (auto simp: emit_def EncodePayload_eq split: prod.splits option.splits)

subsection \<open>Steps of the receiver\<close>

lemma rcv_arrived_grows: "rcv_step r e = Some r' \<Longrightarrow> rs_arrived r sid \<subseteq> rs_arrived r' sid"
  by (cases e) (auto split: option.splits prod.splits if_splits)

lemma ack_range_wraps: "ack_range (mkAck sid off (word_of_nat (length d))) \<subseteq> data_range off d"
  by (auto simp: ack_range_def mkAck_def data_range_def unat_of_nat intro: less_le_trans)

fun event_offset :: "rcv_event \<Rightarrow> nat" where
  "event_offset (Insert_seg sid off now d) = unat off"
| "event_offset (Insert_empty sid off now) = unat off"
| "event_offset _ = 0"

lemma rcv_acks_step:
  assumes acks: "\<forall>a \<in> set (ackList (rs_buf r)). ack_ok (rs_arrived r) a" and off: "event_offset e < 2 ^ 48" and step: "rcv_step r e = Some r'"
  shows "\<forall>a \<in> set (ackList (rs_buf r')). ack_ok (rs_arrived r') a"
proof -
  have old: "ack_ok (rs_arrived r') a" if "a \<in> set (ackList (rs_buf r))" for a
    using acks that rcv_arrived_grows[OF step] by (auto intro: ack_ok_mono)
  have "a \<in> set (ackList (rs_buf r)) \<or> ack_ok (rs_arrived r') a" if a: "a \<in> set (ackList (rs_buf r'))" for a
  proof (cases e)
    case (Insert_seg sid off now d)
    then obtain status rb where i: "ReceiveBuffer_Insert (rs_buf r) sid off now d = Some (status, rb)"
      using step by (auto split: option.splits prod.splits)
    note i' = Insert_acks[OF i]
    have "ack_ok (rs_arrived r') (mkAck sid off (word_of_nat (length d)))" if "status \<noteq> RcvInsertBufferFull"
      using that step Insert_seg i off ack_range_wraps[of sid off d] by (auto simp: ack_ok_def mkAck_def)
    then show ?thesis using a step Insert_seg i i' by (auto simp: rcv_put_stream_def split: if_splits)
  next
    case (Insert_empty sid off now)
    then show ?thesis using a step off by (auto simp: ReceiveBuffer_EmptyInsert_def ack_ok_def ack_range_def mkAck_def)
  next
    case (Close_at sid off)
    then show ?thesis using a step Close_streams[of "rs_buf r" sid off] by (auto simp: rcv_put_stream_def)
  next
    case (Read_next sid)
    then show ?thesis using a step by (cases rule: RemoveOldest_cases[of "rs_buf r" sid]) (auto simp: rcv_put_stream_def)
  next
    case Take_ack
    then show ?thesis using a step by (cases "ackList (rs_buf r)") (auto simp: GetSndAck_buf)
  qed
  with old show ?thesis by blast
qed

lemma t_inv_rcv:
  assumes inv: "t_inv fit s" and r': "rcv_side fit (sys_written (t_snd s)) r'" "\<And>sid. rs_arrived (t_rcv s) sid \<subseteq> rs_arrived r' sid"
  shows "t_inv fit (s\<lparr>t_rcv := r'\<rparr>)"
proof -
  have "sys_acked (t_snd s) sid \<subseteq> rs_arrived r' sid" for sid
    using inv r'(2)[of sid] unfolding t_inv_def by blast
  moreover have "reply_ok (rs_arrived r') pkt" if "pkt \<in> set (t_acks s)" for pkt
    using reply_ok_mono[where A = "rs_arrived (t_rcv s)" and A' = "rs_arrived r'" and pkt = pkt] inv that r'(2) by (simp add: t_inv_def)
  ultimately show ?thesis using inv r'(1) by (simp add: t_inv_def)
qed

lemma rcv_side_step:
  assumes r: "rcv_side fit W r" and any: "any_segment W r e" and fits: "fit \<Longrightarrow> fitting_segment W r e"
    and off: "event_offset e < 2 ^ 48" and step: "rcv_step r e = Some r'"
  shows "rcv_side fit W r'"
  using r read_inv_step[OF _ any step, of] rcv_inv_step[OF _ fits] rcv_acks_step[OF _ off step] step unfolding rcv_side_def by fastforce

lemma rcv_side_defined: "rcv_side True W r \<Longrightarrow> fitting_segment W r e \<Longrightarrow> rcv_step r e \<noteq> None"
  using rcv_inv_step by (fastforce simp: rcv_side_def)

lemma t_receive_side:
  assumes W: "contents_ok W" and r: "rcv_side fit W r" and pkt: "data_ok W pkt" "DecodePayload pkt = Inr (p, ud)"
    and fits: "fit \<Longrightarrow> packet_fits r pkt"
  shows "t_receive r p ud now = Some r' \<Longrightarrow> rcv_side fit W r' \<and> (\<forall>sid. rs_arrived r sid \<subseteq> rs_arrived r' sid)"
    and "fit \<Longrightarrow> t_receive r p ud now \<noteq> None"
proof -
  have d: "unat (ph_StreamOffset p) < 2 ^ 48" "\<And>d. ud = Some d \<Longrightarrow> d \<noteq> [] \<Longrightarrow> seg_of (W (ph_StreamID p)) (ph_StreamOffset p) d"
    using pkt by (auto simp: data_ok_def)
  define e where "e = (case ud of Some d \<Rightarrow> if d \<noteq> [] then Insert_seg (ph_StreamID p) (ph_StreamOffset p) now d
      else Insert_empty (ph_StreamID p) (ph_StreamOffset p) now | None \<Rightarrow> Insert_empty (ph_StreamID p) (ph_StreamOffset p) now)"
  have def: "t_receive r p ud now = (if ud = None \<and> \<not> ph_IsClose p then Some r
      else do { r \<leftarrow> rcv_step r e; if ph_IsClose p then rcv_step r (Close_at (ph_StreamID p) (ph_StreamOffset p)) else Some r })"
    by (auto simp: t_receive_def e_def split: option.splits)
  have ok: "any_segment W r e" "fit \<Longrightarrow> fitting_segment W r e" "event_offset e < 2 ^ 48"
    using W d fits pkt(2) by (auto simp: e_def packet_fits_def split: option.splits)
  have one: "rcv_side fit W r1 \<and> (\<forall>sid. rs_arrived r sid \<subseteq> rs_arrived r1 sid)" if "rcv_step r e = Some r1" for r1
    using rcv_side_step[OF r ok that] rcv_arrived_grows[OF that] by blast
  have two: "rcv_side fit W r2 \<and> (\<forall>sid. rs_arrived r1 sid \<subseteq> rs_arrived r2 sid)"
    if "rcv_side fit W r1" "rcv_step r1 (Close_at (ph_StreamID p) (ph_StreamOffset p)) = Some r2" for r1 r2
    using rcv_side_step[OF that(1) _ _ _ that(2)] rcv_arrived_grows[OF that(2)] W by simp
  show "t_receive r p ud now = Some r' \<Longrightarrow> rcv_side fit W r' \<and> (\<forall>sid. rs_arrived r sid \<subseteq> rs_arrived r' sid)"
    using one two r unfolding def by (fastforce simp: bind_eq_Some_conv split: if_splits)
  show "t_receive r p ud now \<noteq> None" if fit
    using rcv_side_defined[of W r e] r ok(2) that unfolding def by auto
qed

subsection \<open>All steps\<close>

lemma t_inv_fields:
  assumes "t_inv fit s"
  shows "snd_inv (t_snd s)" "contents_ok (sys_written (t_snd s))" "rcv_side fit (sys_written (t_snd s)) (t_rcv s)"
    "\<And>pkt. pkt \<in> set (t_data s) \<Longrightarrow> data_ok (sys_written (t_snd s)) pkt"
    "\<And>pkt. pkt \<in> set (t_acks s) \<Longrightarrow> reply_ok (rs_arrived (t_rcv s)) pkt"
  using assms snd_inv_contents by (auto simp: t_inv_def)

lemma on_snd_written: "on_snd s (Send_ev sid msgType ack mtu now) = Some s' \<Longrightarrow> sys_written (t_snd s') = sys_written (t_snd s)"
  "on_snd s (Retransmit_ev sid ack mtu rto msgType now) = Some s' \<Longrightarrow> sys_written (t_snd s') = sys_written (t_snd s)"
  by (auto simp: on_snd_def split: sum.splits go_error.splits)

lemma t_inv_reply:
  assumes inv: "t_inv fit s" and off: "unat off < 2 ^ 48" and step: "t_step s (Reply_t wnd cl sid off ud) = Some s'"
  shows "t_inv fit s'"
proof -
  obtain r where r: "rcv_step (t_rcv s) Take_ack = Some r" by simp
  note f = t_inv_fields[OF inv]
  have ri: "t_inv fit (s\<lparr>t_rcv := r\<rparr>)"
    using f(2) rcv_side_step[OF f(3) _ _ _ r] by (intro t_inv_rcv[OF inv] rcv_arrived_grows[OF r]) simp_all
  show ?thesis
  proof (cases "fst (ReceiveBuffer_GetSndAck (rs_buf (t_rcv s)))")
    case None
    then show ?thesis using step r ri by simp
  next
    case (Some a)
    then have "a \<in> set (ackList (rs_buf (t_rcv s)))" by (auto simp: ReceiveBuffer_GetSndAck_def split: list.splits)
    then have "ack_ok (rs_arrived r) a" using f(3) r by (auto simp: rcv_side_def)
    from reply_ok_encoded[OF off this, of cl wnd sid ud] show ?thesis
      using step r ri Some by (auto simp: EncodePayload_eq t_inv_def, blast)
  qed
qed

lemma t_inv_step:
  assumes inv: "t_inv fit s" and ok: "t_ok fit s e" and step: "t_step s e = Some s'"
  shows "t_inv fit s'"
proof (cases e)
  case (Send_t sid msgType ack mtu now)
  let ?r = "SendBuffer_ReadyToSend (sys_buf (t_snd s)) sid msgType ack mtu now"
  obtain s1 where s1: "on_snd s (Send_ev sid msgType ack mtu now) = Some s1" "emit sid msgType ack (fst ?r) s1 = Some s'"
    using step Send_t by (auto simp: bind_eq_Some_conv)
  have "mtu_ok msgType mtu" "ack_fits ack" using ok Send_t by simp_all
  with t_inv_emit[OF t_inv_snd[OF inv _ s1(1)] s1(2)] ReadyToSend_slice[OF t_inv_fields(1)[OF inv], of msgType mtu sid ack now]
    on_snd_written(1)[OF s1(1)] show ?thesis by (cases ?r) fastforce
next
  case (Resend_t sid ack mtu rto msgType now)
  let ?r = "SendBuffer_ReadyToRetransmit (sys_buf (t_snd s)) sid ack mtu rto msgType now"
  obtain s1 where s1: "on_snd s (Retransmit_ev sid ack mtu rto msgType now) = Some s1"
      "(case ?r of Inl _ \<Rightarrow> Some s1 | Inr (r, _) \<Rightarrow> emit sid msgType ack r s1) = Some s'"
    using step Resend_t by (auto simp: bind_eq_Some_conv)
  have ok': "mtu_ok msgType mtu" "ack_fits ack" using ok Resend_t by simp_all
  then have s1i: "t_inv fit s1" using t_inv_snd[OF inv _ s1(1)] by simp
  then show ?thesis
    using s1(2) t_inv_emit[OF s1i _ ok'(2)] ReadyToRetransmit_slice[OF t_inv_fields(1)[OF inv] ok'(1), of sid ack rto now]
      on_snd_written(2)[OF s1(1)] by (cases ?r) fastforce+
next
  case (Deliver_t pkt now)
  then show ?thesis
    using step ok inv t_receive_side(1)[OF t_inv_fields(2,3)[OF inv] t_inv_fields(4)[OF inv], of pkt] t_inv_rcv[OF inv]
    by (fastforce split: sum.splits)
next
  case (Read_t sid)
  then obtain r where r: "rcv_step (t_rcv s) (Read_next sid) = Some r" "s' = s\<lparr>t_rcv := r\<rparr>" using step by auto
  then show ?thesis
    using t_inv_fields(2)[OF inv] rcv_side_step[OF t_inv_fields(3)[OF inv] _ _ _ r(1)] unfolding r(2)
    by (intro t_inv_rcv[OF inv] rcv_arrived_grows[OF r(1)]) simp_all
next
  case (Deliver_ack_t pkt)
  then show ?thesis
    using step ok inv t_inv_fields(5)[OF inv, of pkt] t_inv_snd[OF inv, of "Ack_ev _"]
    by (fastforce simp: reply_ok_def split: sum.splits option.splits)
next
  case (Write_t sid d)
  then show ?thesis using t_inv_snd[OF inv, of "Queue_ev sid d" s'] step ok by simp
next
  case (Ping_t sid)
  then show ?thesis using t_inv_snd[OF inv, of "Ping_ev sid" s'] step by simp
next
  case (Close_t sid)
  then show ?thesis using t_inv_snd[OF inv, of "Close_ev sid" s'] step by simp
next
  case (Empty_t cl ack sid off)
  then have "data_ok (sys_written (t_snd s)) (payloadBytes (packet_header cl ack sid off) None)"
    using ok data_ok_encoded[of off ack None _ sid cl] by simp
  then show ?thesis using Empty_t step inv by (auto simp: EncodePayload_eq t_inv_def, blast)
next
  case (Reply_t wnd cl sid off ud)
  then show ?thesis using t_inv_reply[OF inv] step ok by simp
qed

lemma t_step_defined:
  assumes inv: "t_inv True s" and ok: "t_ok True s e"
  shows "t_step s e \<noteq> None"
proof (cases e)
  case (Send_t sid msgType ack mtu now)
  then show ?thesis using on_snd_defined[OF inv, of "Send_ev sid msgType ack mtu now"] ok emit_defined
    by (cases "fst (SendBuffer_ReadyToSend (sys_buf (t_snd s)) sid msgType ack mtu now)") auto
next
  case (Resend_t sid ack mtu rto msgType now)
  then show ?thesis
    using on_snd_defined[OF inv, of "Retransmit_ev sid ack mtu rto msgType now"] ok emit_defined
    by (auto split: sum.splits)
next
  case (Deliver_t pkt now)
  then show ?thesis
    using ok t_receive_side(2)[OF t_inv_fields(2,3)[OF inv] t_inv_fields(4)[OF inv], of pkt] by (fastforce split: sum.splits)
next
  case (Read_t sid)
  then show ?thesis using Read_next_grows[of "t_rcv s" sid] by auto
next
  case (Reply_t wnd cl sid off ud)
  then show ?thesis by (auto simp: EncodePayload_eq split: option.splits)
next
  case (Deliver_ack_t pkt)
  then show ?thesis using on_snd_defined[OF inv, of "Ack_ev _"] by (fastforce split: sum.splits option.splits)
next
  case (Write_t sid d)
  then show ?thesis using on_snd_defined[OF inv, of "Queue_ev sid d"] ok by simp
qed (use on_snd_defined[OF inv, of "Ping_ev _"] on_snd_defined[OF inv, of "Close_ev _"] in \<open>simp_all add: EncodePayload_eq\<close>)

lemma t_inv_init: "t_inv fit (t_init (int sc) (int rc))"
  using snd_inv_init[of "int sc"] snd_inv_contents[of "snd_init (int sc)"] rcv_inv_init[of _ "int rc"] read_inv_init
  by (auto simp: t_inv_def t_init_def rcv_side_def rcv_init_def NewReceiveBuffer_def snd_init_def)

interpretation tsys: invariant_system "t_init (int sc) (int rc)" t_step "t_ok False" "t_inv False" for sc rc
  by unfold_locales (simp_all add: t_inv_init t_inv_step)

interpretation tfit: safe_system "t_init (int sc) (int rc)" t_step "t_ok True" "t_inv True" for sc rc
proof unfold_locales
  show "\<exists>s'. t_step s e = Some s' \<and> t_inv True s'" if "t_inv True s" "t_ok True s e" for s e
    using t_step_defined[OF that] t_inv_step[OF that] by blast
qed (rule t_inv_init)

definition t_reachable :: "bool \<Rightarrow> nat \<Rightarrow> nat \<Rightarrow> transport \<Rightarrow> bool" where
  "t_reachable fit sc rc = reachable (t_init (int sc) (int rc)) (guarded (t_ok fit) t_step)"

lemma t_reachable_inv: "t_reachable fit sc rc s \<Longrightarrow> t_inv fit s"
  using tsys.reachable_inv[of sc rc s] tfit.reachable_inv[of sc rc s] by (cases fit) (auto simp: t_reachable_def)

section \<open>From the writer to the reader\<close>

lemma t_reachable_run: "run (guarded (t_ok fit) t_step) (t_init (int sc) (int rc)) es = Some s \<Longrightarrow> t_reachable fit sc rc s"
  unfolding t_reachable_def by (rule run_reachable[OF reachable_init])

text \<open>
  A run: three bytes are written and sent, the packet is delivered, and its acknowledgement goes
  back; the bytes are not read yet.
\<close>

definition demo_pkt :: bytes where
  "demo_pkt = payloadBytes (packet_header False None 1 0) (Some [7, 8, 9])"

definition demo_reply :: bytes where
  "demo_reply = payloadBytes (packet_header False (Some ((mkAck 1 0 3)\<lparr>ack_rcvWnd := 97\<rparr>)) 0 0) None"

definition demo_run :: "t_event list" where
  "demo_run = [Write_t 1 [7, 8, 9], Send_t 1 Data None 1400 5, Deliver_t demo_pkt 6, Reply_t 97 False 0 0 None, Deliver_ack_t demo_reply]"

definition demo_end :: transport where
  "demo_end = the (run (guarded (t_ok True) t_step) (t_init 100 100) demo_run)"

lemma demo_decoded:
  "DecodePayload demo_pkt = Inr (packet_header False None 1 0, Some [7, 8, 9])"
  "\<exists>w. DecodePayload demo_reply = Inr (packet_header False (Some ((mkAck 1 0 3)\<lparr>ack_rcvWnd := w\<rparr>)) 0 0, None)"
  using DecodePayload_payloadBytes[of "packet_header False None 1 0" "Some [7, 8, 9]"]
    DecodePayload_payloadBytes[of "packet_header False (Some ((mkAck 1 0 3)\<lparr>ack_rcvWnd := 97\<rparr>)) 0 0" None]
  by (simp_all add: demo_pkt_def demo_reply_def packet_header_def transmitted_def isAckOnly_def offsetsFit_def mkAck_def Let_def)

lemma header_fields:
  "ph_IsClose (packet_header cl ack sid off) = cl" "ph_Ack (packet_header cl ack sid off) = ack"
  "ph_StreamID (packet_header cl ack sid off) = sid" "ph_StreamOffset (packet_header cl ack sid off) = off"
  "ack_streamID (mkAck sid off n) = sid" "ack_offset (mkAck sid off n) = off" "ack_len (mkAck sid off n) = n"
  by (simp_all add: packet_header_def mkAck_def)

lemma demo_end_run: "\<exists>s. run (guarded (t_ok True) t_step) (t_init 100 100) demo_run = Some s \<and>
  sys_written (t_snd s) 1 = [7, 8, 9] \<and> sys_acked (t_snd s) 1 = {0..<3} \<and> t_acks s = [demo_reply] \<and>
  \<not> stale (rcv_getOrCreateStream (rs_buf (t_rcv s)) 1)"
proof -
  obtain w where w: "DecodePayload demo_reply = Inr (packet_header False (Some ((mkAck 1 0 3)\<lparr>ack_rcvWnd := w\<rparr>)) 0 0, None)"
    using demo_decoded(2) by blast
  show ?thesis
    by (simp add: demo_run_def t_init_def snd_init_def on_snd_def emit_def t_receive_def packet_fits_def NewSendBuffer_def snd_eval rcv_eval
        EncodePayload_eq demo_decoded(1) w header_fields ReceiveBuffer_GetSndAck_def SendBuffer_AcknowledgeRange_def al_put_def
        krange_def packetKey_length_def stale_def demo_pkt_def[symmetric] demo_reply_def[symmetric])
qed

lemma demo_end_facts:
  "t_reachable True 100 100 demo_end" "sys_written (t_snd demo_end) 1 = [7, 8, 9]" "sys_acked (t_snd demo_end) 1 = {0..<3}"
  "t_acks demo_end = [demo_reply]" "\<not> stale (rcv_getOrCreateStream (rs_buf (t_rcv demo_end)) 1)"
  using demo_end_run t_reachable_run[of True 100 100 demo_run] by (auto simp: demo_end_def)

lemma t_reachable_any: "t_reachable True sc rc s \<Longrightarrow> t_reachable False sc rc s"
proof -
  have "t_ok True s e \<Longrightarrow> t_ok False s e" for s e by (cases e) auto
  then show "t_reachable True sc rc s \<Longrightarrow> t_reachable False sc rc s"
    using reachable_weaken[of _ "t_ok True" t_step s "t_ok False"] by (simp add: t_reachable_def)
qed

text \<open>
  C4: A network that loses, repeats and reorders packets: whatever is written, sent, resent in
  parts, delivered and acknowledged, in any order, what the receiver has read from a stream is
  a prefix of what was written to it, and the sender has released only bytes the receiver
  accepted.
\<close>
theorem transport_prefix:
  assumes "t_reachable False sc rc s"
  shows "(\<exists>rest. sys_written (t_snd s) sid = rs_read (t_rcv s) sid @ rest) \<and>
    sys_acked (t_snd s) sid \<subseteq> rs_arrived (t_rcv s) sid"
proof -
  note inv = t_reachable_inv[OF assms]
  have "read_inv (sys_written (t_snd s)) (t_rcv s)" using t_inv_fields(3)[OF inv] by (simp add: rcv_side_def)
  from read_inv_stream(3)[OF this, of sid] have "\<exists>rest. sys_written (t_snd s) sid = rs_read (t_rcv s) sid @ rest"
    by (metis append_take_drop_id)
  with inv show ?thesis by (simp add: t_inv_def)
qed

theorem transport_prefix_witness: "{0..<3} \<subseteq> rs_arrived (t_rcv demo_end) 1"
  using transport_prefix[OF t_reachable_any[OF demo_end_facts(1)], of 1] demo_end_facts(3) by simp

text \<open>The positions a sender still holds: not sent yet, or in a packet in flight.\<close>

definition held :: "snd_sys \<Rightarrow> u32 \<Rightarrow> nat set" where
  "held x sid = (let st = snd_getOrCreateStream (sys_buf x) sid in
     {unat (bytesSentOffset st)..<length (sys_written x sid)} \<union> (\<Union>e \<in> flight st. krange (fst e)))"

text \<open>
  C3: No byte is lost between the two buffers, as long as a delivered packet has less than 65536
  bytes of data and overlaps at most one segment that is stored at the time, whatever it
  overlaps of the bytes already read: every position written is still held by the sender, or
  stored at the receiver, or read. No step panics.
\<close>
theorem transport_lossless:
  assumes "t_reachable True sc rc s"
  shows "{..<length (sys_written (t_snd s) sid)} \<subseteq> held (t_snd s) sid \<union>
      \<Union> (seg_range ` segs_at (rcv_getOrCreateStream (rs_buf (t_rcv s)) sid)) \<union> {..<length (rs_read (t_rcv s) sid)} \<and>
    (t_ok True s e \<longrightarrow> t_step s e \<noteq> None)"
proof (intro conjI impI)
  note inv = t_reachable_inv[OF assms]
  note r = t_inv_fields(3)[OF inv, unfolded rcv_side_def]
  let ?st = "snd_getOrCreateStream (sys_buf (t_snd s)) sid" and ?A = "sys_acked (t_snd s) sid"
  have "?A \<union> (\<Union>e \<in> flight ?st. krange (fst e)) = {..<unat (bytesSentOffset ?st)}"
    using stream_inv_stream[OF t_inv_fields(1)[OF inv], of sid] by (simp add: stream_inv_def flight_inv_def)
  then have "{..<length (sys_written (t_snd s) sid)} \<subseteq> held (t_snd s) sid \<union> ?A"
    by (fastforce simp: held_def Let_def)
  moreover have "?A \<subseteq> rs_arrived (t_rcv s) sid" using inv by (simp add: t_inv_def)
  moreover have "rs_arrived (t_rcv s) sid = {..<length (rs_read (t_rcv s) sid)} \<union>
      \<Union> (seg_range ` segs_at (rcv_getOrCreateStream (rs_buf (t_rcv s)) sid))"
    using rstream_invD(6)[OF rcv_inv_stream[of _ "t_rcv s" sid]] read_pos[of _ "t_rcv s" sid] r by metis
  ultimately show "{..<length (sys_written (t_snd s) sid)} \<subseteq> held (t_snd s) sid \<union>
      \<Union> (seg_range ` segs_at (rcv_getOrCreateStream (rs_buf (t_rcv s)) sid)) \<union> {..<length (rs_read (t_rcv s) sid)}" by blast
  show "t_step s e \<noteq> None" if "t_ok True s e" by (rule t_step_defined[OF inv that])
qed

theorem transport_lossless_witness:
  "{..<3} \<subseteq> held (t_snd demo_end) 1 \<union> \<Union> (seg_range ` segs_at (rcv_getOrCreateStream (rs_buf (t_rcv demo_end)) 1)) \<union>
     {..<length (rs_read (t_rcv demo_end) 1)} \<and> t_step demo_end (Deliver_ack_t demo_reply) \<noteq> None"
proof -
  have "t_ok True demo_end (Deliver_ack_t demo_reply)" "length (sys_written (t_snd demo_end) 1) = 3"
    using demo_end_facts(2,4) by simp_all
  with transport_lossless[OF demo_end_facts(1), of 1 "Deliver_ack_t demo_reply"] show ?thesis by (simp only:) simp
qed

lemma t_reads: "run rcv_step (t_rcv s) (replicate n (Read_next sid)) = Some r \<Longrightarrow>
  run t_step s (replicate n (Read_t sid)) = Some (s\<lparr>t_rcv := r\<rparr>)"
  by (induction n arbitrary: s) (auto split: option.splits prod.splits)

lemma t_stale_reads:
  assumes "stale (rcv_getOrCreateStream (rs_buf (t_rcv s)) sid)"
  shows "run t_step s (replicate k (Read_t sid)) = Some s"
  using t_reads[OF stale_reads[OF assms], of k] by simp

text \<open>
  C5: What the sender knows to be acknowledged can be read, with one exception. The runs are
  those in which a delivered packet has less than 65536 bytes of data and overlaps at most one
  stored segment. If the first \<open>n\<close> bytes are acknowledged and no stored segment of the stream starts
  below the read position, as many reads as the receiver stores segments return them as they
  were written. If a stored segment does start below the read position, no number of reads
  changes anything.
\<close>
theorem transport_delivers:
  assumes "t_reachable True sc rc s" and "{..<n} \<subseteq> sys_acked (t_snd s) sid"
  shows "if stale (rcv_getOrCreateStream (rs_buf (t_rcv s)) sid)
    then \<forall>k. run t_step s (replicate k (Read_t sid)) = Some s
    else \<exists>s'. run t_step s (replicate (sm_size (segments (rcv_getOrCreateStream (rs_buf (t_rcv s)) sid))) (Read_t sid)) = Some s' \<and>
      take n (rs_read (t_rcv s') sid) = take n (sys_written (t_snd s) sid)"
proof (cases "stale (rcv_getOrCreateStream (rs_buf (t_rcv s)) sid)")
  case False
  note inv = t_reachable_inv[OF assms(1)]
  have "{..<n} \<subseteq> rs_arrived (t_rcv s) sid" using assms(2) inv unfolding t_inv_def by blast
  moreover have "rcv_inv (sys_written (t_snd s)) (t_rcv s)" "read_inv (sys_written (t_snd s)) (t_rcv s)"
    using t_inv_fields(3)[OF inv] by (simp_all add: rcv_side_def)
  moreover have "card (segs_at (rcv_getOrCreateStream (rs_buf (t_rcv s)) sid)) \<le> sm_size (segments (rcv_getOrCreateStream (rs_buf (t_rcv s)) sid))"
    by (simp add: card_length)
  ultimately obtain r where "run rcv_step (t_rcv s)
      (replicate (sm_size (segments (rcv_getOrCreateStream (rs_buf (t_rcv s)) sid))) (Read_next sid)) = Some r"
      "take n (rs_read r sid) = take n (sys_written (t_snd s) sid)"
    using reads_end[OF _ _ t_inv_fields(2)[OF inv] _ _ False] by blast
  then show ?thesis using False t_reads[of s _ sid r] by fastforce
qed (simp add: t_stale_reads)

theorem transport_delivers_witness:
  "\<exists>n s'. run t_step demo_end (replicate n (Read_t 1)) = Some s' \<and> take 3 (rs_read (t_rcv s') 1) = [7, 8, 9]"
proof -
  have a: "{..<3} \<subseteq> sys_acked (t_snd demo_end) 1" unfolding demo_end_facts(3) by (simp add: lessThan_atLeast0)
  have w: "take 3 (sys_written (t_snd demo_end) 1) = [7, 8, 9]" unfolding demo_end_facts(2) by simp
  from transport_delivers[OF demo_end_facts(1) a, unfolded w] demo_end_facts(5) show ?thesis by auto
qed

end
