(* ===== verification/Session.thy ===== *)
theory Session
  imports Transport Listener_System
begin

text \<open>
  An established connection between two listeners. Each call on one of the two connections is
  matched by steps of two transports, one for each direction: the send buffer of the connection
  is the sender of one of them, its receive buffer the receiver of the other.
\<close>

section \<open>Moves of a transport\<close>

definition t_reaches :: "transport \<Rightarrow> transport \<Rightarrow> bool" where
  "t_reaches T T' \<longleftrightarrow> (\<exists>es. run (guarded (t_ok False) t_step) T es = Some T')"

lemma run_append: "run f s (xs @ ys) = Option.bind (run f s xs) (\<lambda>s'. run f s' ys)"
  by (induction xs arbitrary: s) (auto split: option.splits)

lemma t_reaches_refl [simp]: "t_reaches T T"
  unfolding t_reaches_def by (rule exI[of _ "[]"]) simp

lemma t_reaches_trans: "t_reaches T T' \<Longrightarrow> t_reaches T' T'' \<Longrightarrow> t_reaches T T''"
  unfolding t_reaches_def by (metis run_append Option.bind.bind_lunit)

lemma t_reaches_step: "t_ok False T e \<Longrightarrow> t_step T e = Some T' \<Longrightarrow> t_reaches T T'"
  unfolding t_reaches_def by (rule exI[of _ "[e]"]) (simp add: guarded_def)

lemma t_reaches_reachable: "t_reachable False sc rc T \<Longrightarrow> t_reaches T T' \<Longrightarrow> t_reachable False sc rc T'"
  unfolding t_reachable_def t_reaches_def by (elim exE) (rule run_reachable)

text \<open>Moves of the sender and of the receiver, which leave the other side alone.\<close>

definition snd_move :: "transport \<Rightarrow> transport \<Rightarrow> bool" where
  "snd_move T T' \<longleftrightarrow> t_reaches T T' \<and> t_rcv T' = t_rcv T \<and> t_acks T' = t_acks T \<and> set (t_data T) \<subseteq> set (t_data T')"

definition rcv_move :: "transport \<Rightarrow> transport \<Rightarrow> bool" where
  "rcv_move T T' \<longleftrightarrow> t_reaches T T' \<and> t_snd T' = t_snd T \<and> t_data T' = t_data T \<and> set (t_acks T) \<subseteq> set (t_acks T')"

lemma snd_move_refl [simp]: "snd_move T T" and rcv_move_refl [simp]: "rcv_move T T"
  by (simp_all add: snd_move_def rcv_move_def)

lemma snd_move_trans: "snd_move T T' \<Longrightarrow> snd_move T' T'' \<Longrightarrow> snd_move T T''"
  by (auto simp: snd_move_def intro: t_reaches_trans)

lemma rcv_move_trans: "rcv_move T T' \<Longrightarrow> rcv_move T' T'' \<Longrightarrow> rcv_move T T''"
  by (auto simp: rcv_move_def intro: t_reaches_trans)

subsection \<open>What the send buffer does\<close>

lemma on_snd_move:
  assumes "t_inv False T" and "snd_ok (t_snd T) e" and "t_ok False T te" and "t_step T te = on_snd T e"
  shows "\<exists>T'. snd_move T T' \<and> snd_step (t_snd T) e = Some (t_snd T')"
proof -
  obtain T' where T': "on_snd T e = Some T'" using on_snd_defined[OF assms(1,2)] by blast
  then have "t_reaches T T'" using t_reaches_step[OF assms(3)] assms(4) by simp
  with T' show ?thesis by (auto simp: on_snd_def snd_move_def)
qed

lemma emit_fields:
  assumes "emit sid t ack r T = Some T'"
  shows "t_rcv T' = t_rcv T \<and> t_acks T' = t_acks T \<and> t_snd T' = t_snd T \<and> set (t_data T) \<subseteq> set (t_data T') \<and>
    (\<forall>d off cl. r = (Some d, off, cl) \<longrightarrow> t \<noteq> InitSnd \<longrightarrow> payloadBytes (packet_header cl ack sid off) (Some d) \<in> set (t_data T'))"
  using assms by (auto simp: emit_def EncodePayload_eq split: prod.splits option.splits if_splits)

lemma send_move:
  assumes inv: "t_inv False T" and ok: "mtu_ok t mtu" "ack_fits ack" and t: "t \<noteq> InitSnd"
    and r: "SendBuffer_ReadyToSend (sys_buf (t_snd T)) sid t ack mtu now = ((d, off, cl), sb)"
  shows "\<exists>T'. snd_move T T' \<and> sys_buf (t_snd T') = sb \<and> sys_written (t_snd T') = sys_written (t_snd T) \<and>
    (\<forall>b. d = Some b \<longrightarrow> payloadBytes (packet_header cl ack sid off) (Some b) \<in> set (t_data T'))"
proof -
  let ?e = "Send_ev sid t ack mtu now"
  obtain T1 where T1: "on_snd T ?e = Some T1" using on_snd_defined[OF inv, of ?e] ok(1) by auto
  obtain T' where T': "emit sid t ack (d, off, cl) T1 = Some T'" using emit_defined by blast
  have "t_step T (Send_t sid t ack mtu now) = Some T'" using T1 T' r by simp
  with t_reaches_step[OF _ this] ok have "t_reaches T T'" by simp
  with T1 r emit_fields[OF T'] t show ?thesis by (intro exI[of _ T']) (auto simp: on_snd_def snd_move_def)
qed

lemma resend_move:
  assumes inv: "t_inv False T" and ok: "mtu_ok t mtu" "ack_fits ack" and t: "t \<noteq> InitSnd"
    and r: "SendBuffer_ReadyToRetransmit (sys_buf (t_snd T)) sid ack mtu rto t now = Inr ((d, off, cl), sb)"
  shows "\<exists>T'. snd_move T T' \<and> sys_buf (t_snd T') = sb \<and> sys_written (t_snd T') = sys_written (t_snd T) \<and>
    (\<forall>b. d = Some b \<longrightarrow> payloadBytes (packet_header cl ack sid off) (Some b) \<in> set (t_data T'))"
proof -
  let ?e = "Retransmit_ev sid ack mtu rto t now"
  obtain T1 where T1: "on_snd T ?e = Some T1" using on_snd_defined[OF inv, of ?e] ok(1) by auto
  obtain T' where T': "emit sid t ack (d, off, cl) T1 = Some T'" using emit_defined by blast
  have "t_step T (Resend_t sid ack mtu rto t now) = Some T'" using T1 T' r by simp
  with t_reaches_step[OF _ this] ok have "t_reaches T T'" by simp
  with T1 r emit_fields[OF T'] t show ?thesis by (intro exI[of _ T']) (auto simp: on_snd_def snd_move_def)
qed

lemma empty_move:
  assumes "ack_fits ack" and "unat off < 2 ^ 48"
  shows "\<exists>T'. snd_move T T' \<and> t_snd T' = t_snd T \<and> payloadBytes (packet_header cl ack sid off) None \<in> set (t_data T')"
proof -
  let ?b = "payloadBytes (packet_header cl ack sid off) None"
  have "t_reaches T (T\<lparr>t_data := ?b # t_data T\<rparr>)"
    using assms by (intro t_reaches_step[of T "Empty_t cl ack sid off"]) (simp_all add: EncodePayload_eq)
  then show ?thesis by (intro exI[of _ "T\<lparr>t_data := ?b # t_data T\<rparr>"]) (auto simp: snd_move_def)
qed

subsection \<open>What the receive buffer does\<close>

lemma reply_move:
  assumes inv: "t_inv False T" and off: "unat off < 2 ^ 48"
    and g: "ReceiveBuffer_GetSndAck (rs_buf (t_rcv T)) = (ack0, rcv)"
  shows "\<exists>T'. rcv_move T T' \<and> rs_buf (t_rcv T') = rcv \<and> rs_read (t_rcv T') = rs_read (t_rcv T) \<and>
    (\<forall>a. ack0 = Some a \<longrightarrow> payloadBytes (packet_header cl (Some (a\<lparr>ack_rcvWnd := wnd\<rparr>)) sid off) ud \<in> set (t_acks T'))"
proof -
  let ?b = "\<lambda>a. payloadBytes (packet_header cl (Some (a\<lparr>ack_rcvWnd := wnd\<rparr>)) sid off) ud"
  define T' where "T' = T\<lparr>t_rcv := (t_rcv T)\<lparr>rs_buf := rcv\<rparr>, t_acks := (case ack0 of None \<Rightarrow> t_acks T | Some a \<Rightarrow> ?b a # t_acks T)\<rparr>"
  have "t_reaches T T'"
    using g off by (intro t_reaches_step[of T "Reply_t wnd cl sid off ud"])
      (cases T; auto simp: T'_def EncodePayload_eq split: option.splits)+
  then show ?thesis by (intro exI[of _ T']) (auto simp: rcv_move_def T'_def split: option.splits)
qed

lemma taken_ack_fits:
  assumes inv: "t_inv False T" and g: "ReceiveBuffer_GetSndAck (rs_buf (t_rcv T)) = (ack0, rcv)"
  shows "ack_fits (map_option (\<lambda>a. a\<lparr>ack_rcvWnd := wnd\<rparr>) ack0)"
proof -
  have "a \<in> set (ackList (rs_buf (t_rcv T)))" if "ack0 = Some a" for a
    using g that by (auto simp: ReceiveBuffer_GetSndAck_def split: list.splits)
  then show ?thesis using t_inv_fields(3)[OF inv] by (auto simp: rcv_side_def ack_ok_def split: option.splits)
qed

section \<open>Packets of an established connection\<close>

text \<open>The first epoch of an established connection: the bounds leave room for \<open>2 ^ 48\<close> packets.\<close>

definition established :: "u64 \<Rightarrow> bytes \<Rightarrow> bool \<Rightarrow> Conn \<Rightarrow> bool" where
  "established cid secret sender c \<longleftrightarrow>
     connId c = cid \<and> sharedSecret c = Some secret \<and> isSenderOnInit c = sender \<and> isHandshakeDoneOnRcv c \<and>
     epochCryptoSnd c = 0 \<and> epochCryptoRcv c = 0 \<and> unat (snCrypto c) < 2 ^ 48"

definition sealed_packet :: "crypto_lib \<Rightarrow> u64 \<Rightarrow> bytes \<Rightarrow> bool \<Rightarrow> u64 \<Rightarrow> bytes \<Rightarrow> bytes" where
  "sealed_packet L cid secret sender sn pl =
     id_header Data cid @ sealed_with L secret sn 0 sender (id_header Data cid) pl"

lemma length_sealed_packet: "lib_ok L \<Longrightarrow> length secret = 32 \<Longrightarrow> length (sealed_packet L cid secret sender sn pl) = length pl + 31"
  by (simp add: sealed_packet_def length_sealed_with)

lemma sealed_packet_opens:
  assumes "lib_ok L" and "length secret = 32" and "8 \<le> length pl" and "unat sn < 2 ^ 48"
  shows "decryptData L (sealed_packet L cid secret sender sn pl) spare (\<not> sender) 0 secret = Inr (mk_message (sn, 0, pl))"
proof -
  let ?h = "id_header Data cid"
  have "chainedDecrypt L (\<not> sender) 0 secret ?h (sealed_with L secret sn 0 sender ?h pl) spare = Inr (sn, 0, pl)"
    by (rule chained_roundtrip[OF assms, where before = "[]" and after = "[1]"]) (simp_all add: epochs_around_def)
  then show ?thesis
    using decryptData_split[of ?h "sealed_with L secret sn 0 sender ?h pl"] length_sealed_with[OF assms(1,2)]
    by (simp add: sealed_packet_def)
qed

text \<open>What a call that sends one packet leaves alone, and the packet it sends.\<close>

definition sends :: "crypto_lib \<Rightarrow> u64 \<Rightarrow> bytes \<Rightarrow> bool \<Rightarrow> Conn \<Rightarrow> bytes \<Rightarrow> flush_result \<Rightarrow> bool" where
  "sends L cid secret sender c pl f \<longleftrightarrow>
     (case f of (r, c', pkt) \<Rightarrow>
        c_snd c' = c_snd c \<and> c_rcv c' = c_rcv c \<and> streams c' = streams c \<and> conn_ident c' = conn_ident c \<and>
        epochCryptoSnd c' = 0 \<and> epochCryptoRcv c' = 0 \<and> unat (snCrypto c') = Suc (unat (snCrypto c)) \<and>
        (\<forall>enc. pkt = Some enc \<longrightarrow> enc = sealed_packet L cid secret sender (snCrypto c) pl))"

lemma encode_established:
  assumes L: "lib_ok L" "env_lib env = L" and k: "length secret = 32" and c: "established cid secret sender c"
    and sn: "unat (snCrypto c) + 1 < 2 ^ 48"
  shows "Conn_encode env c p ud Data =
    (Inr (sealed_packet L cid secret sender (snCrypto c) (payloadBytes p ud)), c\<lparr>snCrypto := snCrypto c + 1\<rparr>)"
proof -
  have "unat (snCrypto c + 1) = unat (snCrypto c) + 1" using sn by (subst unat_add_small) simp_all
  then have "\<not> 2 ^ 48 - 1 < snCrypto c + 1" using sn by (simp add: word_less_nat_alt)
  then show ?thesis
    using c L encryptData_eq[OF L(1) k payload_min]
    by (simp add: established_def Conn_encode_def encrypt_packet_def encode_payload_eq next_sn_def sealed_packet_def Let_def)
qed

lemma sendPacket_sends:
  assumes L: "lib_ok L" "env_lib env = L" and k: "length secret = 32" and c: "established cid secret sender c"
    and sn: "unat (snCrypto c) + 1 < 2 ^ 48"
  shows "sends L cid secret sender c (payloadBytes (packet_header cl ack (st_streamID s) off) (Some d))
    (Conn_sendPacket env c s ack d off cl Data now track werr)"
proof -
  have "unat (snCrypto c + 1) = Suc (unat (snCrypto c))" using sn by (subst unat_add_small) simp_all
  then show ?thesis
    using c encode_established[OF L k c sn]
    by (auto simp: Conn_sendPacket_def write_packet_def sends_def established_def packet_header_def conn_ident_def Let_def
        split: option.splits)
qed

lemma writeAck_sends:
  assumes L: "lib_ok L" "env_lib env = L" and k: "length secret = 32" and c: "established cid secret sender c"
    and sn: "unat (snCrypto c) + 1 < 2 ^ 48"
  shows "sends L cid secret sender c (payloadBytes (packet_header (checkStreamFullyAcked c (st_streamID s)) ack (st_streamID s) 0) None)
    (Conn_writeAck env c s ack now werr)"
proof -
  have "unat (snCrypto c + 1) = Suc (unat (snCrypto c))" using sn by (subst unat_add_small) simp_all
  moreover have "Conn_msgType c = Data" using c by (simp add: established_def Conn_msgType_def)
  ultimately show ?thesis
    using c encode_established[OF L k c sn]
    by (auto simp: Conn_writeAck_def write_packet_def sends_def established_def packet_header_def conn_ident_def Let_def
        split: option.splits)
qed

section \<open>A flush\<close>

text \<open>
  The connection and the two transports: \<open>out\<close> carries what it writes, \<open>inn\<close> what it reads.
\<close>

definition linked :: "Conn \<Rightarrow> transport \<Rightarrow> transport \<Rightarrow> bool" where
  "linked c out inn \<longleftrightarrow> t_inv False out \<and> t_inv False inn \<and> sys_buf (t_snd out) = c_snd c \<and> rs_buf (t_rcv inn) = c_rcv c"

text \<open>A packet of which the payload was sent: as data in one transport, as a reply in the other.\<close>

definition on_wire :: "crypto_lib \<Rightarrow> u64 \<Rightarrow> bytes \<Rightarrow> bool \<Rightarrow> transport \<Rightarrow> transport \<Rightarrow> bytes \<Rightarrow> bool" where
  "on_wire L cid secret sender out inn enc \<longleftrightarrow>
     (\<exists>pl sn. enc = sealed_packet L cid secret sender sn pl \<and> unat sn < 2 ^ 48 \<and> 8 \<le> length pl \<and> pl \<in> set (t_data out) \<and>
        (\<forall>p ud a. DecodePayload pl = Inr (p, ud) \<longrightarrow> ph_Ack p = Some a \<longrightarrow> pl \<in> set (t_acks inn)))"

lemma on_wire_mono:
  "on_wire L cid secret sender out inn enc \<Longrightarrow> set (t_data out) \<subseteq> set (t_data out') \<Longrightarrow> set (t_acks inn) \<subseteq> set (t_acks inn') \<Longrightarrow>
   on_wire L cid secret sender out' inn' enc"
  unfolding on_wire_def by blast

lemma t_inv_reaches: "t_reaches T T' \<Longrightarrow> t_inv False T \<Longrightarrow> t_inv False T'"
proof -
  have "run (guarded (t_ok False) t_step) T es = Some T' \<Longrightarrow> t_inv False T \<Longrightarrow> t_inv False T'" for es
    by (induction es arbitrary: T) (auto simp: guarded_def split: option.splits if_splits intro: t_inv_step)
  then show "t_reaches T T' \<Longrightarrow> t_inv False T \<Longrightarrow> t_inv False T'" by (auto simp: t_reaches_def)
qed

definition flushed :: "crypto_lib \<Rightarrow> u64 \<Rightarrow> bytes \<Rightarrow> bool \<Rightarrow> transport \<Rightarrow> transport \<Rightarrow> Conn \<Rightarrow> flush_result \<Rightarrow> bool" where
  "flushed L cid secret sender out inn c f \<longleftrightarrow>
     (case f of (r, c', pkt) \<Rightarrow>
        \<exists>out' inn'. snd_move out out' \<and> rcv_move inn inn' \<and> linked c' out' inn' \<and>
          sys_written (t_snd out') = sys_written (t_snd out) \<and> rs_read (t_rcv inn') = rs_read (t_rcv inn) \<and>
          established cid secret sender c' \<and> unat (snCrypto c') \<le> Suc (unat (snCrypto c)) \<and> streams c' = streams c \<and>
          (\<forall>enc. pkt = Some enc \<longrightarrow> on_wire L cid secret sender out' inn' enc))"

lemma established_ident:
  "established cid secret sender c \<Longrightarrow> conn_ident c' = conn_ident c \<Longrightarrow> epochCryptoSnd c' = 0 \<Longrightarrow> epochCryptoRcv c' = 0 \<Longrightarrow>
   unat (snCrypto c') < 2 ^ 48 \<Longrightarrow> established cid secret sender c'"
  by (simp add: established_def conn_ident_def)

text \<open>
  The common end of all paths through a flush: the acknowledgement was taken, the send buffer
  has moved, and one packet or none is written.
\<close>

lemma flushed_nothing:
  assumes g: "ReceiveBuffer_GetSndAck (c_rcv c) = (ack0, rcv)" and l: "linked c out inn" and est: "established cid secret sender c"
    and out1: "snd_move out out1" "sys_buf (t_snd out1) = c_snd c1" "sys_written (t_snd out1) = sys_written (t_snd out)"
    and c1: "c1 = c\<lparr>c_rcv := rcv, c_snd := sb, measurements := m\<rparr>"
  shows "flushed L cid secret sender out inn c (r, c1, None)"
proof -
  have li: "t_inv False out" "t_inv False inn" "ReceiveBuffer_GetSndAck (rs_buf (t_rcv inn)) = (ack0, rcv)"
    using l g by (simp_all add: linked_def)
  obtain inn' where i: "rcv_move inn inn'" "rs_buf (t_rcv inn') = rcv" "rs_read (t_rcv inn') = rs_read (t_rcv inn)"
    using reply_move[OF li(2) _ li(3), of 0 False 0 0 None] by auto
  have "linked c1 out1 inn'"
    using out1 i(1,2) li t_inv_reaches by (auto simp: linked_def snd_move_def rcv_move_def c1)
  then show ?thesis
    using out1 i est unfolding flushed_def c1 by (auto simp: established_def)
qed

lemma flushed_packet:
  assumes g: "ReceiveBuffer_GetSndAck (c_rcv c) = (ack0, rcv)" and l: "linked c out inn" and est: "established cid secret sender c"
    and sn: "unat (snCrypto c) + 1 < 2 ^ 48" and ack: "ack = map_option (\<lambda>a. a\<lparr>ack_rcvWnd := wnd\<rparr>) ack0"
    and out1: "snd_move out out1" "sys_buf (t_snd out1) = c_snd c1" "sys_written (t_snd out1) = sys_written (t_snd out)"
    and c1: "c1 = c\<lparr>c_rcv := rcv, c_snd := sb, measurements := m\<rparr>"
    and pl: "payloadBytes (packet_header cl ack sid off) ud \<in> set (t_data out1)" "unat off < 2 ^ 48"
    and f: "sends L cid secret sender c1 (payloadBytes (packet_header cl ack sid off) ud) f"
  shows "flushed L cid secret sender out inn c f"
proof -
  let ?pl = "payloadBytes (packet_header cl ack sid off) ud"
  have li: "t_inv False out" "t_inv False inn" "ReceiveBuffer_GetSndAck (rs_buf (t_rcv inn)) = (ack0, rcv)"
    using l g by (simp_all add: linked_def)
  obtain inn' where i: "rcv_move inn inn'" "rs_buf (t_rcv inn') = rcv" "rs_read (t_rcv inn') = rs_read (t_rcv inn)"
      "\<And>a. ack0 = Some a \<Longrightarrow> payloadBytes (packet_header cl (Some (a\<lparr>ack_rcvWnd := wnd\<rparr>)) sid off) ud \<in> set (t_acks inn')"
    using reply_move[OF li(2) pl(2) li(3), of cl wnd sid ud] by auto
  have af: "ack_fits ack" unfolding ack by (rule taken_ack_fits[OF li(2,3)])
  then have "DecodePayload ?pl = Inr (transmitted (packet_header cl ack sid off) ud)"
    using DecodePayload_payloadBytes[of "packet_header cl ack sid off" ud] pl(2) by (simp add: packet_header_def offsetsFit_def)
  then have "?pl \<in> set (t_acks inn')" if "DecodePayload ?pl = Inr (p, ud')" "ph_Ack p = Some a" for p ud' a
    using that i(4) by (cases ack0) (auto simp: transmitted_def packet_header_def ack Let_def split: if_splits)
  then have wire: "on_wire L cid secret sender out1 inn' (sealed_packet L cid secret sender (snCrypto c) ?pl)"
    using pl(1) payload_min[of "packet_header cl ack sid off" ud] est unfolding on_wire_def established_def by blast
  obtain r c' pkt where fc: "f = (r, c', pkt)" by (cases f)
  have s: "c_snd c' = c_snd c1" "c_rcv c' = rcv" "streams c' = streams c" "conn_ident c' = conn_ident c" "epochCryptoSnd c' = 0"
    "epochCryptoRcv c' = 0" "unat (snCrypto c') = Suc (unat (snCrypto c))"
    "\<And>enc. pkt = Some enc \<Longrightarrow> enc = sealed_packet L cid secret sender (snCrypto c) ?pl"
    using f by (simp_all add: sends_def fc c1)
  have "linked c' out1 inn'"
    using out1 i(1,2) li t_inv_reaches s(1,2) by (auto simp: linked_def snd_move_def rcv_move_def)
  moreover have "established cid secret sender c'" using established_ident[OF est s(4-6)] s(7) sn by simp
  ultimately show ?thesis
    using out1 i s wire unfolding flushed_def fc by auto
qed

text \<open>A connection in the middle of a flush: the acknowledgement is taken, the send buffer has moved.\<close>

definition ack_taken :: "Conn \<Rightarrow> Ack option \<Rightarrow> Conn \<Rightarrow> bool" where
  "ack_taken c ack c1 \<longleftrightarrow>
     (\<exists>ack0 rcv wnd sb m. ReceiveBuffer_GetSndAck (c_rcv c) = (ack0, rcv) \<and>
        ack = map_option (\<lambda>a. a\<lparr>ack_rcvWnd := wnd\<rparr>) ack0 \<and> c1 = c\<lparr>c_rcv := rcv, c_snd := sb, measurements := m\<rparr>)"

lemma ack_taken_snd:
  assumes "ack_taken c ack c1"
  shows "ack_taken c ack (c1\<lparr>c_snd := sb, measurements := m\<rparr>)" "ack_taken c ack (c1\<lparr>c_snd := sb\<rparr>)"
proof -
  obtain ack0 rcv wnd sb0 m0 where a: "ReceiveBuffer_GetSndAck (c_rcv c) = (ack0, rcv)"
      "ack = map_option (\<lambda>a. a\<lparr>ack_rcvWnd := wnd\<rparr>) ack0" and c1: "c1 = c\<lparr>c_rcv := rcv, c_snd := sb0, measurements := m0\<rparr>"
    using assms by (auto simp: ack_taken_def)
  show "ack_taken c ack (c1\<lparr>c_snd := sb, measurements := m\<rparr>)"
    unfolding ack_taken_def using a c1 by (intro exI conjI) (assumption+, simp)
  show "ack_taken c ack (c1\<lparr>c_snd := sb\<rparr>)"
    unfolding ack_taken_def by (intro exI[of _ ack0] exI[of _ rcv] exI[of _ wnd] exI[of _ sb] exI[of _ m0]) (simp add: a c1)
qed

definition flushing :: "u64 \<Rightarrow> bytes \<Rightarrow> bool \<Rightarrow> transport \<Rightarrow> transport \<Rightarrow> Conn \<Rightarrow> Ack option \<Rightarrow> Conn \<Rightarrow> transport \<Rightarrow> bool" where
  "flushing cid secret sender out inn c ack c1 out1 \<longleftrightarrow>
     established cid secret sender c \<and> unat (snCrypto c) + 1 < 2 ^ 48 \<and> linked c out inn \<and>
     snd_move out out1 \<and> sys_buf (t_snd out1) = c_snd c1 \<and> sys_written (t_snd out1) = sys_written (t_snd out) \<and> ack_taken c ack c1"

lemma flushing_fields:
  assumes "flushing cid secret sender out inn c ack c1 out1"
  shows "established cid secret sender c1" "unat (snCrypto c1) + 1 < 2 ^ 48" "ack_fits ack" "t_inv False out1"
  using assms taken_ack_fits[of inn] t_inv_reaches[of out out1]
  by (auto simp: flushing_def ack_taken_def established_def linked_def snd_move_def)

lemma flushing_move:
  assumes "flushing cid secret sender out inn c ack c1 out1"
    and "snd_move out1 out2" and "sys_buf (t_snd out2) = sb" and "sys_written (t_snd out2) = sys_written (t_snd out1)"
  shows "flushing cid secret sender out inn c ack (c1\<lparr>c_snd := sb, measurements := m\<rparr>) out2"
    and "flushing cid secret sender out inn c ack (c1\<lparr>c_snd := sb\<rparr>) out2"
  using assms snd_move_trans[of out out1 out2] ack_taken_snd[of c ack c1] unfolding flushing_def by auto

lemma flushing_nothing: "flushing cid secret sender out inn c ack c1 out1 \<Longrightarrow> flushed L cid secret sender out inn c (r, c1, None)"
  unfolding flushing_def ack_taken_def using flushed_nothing by blast

lemma flushing_packet:
  "flushing cid secret sender out inn c ack c1 out1 \<Longrightarrow> payloadBytes (packet_header cl ack sid off) ud \<in> set (t_data out1) \<Longrightarrow>
   unat off < 2 ^ 48 \<Longrightarrow> sends L cid secret sender c1 (payloadBytes (packet_header cl ack sid off) ud) f \<Longrightarrow>
   flushed L cid secret sender out inn c f"
  unfolding flushing_def ack_taken_def using flushed_packet by blast

lemma flushing_writeAck:
  assumes L: "lib_ok L" "env_lib env = L" "length secret = 32" and f: "flushing cid secret sender out inn c ack c1 out1"
  shows "flushed L cid secret sender out inn c (Conn_writeAck env c1 s ack now werr)"
proof -
  let ?cl = "checkStreamFullyAcked c1 (st_streamID s)"
  obtain out2 where o: "snd_move out1 out2" "t_snd out2 = t_snd out1" "payloadBytes (packet_header ?cl ack (st_streamID s) 0) None \<in> set (t_data out2)"
    using empty_move[OF flushing_fields(3)[OF f], of 0 out1 ?cl "st_streamID s"] by auto
  have "flushing cid secret sender out inn c ack c1 out2"
    using f o(1,2) snd_move_trans[of out out1 out2] unfolding flushing_def by auto
  from flushing_packet[OF this o(3) _ writeAck_sends[OF L flushing_fields(1,2)[OF this]]] show ?thesis by simp
qed

lemma flushing_sendPacket:
  assumes L: "lib_ok L" "env_lib env = L" "length secret = 32" and f: "flushing cid secret sender out inn c ack c1 out1"
    and b: "payloadBytes (packet_header cl ack (st_streamID s) off) (Some b) \<in> set (t_data out1)" "unat off < 2 ^ 48"
  shows "flushed L cid secret sender out inn c (Conn_sendPacket env c1 s ack b off cl Data now track werr)"
  using flushing_packet[OF f b sendPacket_sends[OF L flushing_fields(1,2)[OF f]]] .

lemma flushing_flush_new:
  assumes L: "lib_ok L" "env_lib env = L" "length secret = 32" and f: "flushing cid secret sender out inn c ack c1 out1"
    and mtu: "mtu_ok Data (env_mtu env)"
  shows "flushed L cid secret sender out inn c (flush_new env c1 s ack Data now werr)"
proof -
  obtain d off cl sb where r: "SendBuffer_ReadyToSend (c_snd c1) (st_streamID s) Data ack (env_mtu env) now = ((d, off, cl), sb)"
    by (metis prod.exhaust)
  have c1: "c_snd c1 = sys_buf (t_snd out1)" using f by (simp add: flushing_def)
  note ff = flushing_fields[OF f]
  obtain out2 where o: "snd_move out1 out2" "sys_buf (t_snd out2) = sb" "sys_written (t_snd out2) = sys_written (t_snd out1)"
      "\<And>b. d = Some b \<Longrightarrow> payloadBytes (packet_header cl ack (st_streamID s) off) (Some b) \<in> set (t_data out2)"
    using send_move[OF ff(4) mtu ff(3) _ r[unfolded c1]] by auto
  note f2 = flushing_move(2)[OF f o(1-3)]
  have "unat off < 2 ^ 48" if "d = Some b" for b
    using ReadyToSend_slice[OF t_inv_fields(1)[OF ff(4)] mtu r[unfolded c1 that]] by blast
  then have "flushed L cid secret sender out inn c (Conn_sendPacket env (c1\<lparr>c_snd := sb\<rparr>) s ack b off cl Data now True werr)" if "d = Some b" for b
    using flushing_sendPacket[OF L f2 o(4)] that by blast
  then show ?thesis
    using flushing_writeAck[OF L f2] flushing_nothing[OF f2] flushing_writeAck[OF L f] flushing_nothing[OF f] r
    by (auto simp: flush_new_def Let_def split: option.splits)
qed

theorem Conn_Flush_flushed:
  assumes L: "lib_ok L" "env_lib env = L" "length secret = 32" and mtu: "mtu_ok Data (env_mtu env)"
    and est: "established cid secret sender c" and sn: "unat (snCrypto c) + 1 < 2 ^ 48" and l: "linked c out inn"
  shows "flushed L cid secret sender out inn c (Conn_Flush env c s now werr)"
proof -
  obtain ack0 rcv where g: "ReceiveBuffer_GetSndAck (c_rcv c) = (ack0, rcv)" by fastforce
  let ?ack = "map_option (\<lambda>a. a\<lparr>ack_rcvWnd := word_of_int (rcv_capacity rcv) - word_of_int (ReceiveBuffer_Size rcv)\<rparr>) ack0"
  let ?c = "c\<lparr>c_rcv := rcv\<rparr>"
  let ?rt = "SendBuffer_ReadyToRetransmit (c_snd c) (st_streamID s) ?ack (env_mtu env) (rtoNano (measurements c)) Data now"
  have t: "Conn_msgType ?c = Data" using est by (simp add: established_def Conn_msgType_def)
  have "ack_taken c ?ack ?c"
    unfolding ack_taken_def using g
    by (intro exI[of _ ack0] exI[of _ rcv] exI[of _ "c_snd c"] exI[of _ "measurements c"]
        exI[of _ "word_of_int (rcv_capacity rcv) - word_of_int (ReceiveBuffer_Size rcv)"]) simp
  then have f: "flushing cid secret sender out inn c ?ack ?c out"
    using est sn l by (simp add: flushing_def linked_def)
  note ff = flushing_fields[OF f]
  have c: "c_snd c = sys_buf (t_snd out)" using l by (simp add: linked_def)
  have rest: "flushed L cid secret sender out inn c
      (case d of Some b \<Rightarrow> Conn_sendPacket env (?c\<lparr>c_snd := sb, measurements := m\<rparr>) s ?ack b off cl Data now False werr
       | None \<Rightarrow> flush_new env (?c\<lparr>c_snd := sb\<rparr>) s ?ack Data now werr)" if r: "?rt = Inr ((d, off, cl), sb)" for d off cl sb m
  proof -
    obtain out2 where o: "snd_move out out2" "sys_buf (t_snd out2) = sb" "sys_written (t_snd out2) = sys_written (t_snd out)"
        "\<And>b. d = Some b \<Longrightarrow> payloadBytes (packet_header cl ?ack (st_streamID s) off) (Some b) \<in> set (t_data out2)"
      using resend_move[OF ff(4) mtu ff(3) _ r[unfolded c]] by auto
    have off: "unat off < 2 ^ 48" if "d = Some b" for b
      using ReadyToRetransmit_slice[OF t_inv_fields(1)[OF ff(4)] mtu r[unfolded c that]] by blast
    show ?thesis
    proof (cases d)
      case None
      then show ?thesis using flushing_flush_new[OF L flushing_move(2)[OF f o(1-3)] mtu] by simp
    next
      case (Some b)
      then show ?thesis using flushing_sendPacket[OF L flushing_move(1)[OF f o(1-3)] o(4) off] by simp
    qed
  qed
  show ?thesis
    using flushing_nothing[OF f] flushing_writeAck[OF L f] rest t
    by (auto simp: Conn_Flush_def g Let_def split: sum.splits prod.splits option.splits)
qed

section \<open>One side of a session\<close>

text \<open>
  The responder has the secret before its handshake is done. Until the first data packet arrives
  it has nothing in flight and nothing to acknowledge, and a flush sends nothing.
\<close>

definition quiet :: "SendBuffer \<Rightarrow> bool" where
  "quiet sb \<longleftrightarrow> (\<forall>sid st. snd_streams sb sid = Some st \<longrightarrow> lm_entries (dataInFlightMap st) = [])"

definition waiting :: "Conn \<Rightarrow> bool" where
  "waiting c \<longleftrightarrow> \<not> isHandshakeDoneOnRcv c \<and> \<not> isSenderOnInit c \<and> isInitSentOnSnd c \<and> ackList (c_rcv c) = [] \<and> quiet (c_snd c)"

definition keyed :: "u64 \<Rightarrow> bytes \<Rightarrow> bool \<Rightarrow> Conn \<Rightarrow> bool" where
  "keyed cid secret sender c \<longleftrightarrow>
     connId c = cid \<and> sharedSecret c = Some secret \<and> isSenderOnInit c = sender \<and>
     epochCryptoSnd c = 0 \<and> epochCryptoRcv c = 0 \<and> unat (snCrypto c) < 2 ^ 48 \<and> streams_wf c"

definition agrees :: "u64 \<Rightarrow> bytes \<Rightarrow> bool \<Rightarrow> transport \<Rightarrow> transport \<Rightarrow> Conn \<Rightarrow> bool" where
  "agrees cid secret sender out inn c \<longleftrightarrow> keyed cid secret sender c \<and> linked c out inn \<and> (isHandshakeDoneOnRcv c \<or> waiting c)"

lemma agrees_established: "agrees cid secret sender out inn c \<Longrightarrow> isHandshakeDoneOnRcv c \<Longrightarrow> established cid secret sender c"
  by (simp add: agrees_def keyed_def established_def)

lemma quiet_retransmit:
  assumes "quiet sb"
  shows "SendBuffer_ReadyToRetransmit sb sid ack mtu rto t now = Inr ((None, 0, False), sb)"
  using assms by (auto simp: quiet_def SendBuffer_ReadyToRetransmit_def entry_result_def split: option.splits)

lemma waiting_flush:
  assumes "waiting c"
  shows "\<exists>r. Conn_Flush env c s now werr = (r, c, None)"
proof -
  have g: "ReceiveBuffer_GetSndAck (c_rcv c) = (None, c_rcv c)" using assms by (simp add: waiting_def ReceiveBuffer_GetSndAck_def)
  show ?thesis
    using assms by (auto simp: Conn_Flush_def g flush_new_def waiting_def quiet_retransmit Let_def)
qed

definition same_traffic :: "transport \<Rightarrow> transport \<Rightarrow> bool" where
  "same_traffic T T' \<longleftrightarrow> sys_written (t_snd T') = sys_written (t_snd T) \<and> rs_read (t_rcv T') = rs_read (t_rcv T)"

lemma Conn_Flush_agrees:
  assumes L: "lib_ok L" "env_lib env = L" "length secret = 32" and mtu: "mtu_ok Data (env_mtu env)"
    and a: "agrees cid secret sender out inn c" and sn: "unat (snCrypto c) + 1 < 2 ^ 48"
    and f: "Conn_Flush env c s now werr = (r, c', pkt)"
  shows "\<exists>out' inn'. snd_move out out' \<and> rcv_move inn inn' \<and> same_traffic out out' \<and> same_traffic inn inn' \<and>
    agrees cid secret sender out' inn' c' \<and> streams c' = streams c \<and> unat (snCrypto c') \<le> Suc (unat (snCrypto c)) \<and>
    (\<forall>enc. pkt = Some enc \<longrightarrow> on_wire L cid secret sender out' inn' enc)"
proof (cases "isHandshakeDoneOnRcv c")
  case True
  have "flushed L cid secret sender out inn c (r, c', pkt)"
    using Conn_Flush_flushed[OF L mtu agrees_established[OF a True] sn, of out inn s now werr] a f by (simp add: agrees_def)
  then obtain out' inn' where m: "snd_move out out'" "rcv_move inn inn'" "linked c' out' inn'"
      "sys_written (t_snd out') = sys_written (t_snd out)" "rs_read (t_rcv inn') = rs_read (t_rcv inn)"
      "established cid secret sender c'" "unat (snCrypto c') \<le> Suc (unat (snCrypto c))" "streams c' = streams c"
      "\<forall>enc. pkt = Some enc \<longrightarrow> on_wire L cid secret sender out' inn' enc"
    unfolding flushed_def prod.case by blast
  have "streams_wf c'" using a m(8) by (simp add: agrees_def keyed_def streams_wf_def)
  then have "agrees cid secret sender out' inn' c'" using m(3,6) by (simp add: agrees_def keyed_def established_def)
  moreover have "same_traffic out out'" "same_traffic inn inn'"
    using m(1,2,4,5) by (simp_all add: same_traffic_def snd_move_def rcv_move_def)
  ultimately show ?thesis using m by blast
next
  case False
  then have "waiting c" using a by (simp add: agrees_def)
  then have "c' = c" "pkt = None" using waiting_flush[of c env s now werr] f by auto
  then show ?thesis using a by (intro exI[of _ out] exI[of _ inn]) (simp add: same_traffic_def)
qed

section \<open>A packet that arrives\<close>

lemma same_traffic_refl [simp]: "same_traffic T T"
  and same_traffic_trans: "same_traffic T T' \<Longrightarrow> same_traffic T' T'' \<Longrightarrow> same_traffic T T''"
  by (simp_all add: same_traffic_def)

lemma rcv_step_read: "rcv_step r e = Some r' \<Longrightarrow> \<forall>sid. e \<noteq> Read_next sid \<Longrightarrow> rs_read r' = rs_read r"
  by (cases e) (auto split: option.splits prod.splits)

lemma t_receive_read: "t_receive r p ud now = Some r' \<Longrightarrow> rs_read r' = rs_read r"
  by (auto simp: t_receive_def bind_eq_Some_conv simp del: rcv_step.simps dest!: rcv_step_read split: option.splits if_splits)

text \<open>What the packet does to the receive buffer is a delivery in the incoming transport.\<close>

lemma deliver_move:
  assumes pl: "pl \<in> set (t_data T)" "DecodePayload pl = Inr (p, ud)" and r: "t_receive (t_rcv T) p ud now = Some r"
  shows "rcv_move T (T\<lparr>t_rcv := r\<rparr>) \<and> same_traffic T (T\<lparr>t_rcv := r\<rparr>)"
  using t_reaches_step[of T "Deliver_t pl now"] pl r t_receive_read[OF r] by (auto simp: rcv_move_def same_traffic_def)

text \<open>What it does to the send buffer is an acknowledgement and a close in the outgoing one.\<close>

lemma snd_step_written: "snd_step y e = Some y' \<Longrightarrow> \<forall>sid d. e \<noteq> Queue_ev sid d \<Longrightarrow> sys_written y' = sys_written y"
  by (cases e) (auto split: sum.splits go_error.splits prod.splits)

lemma snd_step_ack: "snd_step y (Ack_ev a) = Some y' \<Longrightarrow> sys_buf y' = snd (SendBuffer_AcknowledgeRange (sys_buf y) a)"
  and snd_step_close: "snd_step y (Close_ev sid) = Some y' \<Longrightarrow> sys_buf y' = SendBuffer_Close (sys_buf y) sid"
  by (auto split: prod.splits)

lemma snd_event_move:
  assumes "t_inv False T" and "t_ok False T te" and "t_step T te = on_snd T e" and "snd_ok (t_snd T) e" and "\<forall>sid d. e \<noteq> Queue_ev sid d"
  shows "\<exists>T'. snd_move T T' \<and> same_traffic T T' \<and> t_rcv T' = t_rcv T \<and> snd_step (t_snd T) e = Some (t_snd T')"
proof -
  obtain T' where T': "snd_move T T'" "snd_step (t_snd T) e = Some (t_snd T')" using on_snd_move[OF assms(1,4,2,3)] by blast
  have "sys_written (t_snd T') = sys_written (t_snd T)" by (rule snd_step_written[OF T'(2) assms(5)])
  then show ?thesis using T' by (intro exI[of _ T']) (auto simp: same_traffic_def snd_move_def)
qed

definition acked_and_closed :: "SendBuffer \<Rightarrow> PayloadHeader \<Rightarrow> SendBuffer" where
  "acked_and_closed sb p =
     (let sb = (case ph_Ack p of None \<Rightarrow> sb | Some a \<Rightarrow> snd (SendBuffer_AcknowledgeRange sb a)) in
      if ph_IsClose p then SendBuffer_Close sb (ph_StreamID p) else sb)"

lemma acked_and_closed_move:
  assumes inv: "t_inv False T" and pl: "DecodePayload pl = Inr (p, ud)" "\<And>a. ph_Ack p = Some a \<Longrightarrow> pl \<in> set (t_acks T)"
  shows "\<exists>T'. snd_move T T' \<and> same_traffic T T' \<and> t_rcv T' = t_rcv T \<and> sys_buf (t_snd T') = acked_and_closed (sys_buf (t_snd T)) p"
proof -
  obtain T1 where T1: "snd_move T T1" "same_traffic T T1" "t_rcv T1 = t_rcv T"
      "sys_buf (t_snd T1) = (case ph_Ack p of None \<Rightarrow> sys_buf (t_snd T) | Some a \<Rightarrow> snd (SendBuffer_AcknowledgeRange (sys_buf (t_snd T)) a))"
  proof (cases "ph_Ack p")
    case (Some a)
    obtain T1 where "snd_move T T1" "same_traffic T T1" "t_rcv T1 = t_rcv T" "snd_step (t_snd T) (Ack_ev a) = Some (t_snd T1)"
      using snd_event_move[OF inv, of "Deliver_ack_t pl" "Ack_ev a"] Some pl by auto
    then show ?thesis using that[of T1] Some snd_step_ack[of "t_snd T" a "t_snd T1"] by simp
  qed (use that[of T] in simp)
  show ?thesis
  proof (cases "ph_IsClose p")
    case True
    have "t_inv False T1" using t_inv_reaches[OF _ inv] T1(1) by (simp add: snd_move_def)
    then obtain T' where T': "snd_move T1 T'" "same_traffic T1 T'" "t_rcv T' = t_rcv T1"
        "snd_step (t_snd T1) (Close_ev (ph_StreamID p)) = Some (t_snd T')"
      using snd_event_move[of T1 "Close_t (ph_StreamID p)" "Close_ev (ph_StreamID p)"] by auto
    have "sys_buf (t_snd T') = acked_and_closed (sys_buf (t_snd T)) p"
      using snd_step_close[OF T'(4)] T1(4) True by (simp add: acked_and_closed_def)
    then show ?thesis
      using T1(3) T'(3) snd_move_trans[OF T1(1) T'(1)] same_traffic_trans[OF T1(2) T'(2)] by (intro exI[of _ T']) simp
  qed (use T1 in \<open>auto simp: acked_and_closed_def\<close>)
qed

lemma decode_ack_snd: "decode_ack c k s a n now = Some c' \<Longrightarrow> c_snd c' = snd (SendBuffer_AcknowledgeRange (c_snd c) a)"
  by (auto simp: decode_ack_def put_stream_def bind_eq_Some_conv Let_def split: prod.splits if_splits AckStatus.splits)

lemma Conn_decode_snd:
  assumes d: "Conn_decode c p ud n now = Some (sid, c')" and wf: "streams_wf c"
  shows "c_snd c' = acked_and_closed (c_snd c) p"
proof -
  obtain s c1 where s: "Conn_Stream c (ph_StreamID p) = (s, c1)" by fastforce
  have sid: "st_streamID s = ph_StreamID p" using Conn_Stream_wf[OF wf s] by simp
  have c1: "c_snd c1 = c_snd c" using s by (auto simp: Conn_Stream_def Let_def split: option.splits)
  obtain c2 c3 where c2: "(case ph_Ack p of None \<Rightarrow> Some c1 | Some a \<Rightarrow> decode_ack c1 (ph_StreamID p) s a n now) = Some c2"
    and c3: "decode_data c2 (ph_StreamID p) p ud now = Some c3"
    and c': "c_snd c' = (if ph_IsClose p then SendBuffer_Close (c_snd c3) (ph_StreamID p) else c_snd c3)"
    using d s sid by (cases "ph_IsClose p") (auto simp: Conn_decode_def bind_eq_Some_conv Let_def)
  have "c_snd c3 = c_snd c2" using c3 by (auto simp: decode_data_def bind_eq_Some_conv split: if_splits)
  moreover have "c_snd c2 = (case ph_Ack p of None \<Rightarrow> c_snd c | Some a \<Rightarrow> snd (SendBuffer_AcknowledgeRange (c_snd c) a))"
    using c2 c1 decode_ack_snd[of c1 _ s _ n now c2] by (auto split: option.splits)
  ultimately show ?thesis using c' by (simp add: acked_and_closed_def)
qed

lemma Conn_decode_keyed:
  assumes k: "keyed cid secret sender c" and d: "Conn_decode c p ud n now = Some (sid, c')"
  shows "keyed cid secret sender c' \<and> isHandshakeDoneOnRcv c' = isHandshakeDoneOnRcv c"
proof -
  let ?f = "\<lambda>c. (connId c, sharedSecret c, isSenderOnInit c, isHandshakeDoneOnRcv c, epochCryptoSnd c, epochCryptoRcv c, snCrypto c)"
  have wf: "streams_wf c" using k by (simp add: keyed_def)
  obtain s c1 where s: "Conn_Stream c (ph_StreamID p) = (s, c1)" by fastforce
  have sid: "st_streamID (s\<lparr>st_closedAtNano := now\<rparr>) = ph_StreamID p" using Conn_Stream_wf[OF wf s] by simp
  have c1: "?f c1 = ?f c" "streams_wf c1" using s Conn_Stream_wf[OF wf s] by (auto simp: Conn_Stream_def Let_def split: option.splits)
  obtain c2 c3 where c2: "(case ph_Ack p of None \<Rightarrow> Some c1 | Some a \<Rightarrow> decode_ack c1 (ph_StreamID p) s a n now) = Some c2"
    and c3: "decode_data c2 (st_streamID s) p ud now = Some c3" and c': "?f c' = ?f c3" "streams c' = streams c3"
    using d s by (cases "ph_IsClose p") (auto simp: Conn_decode_def bind_eq_Some_conv Let_def)
  have ack: "decode_ack c1 (ph_StreamID p) s a n now = Some c2 \<Longrightarrow> ?f c2 = ?f c1" for a
    by (auto simp: decode_ack_def put_stream_def bind_eq_Some_conv Let_def split: prod.splits if_splits AckStatus.splits)
  have "?f c2 = ?f c1 \<and> streams_wf c2"
  proof (cases "ph_Ack p")
    case (Some a)
    then have a: "decode_ack c1 (ph_StreamID p) s a n now = Some c2" using c2 by simp
    have "streams_wf c2" using decode_ack_streams[OF a] c1(2) put_stream_wf[OF c1(2), of "s\<lparr>st_closedAtNano := now\<rparr>"] sid unfolding streams_wf_def by metis
    then show ?thesis using ack[OF a] by simp
  qed (use c2 c1(2) in simp)
  moreover have "?f c3 = ?f c2" "streams c3 = streams c2"
    using c3 by (auto simp: decode_data_def bind_eq_Some_conv split: if_splits)
  ultimately have "?f c' = ?f c" "streams_wf c'" using c1 c' by (simp_all add: streams_wf_def)
  then show ?thesis using k by (simp add: keyed_def)
qed

text \<open>The two connections see the same transports from opposite ends.\<close>

lemma Conn_decode_agrees:
  assumes k: "keyed cid secret sender c" and l: "linked c out inn" and pl: "DecodePayload pl = Inr (p, ud)" "pl \<in> set (t_data inn)"
    and ack: "\<And>a. ph_Ack p = Some a \<Longrightarrow> pl \<in> set (t_acks out)" and d: "Conn_decode c p ud n now = Some (sid, c')"
  shows "\<exists>out' inn'. snd_move out out' \<and> rcv_move inn inn' \<and> same_traffic out out' \<and> same_traffic inn inn' \<and>
    keyed cid secret sender c' \<and> linked c' out' inn'"
proof -
  have wf: "streams_wf c" using k by (simp add: keyed_def)
  have li: "t_inv False out" "t_inv False inn" "sys_buf (t_snd out) = c_snd c" "rs_buf (t_rcv inn) = c_rcv c"
    using l by (simp_all add: linked_def)
  have "st_streamID (fst (Conn_Stream c (ph_StreamID p))) = ph_StreamID p"
    using Conn_Stream_wf[OF wf] by (metis prod.collapse)
  from Conn_decode_receives[OF d li(4) this]
  obtain r where r: "t_receive (t_rcv inn) p ud now = Some r" "rs_buf r = c_rcv c'" by blast
  have i: "rcv_move inn (inn\<lparr>t_rcv := r\<rparr>)" "same_traffic inn (inn\<lparr>t_rcv := r\<rparr>)" using deliver_move[OF pl(2,1) r(1)] by simp_all
  obtain out' where o: "snd_move out out'" "same_traffic out out'" "sys_buf (t_snd out') = c_snd c'"
    using acked_and_closed_move[OF li(1) pl(1)] ack li(3) Conn_decode_snd[OF d wf] by metis
  have "linked c' out' (inn\<lparr>t_rcv := r\<rparr>)"
    using t_inv_reaches[OF _ li(1)] t_inv_reaches[OF _ li(2)] i(1) o(1,3) r(2) by (simp add: linked_def snd_move_def rcv_move_def)
  then show ?thesis using i o Conn_decode_keyed[OF k d] by (intro exI[of _ out'] exI[of _ "inn\<lparr>t_rcv := r\<rparr>"]) simp
qed

lemma decode_sealed_kind:
  assumes "lib_ok L" "length secret = 32" "8 \<le> length pl"
  shows "Listener_decode L gen l (sealed_packet L cid secret sender sn pl) spare addr = decode_Data L l cid (sealed_packet L cid secret sender sn pl) spare"
proof -
  let ?e = "sealed_packet L cid secret sender sn pl"
  have e: "?e ! 0 = header_byte Data" "take 8 (drop 1 ?e) = le_bytes 8 cid"
    by (simp_all add: sealed_packet_def id_header_def del: le_bytes_numeral)
  then have "packet_connId ?e = cid" unfolding packet_connId_def by (simp add: le_word_le_bytes del: le_bytes_numeral)
  moreover have "packet_kind ?e = Some Data" using e(1) by (simp add: packet_kind_def)
  moreover have "MinPacketSize \<le> length ?e" "?e ! 0 AND 0x1F = CryptoVersion"
    using e(1) assms(3) length_sealed_packet[OF assms(1,2)] by (simp_all add: MinPacketSize_def crypto_consts MinProtoSize_def del: CryptoVersion_def)
  ultimately show ?thesis by (simp add: Listener_decode_by_kind)
qed

lemma decode_sealed:
  assumes L: "lib_ok L" "length secret = 32" and k: "keyed cid secret (\<not> sender) c" and c: "conn_at l cid = Some c"
    and pl: "8 \<le> length pl" "unat sn < 2 ^ 48"
  shows "Listener_decode L gen l (sealed_packet L cid secret sender sn pl) spare addr = (Inr (cid, pl, Data), put_conn l cid c)"
  using k c sealed_packet_opens[OF L pl, of cid sender spare]
  by (simp add: decode_sealed_kind[OF L pl(1)] decode_Data_def keyed_def mk_message_def del: lm_reads)

lemma keyed_update [simp]:
  "keyed cid secret sender (c\<lparr>measurements := m\<rparr>) = keyed cid secret sender c"
  "keyed cid secret sender (c\<lparr>isHandshakeDoneOnRcv := b\<rparr>) = keyed cid secret sender c"
  "linked (c\<lparr>measurements := m\<rparr>) out inn = linked c out inn"
  "linked (c\<lparr>isHandshakeDoneOnRcv := b\<rparr>) out inn = linked c out inn"
  "agrees cid secret sender out inn (c\<lparr>measurements := m\<rparr>) = agrees cid secret sender out inn c"
  by (simp_all add: keyed_def linked_def agrees_def waiting_def streams_wf_def)

theorem Listener_Listen_agrees:
  assumes L: "lib_ok L" "length secret = 32" and a: "agrees cid secret (\<not> sender) out inn c" and c: "conn_at l cid = Some c"
    and w: "on_wire L cid secret sender inn out enc" and len: "int (length enc) \<le> l_mtu l"
    and r: "Listener_Listen L gen l (ReadData enc addr) now = (r, l')"
  shows "\<exists>c' out' inn'. (\<forall>k. conn_at l' k = (if k = cid then Some c' else conn_at l k)) \<and> snd_move out out' \<and> rcv_move inn inn' \<and>
    same_traffic out out' \<and> same_traffic inn inn' \<and> agrees cid secret (\<not> sender) out' inn' c'"
proof -
  obtain pl sn where pl: "enc = sealed_packet L cid secret sender sn pl" "unat sn < 2 ^ 48" "8 \<le> length pl" "pl \<in> set (t_data inn)"
      "\<And>p ud a. DecodePayload pl = Inr (p, ud) \<Longrightarrow> ph_Ack p = Some a \<Longrightarrow> pl \<in> set (t_acks out)"
    using w unfolding on_wire_def by blast
  define c1 where "c1 = (if now > lastReadTimeNano (measurements c)
    then c\<lparr>measurements := (measurements c)\<lparr>lastReadTimeNano := now\<rparr>\<rparr> else c)"
  have k: "keyed cid secret (\<not> sender) c" using a by (simp add: agrees_def)
  have ne: "length enc \<noteq> 0" using length_sealed_packet[OF L] pl(1) by simp
  have a1: "agrees cid secret (\<not> sender) out inn c1" "keyed cid secret (\<not> sender) c1" "linked c1 out inn"
    using a k unfolding c1_def by (cases "now > lastReadTimeNano (measurements c)"; simp; simp add: agrees_def)+
  define l1 where "l1 = put_conn (put_conn l cid c) cid c1"
  have at0: "conn_at (put_conn l cid c) cid = Some c" by (simp add: lmc.get_put del: lm_reads)
  have "(r, l') = listen_decoded (put_conn l cid c) cid pl Data (int (length enc)) now"
    using decode_sealed[OF L k c pl(3,2)] ne len r by (simp add: Listener_Listen_def pl(1) Let_def)
  also have "\<dots> = (case DecodePayload pl of
         Inl e \<Rightarrow> (Inl e, l1)
       | Inr (p, ud) \<Rightarrow>
           (case Conn_decode c1 p ud (int (length enc)) now of
              None \<Rightarrow> (Inl (Panic ''Conn.decode''), l1)
            | Some (_, c2) \<Rightarrow> (Inr (Some (cid, ph_StreamID p)), put_conn l1 cid (handshake_after Data c2))))"
    unfolding listen_decoded_def at0 option.case Let_def c1_def[symmetric] l1_def[symmetric] by simp
  finally have res: "(r, l') = \<dots>" .
  have at1: "\<forall>k. conn_at l1 k = (if k = cid then Some c1 else conn_at l k)" by (simp add: l1_def lmc.get_put del: lm_reads)
  have same: ?thesis if "l' = l1" using a1(1) at1 unfolding that by (intro exI[of _ c1] exI[of _ out] exI[of _ inn]) simp
  show ?thesis
  proof (cases "\<exists>p ud s c2. DecodePayload pl = Inr (p, ud) \<and> Conn_decode c1 p ud (int (length enc)) now = Some (s, c2)")
    case False
    then have "l' = l1" using res by (auto split: sum.splits option.splits prod.splits)
    then show ?thesis by (rule same)
  next
    case True
    then obtain p ud s c2 where d: "DecodePayload pl = Inr (p, ud)" "Conn_decode c1 p ud (int (length enc)) now = Some (s, c2)" by blast
    obtain out' inn' where m: "snd_move out out'" "rcv_move inn inn'" "same_traffic out out'" "same_traffic inn inn'"
        "keyed cid secret (\<not> sender) c2" "linked c2 out' inn'"
      using Conn_decode_agrees[OF a1(2,3) d(1) pl(4) _ d(2)] pl(5)[OF d(1)] by blast
    have "agrees cid secret (\<not> sender) out' inn' (handshake_after Data c2)"
      using m(5,6) a1(1) Conn_decode_keyed[OF a1(2) d(2)] by (auto simp: handshake_after_def agrees_def waiting_def keyed_def streams_wf_def)
    moreover have "l' = put_conn l1 cid (handshake_after Data c2)" using res d by simp
    then have "\<forall>k. conn_at l' k = (if k = cid then Some (handshake_after Data c2) else conn_at l k)"
      using at1 by (simp add: lmc.get_put del: lm_reads)
    ultimately show ?thesis using m by blast
  qed
qed

section \<open>The calls on a stream\<close>

lemma agrees_snd:
  assumes a: "agrees cid secret sender out inn c" and o: "t_reaches out out'" "sys_buf (t_snd out') = sb"
    and q: "quiet (c_snd c) \<Longrightarrow> quiet sb"
  shows "agrees cid secret sender out' inn (c\<lparr>c_snd := sb\<rparr>)"
  using a o(2) q t_inv_reaches[OF o(1)] by (auto simp: agrees_def keyed_def linked_def waiting_def streams_wf_def)

lemma quiet_put: "quiet sb \<Longrightarrow> lm_entries (dataInFlightMap st) = [] \<Longrightarrow> quiet (snd_put_stream sb sid st)"
  by (simp add: quiet_def snd_put_stream_def)

lemma quiet_getOrCreate: "quiet sb \<Longrightarrow> lm_entries (dataInFlightMap (snd_getOrCreateStream sb sid)) = []"
  by (auto simp: quiet_def snd_getOrCreateStream_def NewStreamBuffer_def split: option.splits)

lemma quiet_ops:
  assumes "quiet sb"
  shows "quiet (SendBuffer_QueuePing sb sid)" "quiet (SendBuffer_Close sb sid)"
    "SendBuffer_QueueData sb sid d = Some (r, sb') \<Longrightarrow> quiet sb'"
proof -
  show "quiet (SendBuffer_QueuePing sb sid)" "quiet (SendBuffer_Close sb sid)"
    using assms quiet_getOrCreate[OF assms, of sid] by (auto simp: SendBuffer_QueuePing_def SendBuffer_Close_def Let_def intro!: quiet_put)
  have "quiet (sb\<lparr>snd_size := z\<rparr>) = quiet sb" for sb z by (simp add: quiet_def)
  then show "SendBuffer_QueueData sb sid d = Some (r, sb') \<Longrightarrow> quiet sb'"
    using assms quiet_getOrCreate[OF assms, of sid]
    by (auto simp: SendBuffer_QueueData_def bind_eq_Some_conv Let_def intro!: quiet_put split: if_splits)
qed

lemma Stream_Ping_agrees:
  assumes a: "agrees cid secret sender out inn c"
  shows "\<exists>out'. snd_move out out' \<and> same_traffic out out' \<and> agrees cid secret sender out' inn (Stream_Ping c s)"
proof -
  let ?e = "Ping_ev (st_streamID s)"
  have inv: "t_inv False out" and b: "sys_buf (t_snd out) = c_snd c" using a by (simp_all add: agrees_def linked_def)
  obtain out' where o: "snd_move out out'" "same_traffic out out'" "snd_step (t_snd out) ?e = Some (t_snd out')"
    using snd_event_move[OF inv, of "Ping_t (st_streamID s)" ?e] by auto
  have "sys_buf x = SendBuffer_QueuePing (sys_buf y) sid" if "snd_step y (Ping_ev sid) = Some x" for x y sid using that by auto
  from this[OF o(3)] have "sys_buf (t_snd out') = SendBuffer_QueuePing (c_snd c) (st_streamID s)" using b by simp
  with agrees_snd[OF a _ this quiet_ops(1)] o show ?thesis by (auto simp: Stream_Ping_def snd_move_def)
qed

lemma Stream_Close_agrees:
  assumes a: "agrees cid secret sender out inn c"
  shows "\<exists>out'. snd_move out out' \<and> same_traffic out out' \<and> agrees cid secret sender out' inn (Stream_Close c s)"
proof -
  let ?e = "Close_ev (st_streamID s)"
  have inv: "t_inv False out" and b: "sys_buf (t_snd out) = c_snd c" using a by (simp_all add: agrees_def linked_def)
  obtain out' where o: "snd_move out out'" "same_traffic out out'" "snd_step (t_snd out) ?e = Some (t_snd out')"
    using snd_event_move[OF inv, of "Close_t (st_streamID s)" ?e] by auto
  from snd_step_close[OF o(3)] have "sys_buf (t_snd out') = SendBuffer_Close (c_snd c) (st_streamID s)" using b by simp
  with agrees_snd[OF a _ this quiet_ops(2)] o show ?thesis by (auto simp: Stream_Close_def snd_move_def)
qed

lemma Conn_Close_agrees:
  assumes "agrees cid secret sender out inn c"
  shows "\<exists>out'. snd_move out out' \<and> same_traffic out out' \<and> agrees cid secret sender out' inn (Conn_Close c)"
proof -
  have "\<exists>out'. snd_move out out' \<and> same_traffic out out' \<and> agrees cid secret sender out' inn (foldl Stream_Close c ss)"
    if "agrees cid secret sender out inn c" for out c ss
    using that
  proof (induction ss arbitrary: out c)
    case Nil
    then show ?case by (intro exI[of _ out]) simp
  next
    case (Cons s ss)
    obtain out1 where o: "snd_move out out1" "same_traffic out out1" "agrees cid secret sender out1 inn (Stream_Close c s)"
      using Stream_Close_agrees[OF Cons.prems] by blast
    then show ?case using Cons.IH[OF o(3)] snd_move_trans[OF o(1)] same_traffic_trans[OF o(2)] by auto
  qed
  then show ?thesis using assms by (simp add: Conn_Close_def)
qed

lemma Conn_Stream_agrees: "agrees cid secret sender out inn c \<Longrightarrow> agrees cid secret sender out inn (snd (Conn_Stream c sid))"
  using Conn_Stream_wf[of c sid "fst (Conn_Stream c sid)" "snd (Conn_Stream c sid)"]
  by (auto simp: agrees_def keyed_def linked_def waiting_def Conn_Stream_def Let_def split: option.splits)

text \<open>The bytes a write accepts are the first it was given, as many as it returns.\<close>

lemma Stream_Write_cases:
  assumes "Stream_Write c s d None = Some ((n, e), c')"
  shows "n = 0 \<and> c' = c \<or> (\<exists>st sb. SendBuffer_QueueData (c_snd c) (st_streamID s) d = Some ((n, st), sb) \<and> c' = c\<lparr>c_snd := sb\<rparr>)"
  using assms
  by (cases "SendBuffer_QueueData (c_snd c) (st_streamID s) d") (auto simp: Stream_Write_def Let_def split: if_splits)

lemma Stream_Write_agrees:
  assumes a: "agrees cid secret sender out inn c" and len: "length (sys_written (t_snd out) (st_streamID s)) + length d < 2 ^ 48"
    and w: "Stream_Write c s d None = Some ((n, e), c')"
  shows "\<exists>out'. snd_move out out' \<and> t_rcv out' = t_rcv out \<and> agrees cid secret sender out' inn c' \<and>
    sys_written (t_snd out') = (sys_written (t_snd out))(st_streamID s := sys_written (t_snd out) (st_streamID s) @ take (nat n) d)"
proof (cases "n = 0 \<and> c' = c")
  case True
  then show ?thesis using a by (intro exI[of _ out]) simp
next
  case False
  let ?e = "Queue_ev (st_streamID s) d"
  have inv: "t_inv False out" and b: "sys_buf (t_snd out) = c_snd c" using a by (simp_all add: agrees_def linked_def)
  obtain st sb where q: "SendBuffer_QueueData (c_snd c) (st_streamID s) d = Some ((n, st), sb)" "c' = c\<lparr>c_snd := sb\<rparr>"
    using Stream_Write_cases[OF w] False by blast
  obtain out' where o: "snd_move out out'" "snd_step (t_snd out) ?e = Some (t_snd out')"
    using on_snd_move[OF inv, of ?e "Write_t (st_streamID s) d"] len by auto
  have "sys_buf x = sb \<and> sys_written x = (sys_written y)(st_streamID s := sys_written y (st_streamID s) @ take (nat n) d)"
    if "snd_step y ?e = Some x" "sys_buf y = c_snd c" for x y using that q(1) by auto
  note x = this[OF o(2) b]
  have m: "t_reaches out out'" "t_rcv out' = t_rcv out" using o(1) by (simp_all add: snd_move_def)
  have "agrees cid secret sender out' inn c'"
    unfolding q(2) by (rule agrees_snd[OF a m(1) conjunct1[OF x]]) (rule quiet_ops(3)[OF _ q(1)])
  then show ?thesis using x m(2) o(1) by blast
qed

lemma Stream_Read_agrees:
  assumes a: "agrees cid secret sender out inn c" and id: "st_streamID s = k" and r: "Stream_Read c k s = ((d, e), s', c')"
  shows "\<exists>inn'. rcv_move inn inn' \<and> t_snd inn' = t_snd inn \<and> agrees cid secret sender out inn' c' \<and>
    rs_read (t_rcv inn') = (rs_read (t_rcv inn))(st_streamID s := rs_read (t_rcv inn) (st_streamID s) @ (case d of None \<Rightarrow> [] | Some b \<Rightarrow> b))"
proof (cases "st_closedAtNano s = 0")
  case False
  then show ?thesis using r a by (intro exI[of _ inn]) (auto simp: Stream_Read_def Let_def)
next
  case True
  obtain off t rcv where q: "ReceiveBuffer_RemoveOldestInOrder (c_rcv c) (st_streamID s) = ((off, d, t), rcv)"
    and c': "c' = c\<lparr>c_rcv := rcv\<rparr> \<or> c' = put_stream (c\<lparr>c_rcv := rcv\<rparr>) k s'" and s': "st_streamID s' = k"
    using r True id by (auto simp: Stream_Read_def Let_def split: prod.splits option.splits if_splits)
  define inn' where "inn' = inn\<lparr>t_rcv := (t_rcv inn)\<lparr>rs_buf := rcv, rs_read := (rs_read (t_rcv inn))
    (st_streamID s := rs_read (t_rcv inn) (st_streamID s) @ (case d of None \<Rightarrow> [] | Some b \<Rightarrow> b))\<rparr>\<rparr>"
  have b: "rs_buf (t_rcv inn) = c_rcv c" "t_inv False inn" using a by (simp_all add: agrees_def linked_def)
  have re: "t_reaches inn inn'" by (rule t_reaches_step[of inn "Read_t (st_streamID s)"]) (simp_all add: b q inn'_def)
  have ack: "ackList rcv = ackList (c_rcv c)"
    using q by (auto simp: ReceiveBuffer_RemoveOldestInOrder_def rcv_put_stream_def Let_def split: option.splits prod.splits bool.splits if_splits)
  have "agrees cid secret sender out inn' (c\<lparr>c_rcv := rcv\<rparr>)"
    using a ack t_inv_reaches[OF re b(2)] by (auto simp: agrees_def keyed_def linked_def waiting_def streams_wf_def inn'_def)
  moreover have "agrees cid secret sender out inn' (put_stream c1 k s')" if "agrees cid secret sender out inn' c1" for c1
    using that put_stream_wf[of c1 s' k] s' by (auto simp: agrees_def keyed_def linked_def waiting_def put_stream_def split: if_splits)
  ultimately have "agrees cid secret sender out inn' c'" using c' by blast
  then show ?thesis using re by (intro exI[of _ inn']) (auto simp: rcv_move_def inn'_def)
qed

end
