(* ===== verification/Session_System.thy ===== *)
theory Session_System
  imports Session
begin

text \<open>
  Two listeners with one connection between them: whole flushes, reads of packets the other
  side has sent, and the calls of the two applications, in any order.
\<close>

section \<open>The flush of a listener with one connection\<close>

text \<open>What a pass of the loop leaves: the connection still agrees with its transports, and its packets are on the wire.\<close>

definition passed ::
  "crypto_lib \<Rightarrow> u64 \<Rightarrow> bytes \<Rightarrow> bool \<Rightarrow> transport \<Rightarrow> transport \<Rightarrow> Conn \<Rightarrow> flush_state \<Rightarrow> transport \<Rightarrow> transport \<Rightarrow> Conn \<Rightarrow> flush_state \<Rightarrow> bool" where
  "passed L cid secret sender out inn c fs out' inn' c' fs' \<longleftrightarrow>
     snd_move out out' \<and> rcv_move inn inn' \<and> same_traffic out out' \<and> same_traffic inn inn' \<and> agrees cid secret sender out' inn' c' \<and>
     streams c' = streams c \<and> (\<forall>k. conn_at (fs_l fs') k = (if k = cid then Some c' else conn_at (fs_l fs) k)) \<and>
     l_env L (fs_l fs') = l_env L (fs_l fs) \<and>
     (\<exists>new. fs_sent fs' = fs_sent fs @ new \<and> (\<forall>e \<in> set new. on_wire L cid secret sender out' inn' (snd e)))"

lemma passed_trans:
  assumes p: "passed L cid secret sender out inn c fs out1 inn1 c1 fs1" and q: "passed L cid secret sender out1 inn1 c1 fs1 out2 inn2 c2 fs2"
  shows "passed L cid secret sender out inn c fs out2 inn2 c2 fs2"
proof -
  obtain a b where ab: "fs_sent fs1 = fs_sent fs @ a" "\<forall>e \<in> set a. on_wire L cid secret sender out1 inn1 (snd e)"
      "fs_sent fs2 = fs_sent fs1 @ b" "\<forall>e \<in> set b. on_wire L cid secret sender out2 inn2 (snd e)"
    using p q unfolding passed_def by blast
  have "\<forall>e \<in> set (a @ b). on_wire L cid secret sender out2 inn2 (snd e)"
    using ab(2,4) q on_wire_mono[of L cid secret sender out1 inn1 _ out2 inn2] by (auto simp: passed_def snd_move_def rcv_move_def)
  then have "\<exists>new. fs_sent fs2 = fs_sent fs @ new \<and> (\<forall>e \<in> set new. on_wire L cid secret sender out2 inn2 (snd e))"
    using ab by (intro exI[of _ "a @ b"]) simp
  then show ?thesis
    using p q unfolding passed_def by (auto intro: snd_move_trans rcv_move_trans same_traffic_trans simp del: lm_reads)
qed

definition no_cursor :: "Listener \<Rightarrow> bool" where
  "no_cursor l \<longleftrightarrow> currentConnID l = None \<and> currentStreamID l = None"

text \<open>How the loop can go on or end: a stream to remove, the connection to remove, or data sent on one stream.\<close>

lemma flush_one_passed:
  assumes L: "lib_ok L" "length secret = 32" and mtu: "mtu_ok Data (l_mtu (fs_l fs))"
    and a: "agrees cid secret sender out inn c" and sn: "unat (snCrypto c) + 1 < 2 ^ 48"
    and c: "conn_at (fs_l fs) cid = Some c" and s: "lm_get (streams c) sid = Some s"
    and f: "flush_one L werr now fs (cid, sid) = Inr (fs', b)"
  shows "\<exists>out' inn' c'. passed L cid secret sender out inn c fs out' inn' c' fs' \<and> unat (snCrypto c') \<le> Suc (unat (snCrypto c)) \<and>
    (if b then currentConnID (fs_l fs') = currentConnID (fs_l fs) \<and> currentStreamID (fs_l fs') = currentStreamID (fs_l fs) \<and>
         fs_closeConn fs' = fs_closeConn fs \<and> fs_closeStream fs' \<in> {fs_closeStream fs, al_put cid sid (fs_closeStream fs)}
     else fs_closeStream fs' = fs_closeStream fs \<and>
       (currentStreamID (fs_l fs') = Some ((cid, sid), sid) \<and> fs_closeConn fs' = fs_closeConn fs \<or>
        currentConnID (fs_l fs') = currentConnID (fs_l fs) \<and> currentStreamID (fs_l fs') = currentStreamID (fs_l fs) \<and>
        fs_closeConn fs' = fs_closeConn fs @ [cid]))"
proof -
  let ?env = "l_env L (fs_l fs)"
  obtain r c' pkt where fl: "Conn_Flush ?env c s now (werr (cid, sid)) = (r, c', pkt)" by (metis prod.exhaust)
  have env: "env_lib ?env = L" "mtu_ok Data (env_mtu ?env)" using mtu by (simp_all add: l_env_def)
  obtain out' inn' where m: "snd_move out out'" "rcv_move inn inn'" "same_traffic out out'" "same_traffic inn inn'"
      "agrees cid secret sender out' inn' c'" "streams c' = streams c" "unat (snCrypto c') \<le> Suc (unat (snCrypto c))"
      "\<forall>enc. pkt = Some enc \<longrightarrow> on_wire L cid secret sender out' inn' enc"
    using Conn_Flush_agrees[OF L(1) env(1) L(2) env(2) a sn fl] by blast
  have "(sid, s) \<in> set (lm_entries (streams c))" using s by (simp only: lmc.get_iff)
  then have id: "st_streamID s = sid" using a unfolding agrees_def keyed_def streams_wf_def by fastforce
  define fs1 where "fs1 = fs\<lparr>fs_l := put_conn (fs_l fs) cid c',
    fs_sent := fs_sent fs @ (case pkt of None \<Rightarrow> [] | Some enc \<Rightarrow> [(remoteAddr c', enc)])\<rparr>"
  have p: "passed L cid secret sender out inn c fs out' inn' c' fs2"
    if "fs_sent fs2 = fs_sent fs1" "connMap (fs_l fs2) = connMap (fs_l fs1)" "l_env L (fs_l fs2) = l_env L (fs_l fs1)" for fs2
    using m that unfolding passed_def
    by (auto simp: fs1_def lmc.get_put l_env_def simp del: lm_reads split: option.splits)
  have one: "flush_one L werr now fs (cid, sid) = (case r of
      Inl (Panic m) \<Rightarrow> Inl (Panic m)
    | Inl (Err _) \<Rightarrow> Inr (fs1\<lparr>fs_closeConn := fs_closeConn fs1 @ [cid]\<rparr>, False)
    | Inr (dataSent, pacingNano) \<Rightarrow>
        if st_closedAtNano s \<noteq> 0 \<and> (isSenderOnInit c' \<or> st_closedAtNano s + ReadDeadLine > now)
        then Inr (fs1\<lparr>fs_closeStream := al_put cid (st_streamID s) (fs_closeStream fs1)\<rparr>, True)
        else if dataSent > 0 then
          Inr (fs1\<lparr>fs_minPacing := 0, fs_l := (fs_l fs1)\<lparr>currentConnID := Some (cid, connId c'),
                  currentStreamID := Some ((cid, sid), st_streamID s)\<rparr>\<rparr>, False)
        else if lastReadTimeNano (measurements c') \<noteq> 0 \<and> now > lastReadTimeNano (measurements c') + ReadDeadLine
        then Inr (fs1\<lparr>fs_closeConn := fs_closeConn fs1 @ [cid]\<rparr>, False)
        else Inr (if pacingNano < fs_minPacing fs1 then fs1\<lparr>fs_minPacing := pacingNano\<rparr> else fs1, True))"
    unfolding flush_one_def c fst_conv snd_conv option.case s fl prod.case Let_def fs1_def[symmetric] ..
  show ?thesis
  proof (intro exI conjI)
    show "passed L cid secret sender out inn c fs out' inn' c' fs'"
      using f unfolding one by (intro p) (auto simp: l_env_def split: sum.splits go_error.splits prod.splits if_splits)
    show "unat (snCrypto c') \<le> Suc (unat (snCrypto c))" by (rule m(7))
  qed (use f id in \<open>unfold one, auto simp: fs1_def split: sum.splits go_error.splits prod.splits if_splits\<close>)
qed

text \<open>
  After the loop: at most one connection to remove, and the cursor is not on a stream to remove.
  The streams to remove were visited before the stream the data was sent on.
\<close>

definition loop_end :: "u64 \<Rightarrow> flush_state \<Rightarrow> bool" where
  "loop_end cid fs \<longleftrightarrow>
     (fs_closeConn fs = [] \<or> fs_closeConn fs = [cid] \<and> no_cursor (fs_l fs)) \<and>
     (\<forall>e \<in> set (fs_closeStream fs). fst e = cid) \<and>
     (\<forall>at v. currentStreamID (fs_l fs) = Some (at, v) \<longrightarrow> v \<notin> snd ` set (fs_closeStream fs))"

lemma flush_loop_passed:
  assumes L: "lib_ok L" "length secret = 32" and mtu: "mtu_ok Data (l_mtu (fs_l fs))"
    and a: "agrees cid secret sender out inn c" and sn: "unat (snCrypto c) + length sids < 2 ^ 48"
    and c: "conn_at (fs_l fs) cid = Some c" and ids: "distinct sids" "\<And>sid. sid \<in> set sids \<Longrightarrow> lm_get (streams c) sid \<noteq> None"
    and fs: "fs_closeConn fs = []" "no_cursor (fs_l fs)" "\<And>e. e \<in> set (fs_closeStream fs) \<Longrightarrow> fst e = cid \<and> snd e \<notin> set sids"
    and f: "flush_loop L werr now fs (map (Pair cid) sids) = Inr fs'"
  shows "\<exists>out' inn' c'. passed L cid secret sender out inn c fs out' inn' c' fs' \<and> loop_end cid fs'"
  using mtu a sn c ids fs f
proof (induction sids arbitrary: fs out inn c)
  case Nil
  have "passed L cid secret sender out inn c fs out inn c fs" using Nil.prems(2,4) by (simp add: passed_def del: lm_reads)
  moreover have "loop_end cid fs" using Nil.prems(7-9) by (auto simp: loop_end_def no_cursor_def)
  ultimately show ?case using Nil.prems(10) by (simp del: lm_reads) blast
next
  case (Cons sid sids)
  obtain s where s: "lm_get (streams c) sid = Some s" using Cons.prems(6)[of sid] by auto
  obtain fs1 b where one: "flush_one L werr now fs (cid, sid) = Inr (fs1, b)"
    and rest: "(if b then flush_loop L werr now fs1 (map (Pair cid) sids) else Inr fs1) = Inr fs'"
    using Cons.prems(10) by (auto simp: and_then_eq_Inr)
  have sn: "unat (snCrypto c) + 1 < 2 ^ 48" using Cons.prems(3) by simp
  obtain out1 inn1 c1 where p: "passed L cid secret sender out inn c fs out1 inn1 c1 fs1" "unat (snCrypto c1) \<le> Suc (unat (snCrypto c))"
    and st: "if b then currentConnID (fs_l fs1) = currentConnID (fs_l fs) \<and> currentStreamID (fs_l fs1) = currentStreamID (fs_l fs) \<and>
         fs_closeConn fs1 = fs_closeConn fs \<and> fs_closeStream fs1 \<in> {fs_closeStream fs, al_put cid sid (fs_closeStream fs)}
     else fs_closeStream fs1 = fs_closeStream fs \<and>
       (currentStreamID (fs_l fs1) = Some ((cid, sid), sid) \<and> fs_closeConn fs1 = fs_closeConn fs \<or>
        currentConnID (fs_l fs1) = currentConnID (fs_l fs) \<and> currentStreamID (fs_l fs1) = currentStreamID (fs_l fs) \<and>
        fs_closeConn fs1 = fs_closeConn fs @ [cid])"
    using flush_one_passed[OF L Cons.prems(1,2) sn Cons.prems(4) s one] by blast
  show ?case
  proof (cases b)
    case True
    have c1: "agrees cid secret sender out1 inn1 c1" "conn_at (fs_l fs1) cid = Some c1" "streams c1 = streams c"
      "l_env L (fs_l fs1) = l_env L (fs_l fs)" using p(1) by (simp_all add: passed_def del: lm_reads)
    have "mtu_ok Data (l_mtu (fs_l fs1))" using Cons.prems(1) c1(4) by (simp add: l_env_def)
    moreover have "unat (snCrypto c1) + length sids < 2 ^ 48" using Cons.prems(3) p(2) by simp
    moreover have "fst e = cid \<and> snd e \<notin> set sids" if "e \<in> set (fs_closeStream fs1)" for e
      using that st True Cons.prems(5) Cons.prems(9)[of e] by (auto simp: set_al_put)
    moreover have "fs_closeConn fs1 = []" "no_cursor (fs_l fs1)" using st True Cons.prems(7,8) by (simp_all add: no_cursor_def)
    moreover have "flush_loop L werr now fs1 (map (Pair cid) sids) = Inr fs'" using rest True by simp
    ultimately obtain out' inn' c' where "passed L cid secret sender out1 inn1 c1 fs1 out' inn' c' fs'" "loop_end cid fs'"
      using Cons.IH[of fs1 out1 inn1 c1] c1(1,2) Cons.prems(5,6) unfolding c1(3) by auto
    then show ?thesis using passed_trans[OF p(1)] by blast
  next
    case False
    then have "loop_end cid fs1"
      using st Cons.prems(7-9) by (fastforce simp: loop_end_def no_cursor_def)
    then show ?thesis using p(1) rest False by auto
  qed
qed

subsection \<open>Cleanup\<close>

text \<open>What is left of the listener: nothing but the connection, if it is still there.\<close>

definition solo :: "u64 \<Rightarrow> bytes \<Rightarrow> bool \<Rightarrow> transport \<Rightarrow> transport \<Rightarrow> Listener \<Rightarrow> bool" where
  "solo cid secret sender out inn l \<longleftrightarrow> (\<forall>k c. conn_at l k = Some c \<longrightarrow> k = cid \<and> agrees cid secret sender out inn c)"

lemma solo_same: "connMap l' = connMap l \<Longrightarrow> solo cid secret sender out inn l' = solo cid secret sender out inn l"
  by (simp add: solo_def)

lemma agrees_streams:
  "agrees cid secret sender out inn c \<Longrightarrow> set (lm_entries m) \<subseteq> set (lm_entries (streams c)) \<Longrightarrow>
   agrees cid secret sender out inn (c\<lparr>streams := m\<rparr>)"
  by (auto simp: agrees_def keyed_def linked_def waiting_def streams_wf_def)

lemma solo_put:
  assumes "solo cid secret sender out inn l" and "agrees cid secret sender out inn c"
  shows "solo cid secret sender out inn (put_conn l cid c)"
proof -
  have "conn_at (put_conn l cid c) k = (if k = cid then Some c else conn_at l k)" for k by (simp add: lmc.get_put del: lm_reads)
  then show ?thesis using assms unfolding solo_def by (metis option.inject)
qed

lemma solo_remove:
  "solo cid secret sender out inn l \<Longrightarrow> connMap l' = lm_remove (connMap l) k \<Longrightarrow> solo cid secret sender out inn l'"
  unfolding solo_def by (metis lmc.get_remove option.distinct(1))

lemma cleanupStreams_solo:
  assumes "solo cid secret sender out inn l" and "\<forall>at v. currentStreamID l = Some (at, v) \<longrightarrow> v \<notin> snd ` set xs"
  shows "solo cid secret sender out inn
    (foldl (\<lambda>l (k, sid). case m k of None \<Rightarrow> l | Some c \<Rightarrow> cleanupStream l k (streams c) sid) l xs)"
  using assms
proof (induction xs arbitrary: l)
  case (Cons x xs)
  obtain k sid where x: "x = (k, sid)" by fastforce
  let ?l = "case m k of None \<Rightarrow> l | Some c \<Rightarrow> cleanupStream l k (streams c) sid"
  have cl: "cleanupStream l k strs sid =
      (case conn_at l k of None \<Rightarrow> l | Some c \<Rightarrow> put_conn l k (c\<lparr>streams := lm_remove (streams c) sid\<rparr>))" for strs
    using Cons.prems(2) x by (auto simp: cleanupStream_def simp del: lm_reads split: option.splits)
  have rm: "agrees cid secret sender out inn (c\<lparr>streams := lm_remove (streams c) sid\<rparr>)" if "agrees cid secret sender out inn c" for c
    using agrees_streams[OF that] lmc.set_remove[of "streams c" sid] by auto
  have "solo cid secret sender out inn ?l"
  proof (cases "m k = None \<or> conn_at l k = None")
    case False
    then obtain c where "m k \<noteq> None" "conn_at l k = Some c" by auto
    moreover from this have "k = cid" "agrees cid secret sender out inn c" using Cons.prems(1) unfolding solo_def by blast+
    ultimately show ?thesis using solo_put[OF Cons.prems(1) rm] cl by (auto simp del: lm_reads)
  qed (use Cons.prems(1) cl in \<open>auto simp del: lm_reads split: option.splits\<close>)
  moreover have "\<forall>at v. currentStreamID ?l = Some (at, v) \<longrightarrow> v \<notin> snd ` set xs"
    using Cons.prems(2) by (auto simp: cl simp del: lm_reads split: option.splits)
  ultimately show ?case using Cons.IH[of ?l] x by simp
qed simp

lemma flush_cleanup_solo:
  assumes s: "solo cid secret sender out inn (fs_l fs)" and e: "loop_end cid fs" and o: "set (ord (fs_closeStream fs)) \<subseteq> set (fs_closeStream fs)"
  shows "solo cid secret sender out inn (flush_cleanup ord fs)"
proof -
  define l1 where "l1 = foldl (\<lambda>l k. case lm_get (connMap (fs_l fs)) k of None \<Rightarrow> l | Some c \<Rightarrow> cleanupConn l c) (fs_l fs) (fs_closeConn fs)"
  have "l1 = fs_l fs \<or> currentStreamID l1 = None \<and> (\<exists>k. connMap l1 = lm_remove (connMap (fs_l fs)) k)"
    using e by (auto simp: l1_def loop_end_def no_cursor_def cleanupConn_def Let_def simp del: lm_reads split: option.splits)
  then have l1: "solo cid secret sender out inn l1" "currentStreamID l1 \<in> {None, currentStreamID (fs_l fs)}"
    using s solo_remove[OF s] by auto
  have "\<forall>at v. currentStreamID (fs_l fs) = Some (at, v) \<longrightarrow> v \<notin> snd ` set (ord (fs_closeStream fs))"
    using e image_mono[OF o, of snd] unfolding loop_end_def by blast
  then have "\<forall>at v. currentStreamID l1 = Some (at, v) \<longrightarrow> v \<notin> snd ` set (ord (fs_closeStream fs))"
    using l1(2) by (metis insertE option.distinct(1) singletonD)
  from cleanupStreams_solo[OF l1(1) this] show ?thesis
    unfolding flush_cleanup_def Let_def l1_def[symmetric] by (subst solo_same) simp_all
qed

lemma flush_cleanup_mtu: "l_mtu (flush_cleanup ord fs) = l_mtu (fs_l fs)"
proof -
  have st: "l_mtu (cleanupStream l k strs sid) = l_mtu l" for l k strs sid
    by (auto simp: cleanupStream_def set_current_stream_def Let_def simp del: lm_reads split: option.splits)
  have co: "l_mtu (cleanupConn l c) = l_mtu l" for l c
    by (auto simp: cleanupConn_def set_current_conn_def Let_def simp del: lm_reads split: option.splits)
  have a: "l_mtu (foldl (\<lambda>l (k, sid). case m k of None \<Rightarrow> l | Some c \<Rightarrow> cleanupStream l k (streams c) sid) l xs) = l_mtu l" for m l xs
    by (induction xs arbitrary: l) (auto simp: st split: option.splits)
  have b: "l_mtu (foldl (\<lambda>l k. case m k of None \<Rightarrow> l | Some c \<Rightarrow> cleanupConn l c) l ks) = l_mtu l" for m l ks
    by (induction ks arbitrary: l) (auto simp: co split: option.splits)
  show ?thesis
    using a[of "lm_get (connMap (fs_l fs))"] b[of "lm_get (connMap (fs_l fs))"] by (simp add: flush_cleanup_def Let_def del: lm_reads)
qed

theorem Listener_Flush_solo:
  assumes L: "lib_ok L" "length secret = 32" and mtu: "119 \<le> l_mtu l" "l_mtu l \<le> 65535"
    and l: "solo cid secret sender out inn l" "no_cursor l"
    and sn: "\<And>c. conn_at l cid = Some c \<Longrightarrow> unat (snCrypto c) + length (lm_entries (streams c)) < 2 ^ 48"
    and ord: "\<And>xs. set (ord xs) \<subseteq> set xs" and f: "Listener_Flush L werr ord l now = Inr (wait, l', sent)"
  shows "\<exists>out' inn'. snd_move out out' \<and> rcv_move inn inn' \<and> same_traffic out out' \<and> same_traffic inn inn' \<and>
    solo cid secret sender out' inn' l' \<and> l_mtu l' = l_mtu l \<and> (\<forall>e \<in> set sent. on_wire L cid secret sender out' inn' (snd e))"
proof (cases "lm_size (connMap l) = 0")
  case True
  then show ?thesis using f l(1) by (intro exI[of _ out] exI[of _ inn]) (simp add: Listener_Flush_def del: lm_reads)
next
  case False
  have sub: "set (lm_entries (connMap l)) \<subseteq> {e. fst e = cid}"
    using l(1) unfolding solo_def lmc.get_iff by auto
  obtain e rest where er: "lm_entries (connMap l) = e # rest" using False by (cases "lm_entries (connMap l)") auto
  moreover have "rest = []" using lm_distinct[of "connMap l"] sub er by (cases rest) auto
  ultimately obtain c where es: "lm_entries (connMap l) = [(cid, c)]" using sub by (cases e) auto
  then have c: "conn_at l cid = Some c" by simp
  let ?sids = "map fst (lm_entries (streams c))"
  let ?fs = "\<lparr>fs_l = l, fs_minPacing = MinDeadLine, fs_closeConn = [], fs_closeStream = [], fs_sent = []\<rparr>"
  have order: "nested_keys (map_option snd (currentStreamID l)) (lm_iterator (connMap l) (map_option snd (currentConnID l))) = map (Pair cid) ?sids"
    using l(2) es by (simp add: no_cursor_def al_iterate_def comp_def case_prod_unfold)
  obtain fs' where fs': "flush_loop L werr now ?fs (map (Pair cid) ?sids) = Inr fs'" "l' = flush_cleanup ord fs'" "sent = fs_sent fs'"
    using f False unfolding Listener_Flush_def order by (auto simp: Let_def and_then_eq_Inr simp del: lm_reads)
  have pre: "mtu_ok Data (l_mtu (fs_l ?fs))" "agrees cid secret sender out inn c" "unat (snCrypto c) + length ?sids < 2 ^ 48"
    "conn_at (fs_l ?fs) cid = Some c" "distinct ?sids"
  proof -
    show "agrees cid secret sender out inn c" using l(1) c unfolding solo_def by blast
  qed (use mtu c sn[OF c] in \<open>simp_all add: mtu_ok_def del: lm_reads\<close>)
  have dom: "lm_get (streams c) sid \<noteq> None" if "sid \<in> set ?sids" for sid
    using that lmc.get_iff[of "streams c" sid] by (auto simp del: lm_reads)
  from flush_loop_passed[OF L pre dom _ _ _ fs'(1)] l(2)
  obtain out' inn' c' where p: "passed L cid secret sender out inn c ?fs out' inn' c' fs'" "loop_end cid fs'" by auto
  have "solo cid secret sender out' inn' (fs_l fs')"
    using p(1) l(1) unfolding passed_def solo_def by (auto simp del: lm_reads split: if_splits; metis)
  from flush_cleanup_solo[OF this p(2), of ord] ord show ?thesis
    using p(1) fs'(2,3) flush_cleanup_mtu[of ord fs'] unfolding passed_def
    by (intro exI[of _ out'] exI[of _ inn']) (auto simp: l_env_def simp del: lm_reads)
qed

section \<open>The system\<close>

text \<open>
  The two sides are named by the flag \<^const>\<open>isSenderOnInit\<close> of their connection. Beside the two
  listeners the state has the packets each side has sent, and what the applications have
  written and read.
\<close>

record session =
  s_l :: "bool \<Rightarrow> Listener"
  s_net :: "bool \<Rightarrow> bytes list"
  s_written :: "bool \<Rightarrow> u32 \<Rightarrow> bytes"
  s_read :: "bool \<Rightarrow> u32 \<Rightarrow> bytes"

definition put_side :: "session \<Rightarrow> bool \<Rightarrow> Listener \<Rightarrow> bytes list \<Rightarrow> (u32 \<Rightarrow> bytes) \<Rightarrow> (u32 \<Rightarrow> bytes) \<Rightarrow> session" where
  "put_side S p l new w r =
     \<lparr>s_l = (s_l S)(p := l), s_net = (s_net S)(p := s_net S p @ new), s_written = (s_written S)(p := w), s_read = (s_read S)(p := r)\<rparr>"

datatype s_event =
    Call_s bool l_event
  | Write_s bool u32 bytes
  | Read_s bool u32
  | Flush_s bool "u64 \<times> u32 \<Rightarrow> go_error option" "(u64 \<times> u32) list \<Rightarrow> (u64 \<times> u32) list" u64
  | Deliver_s bool bytes string "prvKey result" u64

text \<open>The calls that move no data: opening, pinging and closing streams, and closing the connection.\<close>

fun stream_call :: "l_event \<Rightarrow> bool" where
  "stream_call (Stream_l k sid) = True"
| "stream_call (Ping_l k sid) = True"
| "stream_call (CloseStream_l k sid) = True"
| "stream_call (CloseConn_l k) = True"
| "stream_call (ForceClose_l k) = True"
| "stream_call _ = False"

text \<open>A write counts what it returns as written, a read what it returns as read; a panic is \<open>None\<close>.\<close>

definition write_side :: "session \<Rightarrow> u64 \<Rightarrow> bool \<Rightarrow> u32 \<Rightarrow> bytes \<Rightarrow> session option" where
  "write_side S cid p sid d =
     (case conn_at (s_l S p) cid of
        None \<Rightarrow> Some S
      | Some c \<Rightarrow>
          (case lm_get (streams c) sid of
             None \<Rightarrow> Some S
           | Some s \<Rightarrow>
               map_option (\<lambda>((n, _), c'). put_side S p (put_conn (s_l S p) cid c') []
                 ((s_written S p)(sid := s_written S p sid @ take (nat n) d)) (s_read S p)) (Stream_Write c s d None)))"

definition read_side :: "session \<Rightarrow> u64 \<Rightarrow> bool \<Rightarrow> u32 \<Rightarrow> session" where
  "read_side S cid p sid =
     (case conn_at (s_l S p) cid of
        None \<Rightarrow> S
      | Some c \<Rightarrow>
          (case lm_get (streams c) sid of
             None \<Rightarrow> S
           | Some s \<Rightarrow>
               (case Stream_Read c sid s of ((d, _), _, c') \<Rightarrow> put_side S p (put_conn (s_l S p) cid c') [] (s_written S p)
                 ((s_read S p)(sid := s_read S p sid @ (case d of None \<Rightarrow> [] | Some b \<Rightarrow> b))))))"

fun s_step :: "crypto_lib \<Rightarrow> u64 \<Rightarrow> session \<Rightarrow> s_event \<Rightarrow> session option" where
  "s_step L cid S (Call_s p e) = map_option (\<lambda>l. put_side S p l [] (s_written S p) (s_read S p)) (l_step L (s_l S p) e)"
| "s_step L cid S (Write_s p sid d) = write_side S cid p sid d"
| "s_step L cid S (Read_s p sid) = Some (read_side S cid p sid)"
| "s_step L cid S (Flush_s p werr ord now) =
     (case Listener_Flush L werr ord (s_l S p) now of
        Inl _ \<Rightarrow> None
      | Inr (_, l, sent) \<Rightarrow> Some (put_side S p l (map snd sent) (s_written S p) (s_read S p)))"
| "s_step L cid S (Deliver_s p pkt addr gen now) =
     (case Listener_Listen L gen (s_l S p) (ReadData pkt addr) now of
        (r, l) \<Rightarrow> map_option (\<lambda>l. put_side S p l [] (s_written S p) (s_read S p)) (unless_panic r l))"

text \<open>
  The runs considered: packets arrive only if the other side has sent them, any number of times
  and in any order; fewer than \<open>2 ^ 48\<close> bytes are written to a stream; the packet counter stays
  in its first epoch; and the runtime iterates a map over its own entries.
\<close>

fun s_ok :: "u64 \<Rightarrow> session \<Rightarrow> s_event \<Rightarrow> bool" where
  "s_ok cid S (Call_s p e) = stream_call e"
| "s_ok cid S (Write_s p sid d) = (length (s_written S p sid) + length d < 2 ^ 48)"
| "s_ok cid S (Read_s p sid) = True"
| "s_ok cid S (Flush_s p werr ord now) =
     ((\<forall>at m. werr at \<noteq> Some (Panic m)) \<and> (\<forall>xs. set (ord xs) \<subseteq> set xs) \<and>
      (\<forall>c. conn_at (s_l S p) cid = Some c \<longrightarrow> unat (snCrypto c) + length (lm_entries (streams c)) < 2 ^ 48))"
| "s_ok cid S (Deliver_s p pkt addr gen now) = (pkt \<in> set (s_net S (\<not> p)))"

section \<open>Every session is two transports\<close>

definition buffer_capacity :: nat where
  "buffer_capacity = nat sndBufferCapacity"

text \<open>\<open>T p\<close> is the transport from side \<open>p\<close> to the other one.\<close>

definition side_matches :: "crypto_lib \<Rightarrow> u64 \<Rightarrow> bytes \<Rightarrow> int \<Rightarrow> (bool \<Rightarrow> transport) \<Rightarrow> session \<Rightarrow> bool \<Rightarrow> bool" where
  "side_matches L cid secret mtu T S p \<longleftrightarrow>
     t_reachable False buffer_capacity buffer_capacity (T p) \<and> sys_written (t_snd (T p)) = s_written S p \<and>
     rs_read (t_rcv (T p)) = s_read S (\<not> p) \<and> solo cid secret p (T p) (T (\<not> p)) (s_l S p) \<and> l_inv (s_l S p) \<and> l_mtu (s_l S p) = mtu \<and>
     (\<forall>enc \<in> set (s_net S p). on_wire L cid secret p (T p) (T (\<not> p)) enc \<and> int (length enc) \<le> mtu)"

definition s_matches :: "crypto_lib \<Rightarrow> u64 \<Rightarrow> bytes \<Rightarrow> int \<Rightarrow> (bool \<Rightarrow> transport) \<Rightarrow> session \<Rightarrow> bool" where
  "s_matches L cid secret mtu T S \<longleftrightarrow> (\<forall>p. side_matches L cid secret mtu T S p)"

text \<open>The other side does not notice what happens at the near ends of the two transports.\<close>

lemma solo_other:
  assumes "solo cid secret q out inn l" and "rcv_move out out'" and "snd_move inn inn'"
  shows "solo cid secret q out' inn' l"
proof -
  have "linked c out' inn'" if "linked c out inn" for c
    using that assms(2,3) t_inv_reaches by (auto simp: linked_def rcv_move_def snd_move_def)
  then show ?thesis using assms(1) unfolding solo_def agrees_def by blast
qed

lemma side_moves:
  assumes m: "s_matches L cid secret mtu T S" and mv: "snd_move (T p) out" "rcv_move (T (\<not> p)) inn"
    and l: "solo cid secret p out inn l" "l_inv l" "l_mtu l = mtu"
    and new: "\<forall>enc \<in> set new. on_wire L cid secret p out inn enc \<and> int (length enc) \<le> mtu"
    and w: "sys_written (t_snd out) = w" and r: "rs_read (t_rcv inn) = r"
  shows "\<exists>T'. s_matches L cid secret mtu T' (put_side S p l new w r)"
proof -
  let ?T = "T(p := out, (\<not> p) := inn)" and ?S = "put_side S p l new w r"
  have T: "?T p = out" "?T (\<not> p) = inn" by simp_all
  have mp: "side_matches L cid secret mtu T S p" "side_matches L cid secret mtu T S (\<not> p)" using m by (simp_all add: s_matches_def)
  have re: "t_reachable False buffer_capacity buffer_capacity out" "t_reachable False buffer_capacity buffer_capacity inn"
    using mp mv t_reaches_reachable by (auto simp: side_matches_def snd_move_def rcv_move_def)
  have "on_wire L cid secret p out inn enc" if "enc \<in> set (s_net S p)" for enc
    using that mp(1) mv on_wire_mono[of L cid secret p "T p" "T (\<not> p)" enc out inn] by (auto simp: side_matches_def snd_move_def rcv_move_def)
  then have "side_matches L cid secret mtu ?T ?S p"
    using mp(1) mv re l new w unfolding side_matches_def T by (auto simp: put_side_def snd_move_def)
  moreover have "on_wire L cid secret (\<not> p) inn out enc" if "enc \<in> set (s_net S (\<not> p))" for enc
    using that mp(2) mv on_wire_mono[of L cid secret "\<not> p" "T (\<not> p)" "T p" enc inn out] by (auto simp: side_matches_def snd_move_def rcv_move_def)
  then have "side_matches L cid secret mtu ?T ?S (\<not> p)"
    using mp(2) mv re r solo_other[of cid secret "\<not> p" "T (\<not> p)" "T p"] unfolding side_matches_def not_not T
    by (auto simp: put_side_def rcv_move_def)
  ultimately have "side_matches L cid secret mtu ?T ?S q" for q by (cases "q = p") auto
  then show ?thesis unfolding s_matches_def by blast
qed

lemma side_facts:
  assumes "s_matches L cid secret mtu T S"
  shows "solo cid secret p (T p) (T (\<not> p)) (s_l S p)" "l_inv (s_l S p)" "l_mtu (s_l S p) = mtu"
    "sys_written (t_snd (T p)) = s_written S p" "rs_read (t_rcv (T (\<not> p))) = s_read S p"
    "\<And>enc. enc \<in> set (s_net S p) \<Longrightarrow> on_wire L cid secret p (T p) (T (\<not> p)) enc \<and> int (length enc) \<le> mtu"
proof -
  have "side_matches L cid secret mtu T S p" "side_matches L cid secret mtu T S (\<not> p)" using assms by (simp_all add: s_matches_def)
  then show "solo cid secret p (T p) (T (\<not> p)) (s_l S p)" "l_inv (s_l S p)" "l_mtu (s_l S p) = mtu"
    "sys_written (t_snd (T p)) = s_written S p" "rs_read (t_rcv (T (\<not> p))) = s_read S p"
    "\<And>enc. enc \<in> set (s_net S p) \<Longrightarrow> on_wire L cid secret p (T p) (T (\<not> p)) enc \<and> int (length enc) \<le> mtu"
    by (simp_all add: side_matches_def)
qed

lemma soloD: "solo cid secret p out inn l \<Longrightarrow> conn_at l k = Some c \<Longrightarrow> k = cid \<and> agrees cid secret p out inn c"
  unfolding solo_def by blast

lemma solo_replace:
  assumes "solo cid secret p out inn l" and "agrees cid secret p out' inn' c"
  shows "solo cid secret p out' inn' (put_conn l cid c)"
proof -
  have "conn_at (put_conn l cid c) k = (if k = cid then Some c else conn_at l k)" for k by (simp add: lmc.get_put del: lm_reads)
  then show ?thesis using assms unfolding solo_def by (metis option.inject)
qed

lemma keeps_side:
  assumes m: "s_matches L cid secret mtu T S"
  shows "\<exists>T'. s_matches L cid secret mtu T' (put_side S p (s_l S p) [] (s_written S p) (s_read S p))"
  by (rule side_moves[OF m snd_move_refl rcv_move_refl side_facts(1-3)[OF m] _ side_facts(4,5)[OF m]]) simp

text \<open>A call on the connection or on one of its streams that only touches the send buffer.\<close>

lemma on_conn_side:
  assumes m: "s_matches L cid secret mtu T S" and f: "on_conn (s_l S p) k f = Some l" and l: "l_inv l"
    and step: "\<And>c c'. agrees cid secret p (T p) (T (\<not> p)) c \<Longrightarrow> f c = Some c' \<Longrightarrow>
      \<exists>out. snd_move (T p) out \<and> same_traffic (T p) out \<and> agrees cid secret p out (T (\<not> p)) c'"
  shows "\<exists>T'. s_matches L cid secret mtu T' (put_side S p l [] (s_written S p) (s_read S p))"
proof (cases "conn_at (s_l S p) k")
  case None
  then have "l = s_l S p" using f by (simp add: on_conn_def del: lm_reads)
  then show ?thesis using keeps_side[OF m] by simp
next
  case (Some c)
  note s = side_facts[OF m, where p = p]
  have c: "k = cid" "agrees cid secret p (T p) (T (\<not> p)) c" using soloD[OF s(1) Some] by simp_all
  obtain c' where c': "f c = Some c'" "l = put_conn (s_l S p) cid c'" using f Some c(1) by (auto simp: on_conn_def simp del: lm_reads)
  obtain out where o: "snd_move (T p) out" "same_traffic (T p) out" "agrees cid secret p out (T (\<not> p)) c'"
    using step[OF c(2) c'(1)] by blast
  have "solo cid secret p out (T (\<not> p)) l" unfolding c'(2) by (rule solo_replace[OF s(1) o(3)])
  from side_moves[OF m o(1) rcv_move_refl this l] show ?thesis
    using o(2) s(3-5) c'(2) by (simp add: same_traffic_def)
qed

lemma on_stream_side:
  assumes m: "s_matches L cid secret mtu T S" and f: "on_stream (s_l S p) k sid f = Some l" and l: "l_inv l"
    and step: "\<And>c s c'. agrees cid secret p (T p) (T (\<not> p)) c \<Longrightarrow> f c s = Some c' \<Longrightarrow>
      \<exists>out. snd_move (T p) out \<and> same_traffic (T p) out \<and> agrees cid secret p out (T (\<not> p)) c'"
  shows "\<exists>T'. s_matches L cid secret mtu T' (put_side S p l [] (s_written S p) (s_read S p))"
proof (rule on_conn_side[OF m f[unfolded on_stream_def] l])
  fix c c' assume a: "agrees cid secret p (T p) (T (\<not> p)) c" and c': "(case lm_get (streams c) sid of None \<Rightarrow> Some c | Some s \<Rightarrow> f c s) = Some c'"
  show "\<exists>out. snd_move (T p) out \<and> same_traffic (T p) out \<and> agrees cid secret p out (T (\<not> p)) c'"
  proof (cases "lm_get (streams c) sid")
    case None
    then show ?thesis using a c' by (intro exI[of _ "T p"]) (simp del: lm_reads)
  next
    case (Some s)
    then show ?thesis using step[OF a, of s c'] c' by (simp del: lm_reads)
  qed
qed

lemma call_matches:
  assumes L: "lib_ok L" "low_order_uniform L" and m: "s_matches L cid secret mtu T S" and e: "stream_call e" and st: "l_step L (s_l S p) e = Some l"
  shows "\<exists>T'. s_matches L cid secret mtu T' (put_side S p l [] (s_written S p) (s_read S p))"
proof -
  note s = side_facts[OF m, where p = p]
  have "l_ok (s_l S p) e" using e by (cases e) auto
  then have l: "l_inv l" by (rule l_inv_step[OF s(2) L _ st])
  show ?thesis
  proof (cases e)
    case (Stream_l k sid)
    then show ?thesis using st Conn_Stream_agrees by (intro on_conn_side[OF m _ l, where k = k]) (auto intro!: exI[of _ "T p"])
  next
    case (Ping_l k sid)
    then show ?thesis using st Stream_Ping_agrees by (intro on_stream_side[OF m _ l, where k = k and sid = sid]) auto
  next
    case (CloseStream_l k sid)
    then show ?thesis using st Stream_Close_agrees by (intro on_stream_side[OF m _ l, where k = k and sid = sid]) auto
  next
    case (CloseConn_l k)
    then show ?thesis using st Conn_Close_agrees by (intro on_conn_side[OF m _ l, where k = k]) auto
  next
    case (ForceClose_l k)
    have "solo cid secret p (T p) (T (\<not> p)) l \<and> l_mtu l = mtu"
    proof (cases "conn_at (s_l S p) k")
      case (Some c)
      then have "l = (s_l S p)\<lparr>connMap := lm_remove (connMap (s_l S p)) (connId c)\<rparr>"
        using st ForceClose_l s(2) by (simp add: Listener_ForceClose_def cleanupConn_def l_inv_def Let_def del: lm_reads)
      then show ?thesis using solo_remove[OF s(1)] s(3) by simp
    qed (use st ForceClose_l s in \<open>simp del: lm_reads\<close>)
    then show ?thesis using side_moves[OF m snd_move_refl rcv_move_refl _ l _ _ s(4,5)] by simp
  qed (use e in simp_all)
qed

lemma stream_label:
  assumes "agrees cid secret p out inn c" and "lm_get (streams c) sid = Some s"
  shows "st_streamID s = sid"
proof -
  have "(sid, s) \<in> set (lm_entries (streams c))" using assms(2) by (simp only: lmc.get_iff)
  then show ?thesis using assms(1) unfolding agrees_def keyed_def streams_wf_def by fastforce
qed

lemma stream_total_inv: "t_inv False T \<Longrightarrow> stream_total (sys_buf (t_snd T)) sid = length (sys_written (t_snd T) sid)"
  using stream_inv_stream[OF t_inv_fields(1), of False T sid] by (auto simp: stream_total_def stream_inv_def flight_inv_def Let_def)

lemma write_matches:
  assumes L: "lib_ok L" "low_order_uniform L" and m: "s_matches L cid secret mtu T S"
    and len: "length (s_written S p sid) + length d < 2 ^ 48" and w: "write_side S cid p sid d = Some S'"
  shows "\<exists>T'. s_matches L cid secret mtu T' S'"
proof (cases "\<exists>c s. conn_at (s_l S p) cid = Some c \<and> lm_get (streams c) sid = Some s")
  case False
  then have "S' = S" using w by (auto simp: write_side_def simp del: lm_reads split: option.splits)
  then show ?thesis using m by blast
next
  case True
  then obtain c s where c: "conn_at (s_l S p) cid = Some c" "lm_get (streams c) sid = Some s" by blast
  note f = side_facts[OF m, where p = p]
  have a: "agrees cid secret p (T p) (T (\<not> p)) c" using soloD[OF f(1) c(1)] by simp
  have id: "st_streamID s = sid" by (rule stream_label[OF a c(2)])
  obtain n e c' where r: "Stream_Write c s d None = Some ((n, e), c')"
    and S': "S' = put_side S p (put_conn (s_l S p) cid c') [] ((s_written S p)(sid := s_written S p sid @ take (nat n) d)) (s_read S p)"
    using w c by (auto simp: write_side_def simp del: lm_reads)
  have li: "t_inv False (T p)" "sys_buf (t_snd (T p)) = c_snd c" using a by (simp_all add: agrees_def linked_def)
  obtain out where o: "snd_move (T p) out" "agrees cid secret p out (T (\<not> p)) c'"
      "sys_written (t_snd out) = (s_written S p)(sid := s_written S p sid @ take (nat n) d)"
    using Stream_Write_agrees[OF a _ r] len f(4) id by auto
  have "stream_total (c_snd c) (st_streamID s) + length d < 2 ^ 48" using stream_total_inv[OF li(1), of sid] li(2) f(4) id len by simp
  then have "conn_inv c' \<and> conn_ident c' = conn_ident c"
    using Stream_Write_inv[OF _ _ r] conns_okD[OF _ c(1)] f(2) unfolding l_inv_def by blast
  then have l: "l_inv (put_conn (s_l S p) cid c')"
    using conns_okD[OF _ c(1)] f(2) by (intro l_inv_put[OF f(2)]) (auto simp: l_inv_def conn_ident_def)
  have "solo cid secret p out (T (\<not> p)) (put_conn (s_l S p) cid c')" by (rule solo_replace[OF f(1) o(2)])
  from side_moves[OF m o(1) rcv_move_refl this l] show ?thesis using f(3,5) o(3) by (simp add: S')
qed

lemma read_matches:
  assumes m: "s_matches L cid secret mtu T S"
  shows "\<exists>T'. s_matches L cid secret mtu T' (read_side S cid p sid)"
proof (cases "\<exists>c s. conn_at (s_l S p) cid = Some c \<and> lm_get (streams c) sid = Some s")
  case False
  then have "read_side S cid p sid = S" by (auto simp: read_side_def simp del: lm_reads split: option.splits)
  then show ?thesis using m by auto
next
  case True
  then obtain c s where c: "conn_at (s_l S p) cid = Some c" "lm_get (streams c) sid = Some s" by blast
  note f = side_facts[OF m, where p = p]
  have a: "agrees cid secret p (T p) (T (\<not> p)) c" using soloD[OF f(1) c(1)] by simp
  have id: "st_streamID s = sid" by (rule stream_label[OF a c(2)])
  obtain d e s' c' where r: "Stream_Read c sid s = ((d, e), s', c')" by (metis prod.exhaust)
  let ?r = "(s_read S p)(sid := s_read S p sid @ (case d of None \<Rightarrow> [] | Some b \<Rightarrow> b))"
  obtain inn where i: "rcv_move (T (\<not> p)) inn" "agrees cid secret p (T p) inn c'" "rs_read (t_rcv inn) = ?r"
    using Stream_Read_agrees[OF a id r] f(5) id by auto
  have "conn_inv c' \<and> conn_ident c' = conn_ident c"
    using stream_ops_inv(3)[of c sid s] conns_okD[OF _ c(1)] f(2) r unfolding l_inv_def by auto
  then have l: "l_inv (put_conn (s_l S p) cid c')"
    using conns_okD[OF _ c(1)] f(2) by (intro l_inv_put[OF f(2)]) (auto simp: l_inv_def conn_ident_def)
  have so: "solo cid secret p (T p) inn (put_conn (s_l S p) cid c')" by (rule solo_replace[OF f(1) i(2)])
  have "read_side S cid p sid = put_side S p (put_conn (s_l S p) cid c') [] (s_written S p) ?r"
    using c r by (simp add: read_side_def del: lm_reads)
  then show ?thesis using side_moves[OF m snd_move_refl i(1) so l _ _ f(4) i(3)] f(3) by simp
qed

lemma flush_matches:
  assumes L: "lib_ok L" "length secret = 32" and m: "s_matches L cid secret mtu T S"
    and ok: "s_ok cid S (Flush_s p werr ord now)" and fl: "Listener_Flush L werr ord (s_l S p) now = Inr (wait, l, sent)"
  shows "\<exists>T'. s_matches L cid secret mtu T' (put_side S p l (map snd sent) (s_written S p) (s_read S p))"
proof -
  note f = side_facts[OF m, where p = p]
  have l: "119 \<le> l_mtu (s_l S p)" "l_mtu (s_l S p) \<le> 65535" "no_cursor (s_l S p)" using f(2) by (simp_all add: l_inv_def no_cursor_def)
  obtain out inn where m': "snd_move (T p) out" "rcv_move (T (\<not> p)) inn" "same_traffic (T p) out" "same_traffic (T (\<not> p)) inn"
      "solo cid secret p out inn l" "\<forall>e \<in> set sent. on_wire L cid secret p out inn (snd e)" "l_mtu l = mtu"
    using Listener_Flush_solo[OF L l(1,2) f(1) l(3) _ _ fl] ok f(3) by auto
  have "l_inv l" "\<forall>e \<in> set sent. int (length (snd e)) \<le> mtu"
    using Listener_Flush_ok[OF L(1) f(2), of werr ord now] ok fl f(3) by auto
  with side_moves[OF m m'(1,2,5), of "map snd sent"] m'(3,4,6,7) f(4,5) show ?thesis by (simp add: same_traffic_def)
qed

lemma unknown_packet:
  assumes "lib_ok L" "length secret = 32" "conn_at l cid = None" "8 \<le> length pl"
    and len: "int (length (sealed_packet L cid secret sender sn pl)) \<le> l_mtu l"
  shows "\<exists>e. Listener_Listen L gen l (ReadData (sealed_packet L cid secret sender sn pl) addr) now = (Inl e, l)"
  using len length_sealed_packet[OF assms(1,2), of cid sender sn pl] assms(3)
  by (auto simp: Listener_Listen_def decode_sealed_kind[OF assms(1,2,4)] decode_Data_def Let_def simp del: lm_reads)

lemma deliver_matches:
  assumes L: "lib_ok L" "low_order_uniform L" "length secret = 32" and m: "s_matches L cid secret mtu T S"
    and pkt: "pkt \<in> set (s_net S (\<not> p))" and r: "Listener_Listen L gen (s_l S p) (ReadData pkt addr) now = (r, l)"
  shows "\<exists>T'. s_matches L cid secret mtu T' (put_side S p l [] (s_written S p) (s_read S p))"
proof -
  note f = side_facts[OF m, where p = p]
  have l: "l_inv l" "l_mtu l = mtu"
    using Listener_Listen_ok[OF _ L(2) r] f(2,3) by (simp_all add: l_inv_def same_settings_def)
  have w: "on_wire L cid secret (\<not> p) (T (\<not> p)) (T p) pkt" "int (length pkt) \<le> l_mtu (s_l S p)"
    using side_facts(6)[OF m pkt] f(3) by simp_all
  show ?thesis
  proof (cases "conn_at (s_l S p) cid")
    case (Some c)
    have "agrees cid secret (\<not> (\<not> p)) (T p) (T (\<not> p)) c" using soloD[OF f(1) Some] by simp
    from Listener_Listen_agrees[OF L(1,3) this Some w r]
    obtain c' out inn where c': "\<forall>k. conn_at l k = (if k = cid then Some c' else conn_at (s_l S p) k)"
        and mv: "snd_move (T p) out" "rcv_move (T (\<not> p)) inn" "same_traffic (T p) out" "same_traffic (T (\<not> p)) inn"
        and a: "agrees cid secret p out inn c'" by auto
    have "solo cid secret p out inn l" using c' a f(1) unfolding solo_def by (metis option.inject)
    from side_moves[OF m mv(1,2) this l] mv(3,4) f(4,5) show ?thesis by (simp add: same_traffic_def)
  next
    case None
    obtain sn pl where e: "pkt = sealed_packet L cid secret (\<not> p) sn pl" "8 \<le> length pl" using w(1) unfolding on_wire_def by blast
    have "l = s_l S p"
      using unknown_packet[OF L(1,3) None e(2)] r w(2) unfolding e(1) by (metis prod.inject)
    then show ?thesis using keeps_side[OF m] by simp
  qed
qed

section \<open>Reachable sessions\<close>

lemma s_matches_step:
  assumes L: "lib_ok L" "low_order_uniform L" "length secret = 32" and m: "s_matches L cid secret mtu T S"
    and ok: "s_ok cid S e" and st: "s_step L cid S e = Some S'"
  shows "\<exists>T'. s_matches L cid secret mtu T' S'"
proof (cases e)
  case (Call_s p e')
  then show ?thesis using call_matches[OF L(1,2) m] ok st by auto
next
  case (Write_s p sid d)
  then show ?thesis using write_matches[OF L(1,2) m] ok st by auto
next
  case (Read_s p sid)
  then show ?thesis using read_matches[OF m] st by auto
next
  case (Flush_s p werr ord now)
  then obtain wait l sent where "Listener_Flush L werr ord (s_l S p) now = Inr (wait, l, sent)"
      "S' = put_side S p l (map snd sent) (s_written S p) (s_read S p)"
    using st by (auto split: sum.splits)
  then show ?thesis using flush_matches[OF L(1,3) m ok[unfolded Flush_s]] by blast
next
  case (Deliver_s p pkt addr gen now)
  obtain r l where r: "Listener_Listen L gen (s_l S p) (ReadData pkt addr) now = (r, l)" by fastforce
  then have "S' = put_side S p l [] (s_written S p) (s_read S p)"
    using st Deliver_s by (auto simp: unless_panic_def split: sum.splits go_error.splits)
  then show ?thesis using deliver_matches[OF L m _ r] ok Deliver_s by auto
qed

text \<open>
  The start: a side has no connection but the one of the session, and that with the same secret
  as the other side and empty buffers; the responder may still be waiting for the first data
  packet. A side that has lost its connection is a start, too: its packets are only never read.
\<close>

definition fresh_side :: "u64 \<Rightarrow> bytes \<Rightarrow> bool \<Rightarrow> Listener \<Rightarrow> bool" where
  "fresh_side cid secret p l \<longleftrightarrow> l_inv l \<and>
     (\<forall>k c. conn_at l k = Some c \<longrightarrow> k = cid \<and> keyed cid secret p c \<and> c_snd c = NewSendBuffer sndBufferCapacity \<and>
        c_rcv c = NewReceiveBuffer rcvBufferCapacity \<and> (isHandshakeDoneOnRcv c \<or> waiting c))"

definition new_session :: "Listener \<Rightarrow> Listener \<Rightarrow> session" where
  "new_session initiator responder =
     \<lparr>s_l = (\<lambda>p. if p then initiator else responder), s_net = (\<lambda>p. []), s_written = (\<lambda>p sid. []), s_read = (\<lambda>p sid. [])\<rparr>"

definition s_start :: "crypto_lib \<Rightarrow> u64 \<Rightarrow> bytes \<Rightarrow> Listener \<Rightarrow> Listener \<Rightarrow> bool" where
  "s_start L cid secret initiator responder \<longleftrightarrow> lib_ok L \<and> low_order_uniform L \<and> length secret = 32 \<and>
     l_mtu responder = l_mtu initiator \<and> fresh_side cid secret True initiator \<and> fresh_side cid secret False responder"

definition s_reachable :: "crypto_lib \<Rightarrow> u64 \<Rightarrow> Listener \<Rightarrow> Listener \<Rightarrow> session \<Rightarrow> bool" where
  "s_reachable L cid initiator responder = reachable (new_session initiator responder) (guarded (s_ok cid) (s_step L cid))"

lemma capacities: "int buffer_capacity = sndBufferCapacity" "rcvBufferCapacity = sndBufferCapacity"
  by (simp_all add: buffer_capacity_def sndBufferCapacity_def rcvBufferCapacity_def)

lemma s_matches_start:
  assumes "s_start L cid secret initiator responder"
  shows "\<exists>T. s_matches L cid secret (l_mtu initiator) T (new_session initiator responder)"
proof -
  let ?T = "t_init (int buffer_capacity) (int buffer_capacity)"
  have re: "t_reachable False buffer_capacity buffer_capacity ?T" unfolding t_reachable_def by (rule reachable_init)
  note inv = t_reachable_inv[OF re]
  have "solo cid secret p ?T ?T l" if "fresh_side cid secret p l" for p l
    using that inv capacities unfolding fresh_side_def solo_def agrees_def linked_def by (simp add: t_init_def snd_init_def rcv_init_def del: lm_reads) blast
  note so = this
  have T: "sys_written (t_snd ?T) = (\<lambda>sid. [])" "rs_read (t_rcv ?T) = (\<lambda>sid. [])" by (simp_all add: t_init_def snd_init_def rcv_init_def)
  have l: "fresh_side cid secret p (if p then initiator else responder)" "l_mtu (if p then initiator else responder) = l_mtu initiator" for p
    using assms by (simp_all add: s_start_def)
  then have "l_inv (if p then initiator else responder)" for p unfolding fresh_side_def by blast
  then have "side_matches L cid secret (l_mtu initiator) (\<lambda>p. ?T) (new_session initiator responder) p" for p
    using re T so[OF l(1)] l(2) by (simp add: side_matches_def new_session_def)
  then show ?thesis unfolding s_matches_def by blast
qed

interpretation ssys: invariant_system "new_session lC lS" "s_step L cid" "s_ok cid"
    "\<lambda>S. s_start L cid secret lC lS \<longrightarrow> (\<exists>T. s_matches L cid secret (l_mtu lC) T S)" for lC lS L cid secret
proof unfold_locales
  show "s_start L cid secret lC lS \<longrightarrow> (\<exists>T. s_matches L cid secret (l_mtu lC) T (new_session lC lS))" using s_matches_start by blast
next
  fix S e S'
  assume "s_start L cid secret lC lS \<longrightarrow> (\<exists>T. s_matches L cid secret (l_mtu lC) T S)" "s_ok cid S e" "s_step L cid S e = Some S'"
  then show "s_start L cid secret lC lS \<longrightarrow> (\<exists>T. s_matches L cid secret (l_mtu lC) T S')"
    using s_matches_step[of L secret cid "l_mtu lC"] unfolding s_start_def by blast
qed

lemma s_reachable_matches:
  "s_start L cid secret lC lS \<Longrightarrow> s_reachable L cid lC lS S \<Longrightarrow> \<exists>T. s_matches L cid secret (l_mtu lC) T S"
  unfolding s_reachable_def using ssys.reachable_inv by blast

end
