(* ===== verification/Session_Start.thy ===== *)
theory Session_Start
  imports Session_System First_Flight
begin

text \<open>
  From the handshake to the session: the state in which the handshake leaves the two listeners is
  one a session starts from, and what a session guarantees to the two applications.
\<close>

section \<open>The state after the handshake\<close>

lemma single_only: "single l cid c sid s \<Longrightarrow> conn_at l k = Some d \<Longrightarrow> k = cid \<and> d = c"
  by (auto simp: single_def split: if_splits)

lemma idle_l_inv: "idle l \<Longrightarrow> 119 \<le> l_mtu l \<Longrightarrow> l_mtu l \<le> 65535 \<Longrightarrow> l_inv l"
  by (simp add: idle_def l_inv_def conns_ok_def)

lemma fresh_side_single:
  assumes "l_inv l" and "single l cid c 0 stream0" and "conn_traffic c = fresh_traffic"
    and "connId c = cid" "sharedSecret c = Some secret" "isSenderOnInit c = p" "isHandshakeDoneOnRcv c \<or> \<not> p \<and> isInitSentOnSnd c"
  shows "fresh_side cid secret p l"
proof -
  have f: "c_snd c = NewSendBuffer sndBufferCapacity" "c_rcv c = NewReceiveBuffer rcvBufferCapacity" "snCrypto c = 1"
    "epochCryptoSnd c = 0" "epochCryptoRcv c = 0" using assms(3) by (simp_all add: conn_traffic_def)
  have "streams_wf c" using assms(2) by (simp add: single_def streams_wf_def)
  then have "keyed cid secret p c" using f assms(4-6) by (simp add: keyed_def)
  moreover have "isHandshakeDoneOnRcv c \<or> waiting c"
    using f assms(6,7) by (auto simp: waiting_def quiet_def NewSendBuffer_def NewReceiveBuffer_def)
  ultimately show ?thesis
    using assms(1) f(1,2) single_only[OF assms(2)] unfolding fresh_side_def by blast
qed

text \<open>
  C7: The handshake leads to a session: from two listeners without connections, a dial, the two
  packets of the handshake and their flushes leave each side with exactly one connection, under
  the same identifier and the same secret. The initiator is done with the handshake and the
  responder has sent its reply and waits for the first data packet. The state is one from which
  the properties of sessions are shown: buffers are empty and streams are under their own
  numbers.
\<close>
theorem handshake_starts_session:
  assumes L: "lib_ok L" "low_order_uniform L" and idle: "idle lC" "idle lS"
    and mtu: "l_mtu lS = l_mtu lC" "119 \<le> l_mtu lC" "l_mtu lC \<le> 65535"
    and sec: "ECDH L kS (ecdh_PublicKey L kC) = Inr secret" and time: "0 < t2" "t3 \<le> t2 + ReadDeadLine" "0 < t4"
  shows "\<exists>cid c lC1 lC2 lC3 lS1 lS2 w1 w2 p1 p2 cC cS.
    Listener_Dial L (Inr kC) lC addrS = (Inr c, lC1) \<and> connId c = cid \<and>
    Listener_Flush L (\<lambda>_. None) id (put_conn lC1 cid (snd (Conn_Stream c 0))) t1 = Inr (w1, lC2, [(addrS, p1)]) \<and>
    Listener_Listen L (Inr kS) lS (ReadData p1 addrC) t2 = (Inr (Some (cid, 0)), lS1) \<and>
    Listener_Flush L (\<lambda>_. None) id lS1 t3 = Inr (w2, lS2, [(addrC, p2)]) \<and>
    Listener_Listen L gen lC2 (ReadData p2 addrS) t4 = (Inr (Some (cid, 0)), lC3) \<and>
    (\<forall>k. conn_at lC3 k = (if k = cid then Some cC else None)) \<and> (\<forall>k. conn_at lS2 k = (if k = cid then Some cS else None)) \<and>
    connId cC = cid \<and> connId cS = cid \<and> sharedSecret cC = Some secret \<and> sharedSecret cS = Some secret \<and>
    isHandshakeDoneOnRcv cC \<and> \<not> isHandshakeDoneOnRcv cS \<and> isInitSentOnSnd cS \<and>
    s_start L cid secret lC3 lS2"
proof -
  obtain cid c lC1 lC2 lC3 lS1 lS2 w1 w2 p1 p2 cC cS where
      dial: "Listener_Dial L (Inr kC) lC addrS = (Inr c, lC1)" "connId c = cid"
      and f1: "Listener_Flush L (\<lambda>_. None) id (put_conn lC1 cid (snd (Conn_Stream c 0))) t1 = Inr (w1, lC2, [(addrS, p1)])"
      and r1: "Listener_Listen L (Inr kS) lS (ReadData p1 addrC) t2 = (Inr (Some (cid, 0)), lS1)"
      and f2: "Listener_Flush L (\<lambda>_. None) id lS1 t3 = Inr (w2, lS2, [(addrC, p2)])"
      and r2: "Listener_Listen L gen lC2 (ReadData p2 addrS) t4 = (Inr (Some (cid, 0)), lC3)"
      and si: "single lC3 cid cC 0 stream0" "single lS2 cid cS 0 stream0"
      and id: "conn_ident cC = (cid, addrS, kC, Some (ecdh_PublicKey L kS), Some (ecdh_PublicKey L (l_prvKeyId lS)), Some secret, True, False, True)"
        "conn_ident cS = (cid, addrC, kS, Some (ecdh_PublicKey L kC), Some (ecdh_PublicKey L (l_prvKeyId lC)), Some secret, False, False, False)"
      and tr: "conn_traffic cC = fresh_traffic" "conn_traffic cS = fresh_traffic" "isInitSentOnSnd cS" "l_mtu lC3 = l_mtu lC" "l_mtu lS2 = l_mtu lC"
    using plain_exchange[OF L(1) idle mtu sec time, of addrS t1 addrC gen] by metis
  have invC: "l_inv lC" and invS: "l_inv lS" using idle_l_inv idle mtu by simp_all
  have dialed: "Listener_Dial L (Inr kC) lC addrS = (Inr c, put_conn lC cid c) \<and> c = mk_conn cid addrS kC None None True False"
    using idle_dial(1)[OF L(1) idle(1), of kC addrS] dial by (auto simp: mk_conn_def)
  have "l_inv lC1" using dial_with_inv[OF invC dial(1)[unfolded Listener_Dial_def]] by simp
  moreover have "conn_at lC1 cid = Some c" using dialed dial(1) by (auto simp: lmc.get_put simp del: lm_reads)
  ultimately have "l_inv (put_conn lC1 cid (snd (Conn_Stream c 0)))"
    using l_inv_step[of lC1 L "Stream_l cid 0"] L by (simp add: on_conn_def del: lm_reads)
  moreover have fl: "l_inv l'" if "l_inv l" "Listener_Flush L (\<lambda>_. None) id l t = Inr (w, l', sent)" for l t w l' sent
    using Listener_Flush_ok[OF L(1) that(1), of "\<lambda>_. None" id t] that(2) by auto
  ultimately have "l_inv lC2" using f1 by blast
  moreover have li: "l_inv l'" if "l_inv l" "Listener_Listen L g l rd t = (r, l')" for l g rd t r l'
    using Listener_Listen_ok[OF _ L(2) that(2)] that(1) by (simp add: l_inv_def same_settings_def)
  ultimately have "l_inv lC3" "l_inv lS2" using r1 r2 f2 invS fl by blast+
  then have "fresh_side cid secret True lC3" "fresh_side cid secret False lS2"
    using fresh_side_single[OF _ si(1) tr(1), where secret = secret and p = True]
      fresh_side_single[OF _ si(2) tr(2), where secret = secret and p = False] id tr(3) by (simp_all add: conn_ident_def)
  then have "s_start L cid secret lC3 lS2" using L ECDH_length[OF L(1) sec] tr(4,5) by (simp add: s_start_def)
  moreover have "conn_at lC3 k = (if k = cid then Some cC else None)" "conn_at lS2 k = (if k = cid then Some cS else None)" for k
    using si by (simp_all add: single_def)
  moreover have "connId cC = cid" "connId cS = cid" "sharedSecret cC = Some secret" "sharedSecret cS = Some secret"
      "isHandshakeDoneOnRcv cC" "\<not> isHandshakeDoneOnRcv cS"
    using id by (simp_all add: conn_ident_def)
  ultimately show ?thesis using dial f1 r1 f2 r2 tr(3) by blast
qed

lemma demo_flat_ECDH: "ECDH demo_flat_lib k (ecdh_PublicKey demo_flat_lib k') = Inr (9 # replicate 31 0)"
proof -
  have "replicate 32 (0 :: u8) = 0 # replicate 31 0" by (simp add: numeral_eq_Suc)
  then show ?thesis by (simp add: ECDH_def ecdh_PublicKey_def demo_flat_lib_def basepoint_def pad32_def Let_def)
qed

theorem handshake_starts_session_witness:
  "\<exists>cid lC1 lC2 lC3 lS1 lS2 c w1 w2 p1 p2 cC cS.
    Listener_Dial demo_flat_lib (Inr (replicate 32 1)) demo_fresh ''server'' = (Inr c, lC1) \<and>
    Listener_Flush demo_flat_lib (\<lambda>_. None) id (put_conn lC1 cid (snd (Conn_Stream c 0))) 0 = Inr (w1, lC2, [(''server'', p1)]) \<and>
    Listener_Listen demo_flat_lib (Inr (replicate 32 2)) demo_fresh (ReadData p1 ''client'') 1 = (Inr (Some (cid, 0)), lS1) \<and>
    Listener_Flush demo_flat_lib (\<lambda>_. None) id lS1 2 = Inr (w2, lS2, [(''client'', p2)]) \<and>
    Listener_Listen demo_flat_lib (Inr []) lC2 (ReadData p2 ''server'') 3 = (Inr (Some (cid, 0)), lC3) \<and>
    conn_at lC3 cid = Some cC \<and> conn_at lS2 cid = Some cS \<and> sharedSecret cC = sharedSecret cS \<and>
    s_start demo_flat_lib cid (9 # replicate 31 0) lC3 lS2"
proof -
  have f: "idle demo_fresh" "119 \<le> l_mtu demo_fresh" "l_mtu demo_fresh \<le> 65535" by (simp_all add: demo_fresh_def idle_def)
  have t: "(0 :: u64) < 1" "(2 :: u64) \<le> 1 + ReadDeadLine" "(0 :: u64) < 3" by (simp_all add: ReadDeadLine_def secondNano_def)
  show ?thesis
    using handshake_starts_session[OF demo_flat_lib_ok f(1,1) refl f(2,3) demo_flat_ECDH t, of "replicate 32 1" "''server''" 0 "replicate 32 2" "''client''" "Inr []"]
    by metis
qed

section \<open>What a session guarantees\<close>

text \<open>
  C2: A session of two listeners is two transports, one for each direction: in every state the
  two reach, by calls of their applications, whole flushes and deliveries of packets the other
  side has sent, in any order, there are two reachable transports. What the applications have
  written and read is what was written to and read from the transports, and the buffers of the
  two connections are the ends of them.
\<close>
theorem session_refines_transport:
  assumes "s_start L cid secret initiator responder" and "s_reachable L cid initiator responder S"
  shows "\<exists>T. \<forall>p. t_reachable False buffer_capacity buffer_capacity (T p) \<and>
    sys_written (t_snd (T p)) = s_written S p \<and> rs_read (t_rcv (T p)) = s_read S (\<not> p) \<and>
    (\<forall>c. conn_at (s_l S p) cid = Some c \<longrightarrow> c_snd c = sys_buf (t_snd (T p)) \<and> c_rcv c = rs_buf (t_rcv (T (\<not> p))))"
proof -
  obtain T where T: "s_matches L cid secret (l_mtu initiator) T S" using s_reachable_matches[OF assms] by blast
  have "c_snd c = sys_buf (t_snd (T p)) \<and> c_rcv c = rs_buf (t_rcv (T (\<not> p)))" if "conn_at (s_l S p) cid = Some c" for p c
    using soloD[OF side_facts(1)[OF T] that] by (simp add: agrees_def linked_def)
  moreover have "t_reachable False buffer_capacity buffer_capacity (T p) \<and> sys_written (t_snd (T p)) = s_written S p \<and>
      rs_read (t_rcv (T p)) = s_read S (\<not> p)" for p
    using T unfolding s_matches_def side_matches_def by blast
  ultimately show ?thesis by (intro exI[of _ T]) blast
qed

lemma t_prefix:
  assumes "t_reachable False sc rc T"
  shows "\<exists>rest. sys_written (t_snd T) sid = rs_read (t_rcv T) sid @ rest"
proof -
  have "read_inv (sys_written (t_snd T)) (t_rcv T)" using t_inv_fields(3)[OF t_reachable_inv[OF assms]] by (simp add: rcv_side_def)
  from read_inv_stream(3)[OF this, of sid] show ?thesis by (metis append_take_drop_id)
qed

text \<open>
  C1: Between two listeners with an established connection, over a network that loses, repeats
  and reorders packets: what one application has read from a stream is at every moment a prefix
  of what the other has written to it, in both directions.
\<close>
theorem session_prefix:
  assumes "s_start L cid secret initiator responder" and "s_reachable L cid initiator responder S"
  shows "\<exists>rest. s_written S p sid = s_read S (\<not> p) sid @ rest"
proof -
  obtain T where T: "s_matches L cid secret (l_mtu initiator) T S" using s_reachable_matches[OF assms] by blast
  then have "side_matches L cid secret (l_mtu initiator) T S p" by (simp add: s_matches_def)
  then show ?thesis using t_prefix[of buffer_capacity buffer_capacity "T p" sid] by (simp add: side_matches_def)
qed

section \<open>A run\<close>

text \<open>
  Two sides after a handshake, the responder still waiting; the initiator writes two bytes, and
  they are flushed, delivered and read.
\<close>

definition demo_peer :: "bool \<Rightarrow> Conn" where
  "demo_peer p = (mk_conn 5 ''peer'' (replicate 32 1) (Some (replicate 32 2)) (Some (replicate 32 4)) p False)
     \<lparr>sharedSecret := Some (replicate 32 7), isHandshakeDoneOnRcv := p, isInitSentOnSnd := True, snCrypto := 1,
      streams := lm_put lm_new 0 stream0\<rparr>"

definition demo_side :: "bool \<Rightarrow> Listener" where
  "demo_side p = put_conn demo_fresh 5 (demo_peer p)"

lemma demo_side_single: "single (demo_side p) 5 (demo_peer p) 0 stream0"
  by (simp add: demo_side_def demo_fresh_def put_conn_def single_def demo_peer_def al_put_def)

lemma demo_side_inv: "l_inv (demo_side p)"
proof -
  have "l_inv demo_fresh" by (rule idle_l_inv) (simp_all add: demo_fresh_def idle_def)
  moreover have "conn_inv (demo_peer p)"
    using mk_conn_inv[of p "Some (replicate 32 4)" False "Some (replicate 32 2)" 5 "''peer''" "replicate 32 1"]
    by (simp add: demo_peer_def conn_inv_def sn_inv_def keys_ok_def mk_conn_def)
  ultimately show ?thesis unfolding demo_side_def by (intro l_inv_put) (simp_all add: demo_peer_def)
qed

lemma demo_session_start: "s_start demo_flat_lib 5 (replicate 32 7) (demo_side True) (demo_side False)"
proof -
  have "fresh_side 5 (replicate 32 7) p (demo_side p)" for p
    by (rule fresh_side_single[OF demo_side_inv demo_side_single]) (simp_all add: demo_peer_def mk_conn_def conn_traffic_def)
  moreover have "l_mtu (demo_side p) = 1400" for p by (simp add: demo_side_def demo_fresh_def)
  ultimately show ?thesis using demo_flat_lib_ok by (simp add: s_start_def)
qed

definition demo_wrote :: Conn where
  "demo_wrote = (demo_peer True)
     \<lparr>c_snd := (snd_put_stream (NewSendBuffer sndBufferCapacity) 0 (NewStreamBuffer\<lparr>queuedData := [7, 8]\<rparr>))\<lparr>snd_size := 2\<rparr>\<rparr>"

lemma demo_write: "Stream_Write (demo_peer True) stream0 [7, 8] None = Some ((2, None), demo_wrote)"
  using QueueData_eq[of "NewSendBuffer sndBufferCapacity" 0 "[7, 8]"]
  by (simp add: Stream_Write_def demo_wrote_def demo_peer_def mk_conn_def SendBuffer_GetOffsetClosedAt_def NewSendBuffer_def
      snd_getOrCreateStream_def NewStreamBuffer_def sndBufferCapacity_def)

definition demo_sealed :: bytes where
  "demo_sealed = sealed_packet demo_flat_lib 5 (replicate 32 7) True 1 (payloadBytes packet_start (Some [7, 8]))"

lemma demo_flush:
  assumes "env_lib env = demo_flat_lib" and "env_mtu env = 1400"
  shows "\<exists>pacing c'. Conn_Flush env demo_wrote stream0 5 None = (Inr (2, pacing), c', Some demo_sealed) \<and>
    streams c' = streams demo_wrote"
proof -
  obtain sb where send: "SendBuffer_ReadyToSend (c_snd demo_wrote) 0 Data None 1400 5 = ((Some [7, 8], 0, False), sb)"
    by (simp add: demo_wrote_def SendBuffer_ReadyToSend_def snd_put_stream_def NewStreamBuffer_def maxData_def calcCryptoOverheadWithData_def
        calcProtoOverhead_def crypto_consts Let_def)
  have rt: "SendBuffer_ReadyToRetransmit (c_snd demo_wrote) 0 None 1400 r Data 5 = Inr ((None, 0, False), c_snd demo_wrote)" for r
    by (rule quiet_retransmit) (simp add: quiet_def demo_wrote_def snd_put_stream_def NewStreamBuffer_def NewSendBuffer_def)
  let ?c = "demo_wrote\<lparr>c_snd := sb\<rparr>"
  have est: "established 5 (replicate 32 7) True ?c" "snCrypto ?c = 1"
    by (simp_all add: established_def demo_wrote_def demo_peer_def mk_conn_def)
  have f: "Conn_msgType demo_wrote = Data" "isHandshakeDoneOnRcv demo_wrote" "go_int (rcvWndSize demo_wrote) = 16777216" "dataInFlight demo_wrote = 0"
    "nextWriteTime demo_wrote = 0" "ReceiveBuffer_GetSndAck (c_rcv demo_wrote) = (None, c_rcv demo_wrote)"
    by (simp_all add: demo_wrote_def demo_peer_def mk_conn_def Conn_msgType_def rcvBufferCapacity_def go_int_def ReceiveBuffer_GetSndAck_def NewReceiveBuffer_def)
  have enc: "Conn_encode env ?c packet_start (Some [7, 8]) Data = (Inr demo_sealed, ?c\<lparr>snCrypto := 2\<rparr>)"
    using encode_established[OF demo_flat_lib_ok(1) assms(1) _ est(1), of packet_start "Some [7, 8]"] est(2) by (simp add: demo_sealed_def)
  obtain pacing where "calcPacing (measurements demo_wrote) (len64 demo_sealed) = Some pacing" using calcPacing_some by blast
  then show ?thesis
    using send rt f enc assms
    by (simp add: Conn_Flush_def flush_new_def Conn_sendPacket_def write_packet_def packet_start_def Let_def)
qed

lemma demo_deliver:
  "\<exists>l c. Listener_Listen demo_flat_lib (Inr []) (demo_side False) (ReadData demo_sealed ''client'') 6 = (Inr (Some (5, 0)), l) \<and>
     single l 5 c 0 stream0 \<and> fst (Stream_Read c 0 stream0) = (Some [7, 8], None)"
proof -
  let ?c = "demo_peer False" and ?pl = "payloadBytes packet_start (Some [7, 8])" and ?s = "replicate 32 (7 :: u8)"
  have k: "keyed 5 ?s (\<not> True) ?c"
    by (simp add: keyed_def demo_peer_def mk_conn_def streams_wf_def al_put_def)
  have at: "conn_at (demo_side False) 5 = Some ?c" by (rule single_conn_at[OF demo_side_single])
  have len: "length demo_sealed = 41" "length ?pl = 10"
    using length_sealed_packet[OF demo_flat_lib_ok(1), of ?s 5 True 1 ?pl] by (simp_all add: demo_sealed_def length_first_payload)
  have mtu: "l_mtu (demo_side False) = 1400" by (simp add: demo_side_def demo_fresh_def)
  have "Listener_decode demo_flat_lib (Inr []) (demo_side False) demo_sealed spare addr =
      (Inr (5, ?pl, Data), put_conn (demo_side False) 5 ?c)" for spare addr
    unfolding demo_sealed_def by (rule decode_sealed[OF demo_flat_lib_ok(1) _ k at]) (simp_all add: len(2))
  then have listen: "Listener_Listen demo_flat_lib (Inr []) (demo_side False) (ReadData demo_sealed ''client'') 6 =
      listen_decoded (put_conn (demo_side False) 5 ?c) 5 ?pl Data 41 6"
    using len(1) mtu by (auto simp: Listener_Listen_def Let_def)
  obtain rb where rb: "ReceiveBuffer_Insert (NewReceiveBuffer rcvBufferCapacity) 0 0 6 [7, 8] = Some (RcvInsertOk, rb)"
    "fst (ReceiveBuffer_RemoveOldestInOrder rb 0) = (0, Some [7, 8], 6)" "ReceiveBuffer_GetOffsetClosedAt rb 0 = None"
    using fresh_insert[of "[7, 8]" 6] by auto
  define c3 where "c3 = ?c\<lparr>measurements := (measurements ?c)\<lparr>lastReadTimeNano := 6\<rparr>, c_rcv := rb\<rparr>"
  have "Conn_decode (?c\<lparr>measurements := (measurements ?c)\<lparr>lastReadTimeNano := 6\<rparr>\<rparr>) packet_start (Some [7, 8]) 41 6 = Some (0, c3)"
    using rb(1) by (simp add: Conn_decode_def Conn_Stream_def decode_data_def packet_start_def c3_def demo_peer_def mk_conn_def al_put_def Let_def)
  moreover have "lastReadTimeNano (measurements ?c) < 6" "lm_entries (streams c3) = [(0, stream0)]"
    by (simp_all add: c3_def demo_peer_def mk_conn_def NewMeasurements_def al_put_def)
  ultimately obtain l where l: "listen_decoded (put_conn (demo_side False) 5 ?c) 5 ?pl Data 41 6 = (Inr (Some (5, ph_StreamID packet_start)), l)"
      "single l 5 (handshake_after Data c3) 0 stream0"
    using listen_decoded_single[OF demo_side_single _ packet_start_decoded, of ?c 6 "[7, 8]" 41 0 c3 stream0 Data False] by auto
  have "c_rcv (handshake_after Data c3) = rb" by (simp add: handshake_after_def c3_def)
  then have "fst (Stream_Read (handshake_after Data c3) 0 stream0) = (Some [7, 8], None)"
    using rb(2,3) by (cases "ReceiveBuffer_RemoveOldestInOrder rb 0") (simp add: Stream_Read_def Let_def)
  then show ?thesis using listen l by (auto simp: packet_start_def)
qed

lemma demo_session_run:
  "\<exists>S. s_reachable demo_flat_lib 5 (demo_side True) (demo_side False) S \<and> s_written S True 0 = [7, 8] \<and> s_read S False 0 = [7, 8]"
proof -
  let ?step = "guarded (s_ok 5) (s_step demo_flat_lib 5)" and ?S0 = "new_session (demo_side True) (demo_side False)"
  define l1 where "l1 = put_conn (demo_side True) 5 demo_wrote"
  define S1 where "S1 = put_side ?S0 True l1 [] ((\<lambda>sid. [])(0 := [7, 8])) (\<lambda>sid. [])"
  have at: "conn_at (demo_side p) 5 = Some (demo_peer p)" "lm_get (streams (demo_peer p)) 0 = Some stream0" for p
    using demo_side_single[of p] by (simp_all add: single_def)
  have s1: "?step ?S0 (Write_s True 0 [7, 8]) = Some S1"
    using at demo_write by (simp add: guarded_def write_side_def new_session_def S1_def l1_def put_side_def del: lm_reads)
  have si: "single l1 5 demo_wrote 0 stream0" and e: "env_lib (l_env demo_flat_lib l1) = demo_flat_lib" "env_mtu (l_env demo_flat_lib l1) = 1400"
    using demo_side_single[of True]
    by (simp_all add: l1_def single_def put_conn_def demo_side_def demo_fresh_def demo_wrote_def demo_peer_def al_put_def l_env_def)
  obtain pacing c' where fl: "Conn_Flush (l_env demo_flat_lib l1) demo_wrote stream0 5 None = (Inr (2, pacing), c', Some demo_sealed)"
      "streams c' = streams demo_wrote" using demo_flush[OF e] by blast
  obtain w l2 where f: "Listener_Flush demo_flat_lib (\<lambda>_. None) id l1 5 = Inr (w, l2, [(remoteAddr c', demo_sealed)])"
    using Listener_Flush_single[OF si, of id demo_flat_lib 5 "\<lambda>_. None", OF _ fl] by auto
  define S2 where "S2 = put_side S1 True l2 [demo_sealed] ((\<lambda>sid. [])(0 := [7, 8])) (\<lambda>sid. [])"
  have "unat (snCrypto demo_wrote) + length (lm_entries (streams demo_wrote)) < 2 ^ 48"
    by (simp add: demo_wrote_def demo_peer_def mk_conn_def al_put_def)
  then have s2: "?step S1 (Flush_s True (\<lambda>_. None) id 5) = Some S2"
    using f single_conn_at[OF si] by (simp add: guarded_def S1_def S2_def put_side_def del: lm_reads)
  obtain l3 c3 where d: "Listener_Listen demo_flat_lib (Inr []) (demo_side False) (ReadData demo_sealed ''client'') 6 = (Inr (Some (5, 0)), l3)"
      "single l3 5 c3 0 stream0" "fst (Stream_Read c3 0 stream0) = (Some [7, 8], None)" using demo_deliver by blast
  define S3 where "S3 = put_side S2 False l3 [] (\<lambda>sid. []) (\<lambda>sid. [])"
  have s3: "?step S2 (Deliver_s False demo_sealed ''client'' (Inr []) 6) = Some S3"
    using d(1) by (simp add: guarded_def S1_def S2_def S3_def put_side_def new_session_def unless_panic_def)
  define S4 where "S4 = read_side S3 5 False 0"
  have s4: "?step S3 (Read_s False 0) = Some S4" by (simp add: guarded_def S4_def)
  have "run ?step ?S0 [Write_s True 0 [7, 8], Flush_s True (\<lambda>_. None) id 5, Deliver_s False demo_sealed ''client'' (Inr []) 6, Read_s False 0] = Some S4"
    by (simp only: run.simps s1 s2 s3 s4 option.case)
  then have "s_reachable demo_flat_lib 5 (demo_side True) (demo_side False) S4"
    unfolding s_reachable_def by (rule run_reachable[OF reachable_init])
  moreover have "conn_at l3 5 = Some c3" "lm_get (streams c3) 0 = Some stream0" using d(2) by (simp_all add: single_def)
  then have "s_read S4 False 0 = [7, 8]" "s_written S4 True 0 = [7, 8]"
    using d(3) by (auto simp: S4_def S3_def S2_def S1_def read_side_def put_side_def new_session_def simp del: lm_reads split: prod.splits)
  ultimately show ?thesis by blast
qed

theorem session_refines_transport_witness:
  "\<exists>T. t_reachable False buffer_capacity buffer_capacity T \<and> sys_written (t_snd T) 0 = [7, 8] \<and> rs_read (t_rcv T) 0 = [7, 8]"
proof -
  obtain S where S: "s_reachable demo_flat_lib 5 (demo_side True) (demo_side False) S" "s_written S True 0 = [7, 8]" "s_read S False 0 = [7, 8]"
    using demo_session_run by blast
  obtain T where "t_reachable False buffer_capacity buffer_capacity (T True)" "sys_written (t_snd (T True)) = s_written S True"
      "rs_read (t_rcv (T True)) = s_read S False"
    using session_refines_transport[OF demo_session_start S(1)] by fastforce
  then show ?thesis using S(2,3) by (intro exI[of _ "T True"]) simp
qed

theorem session_prefix_witness:
  "\<exists>S rest. s_reachable demo_flat_lib 5 (demo_side True) (demo_side False) S \<and> s_read S False 0 = [7, 8] \<and>
     s_written S True 0 = [7, 8] @ rest"
proof -
  obtain S where S: "s_reachable demo_flat_lib 5 (demo_side True) (demo_side False) S" "s_read S False 0 = [7, 8]"
    using demo_session_run by blast
  then show ?thesis using session_prefix[OF demo_session_start S(1), of True 0] by auto
qed

end
