(* ===== verification/Programs.thy ===== *)
theory Programs
  imports First_Flight
begin

text \<open>
  The programs around the library: the choice of the log level in \<^verbatim>\<open>main.go\<close> and the two example
  programs. What they print is left out; command line, input line and environment are arguments.
\<close>

section \<open>Strings\<close>

text \<open>
  \<^verbatim>\<open>ToLower\<close>, \<^verbatim>\<open>ToUpper\<close> and \<^verbatim>\<open>TrimSpace\<close> of package \<^verbatim>\<open>strings\<close>: ASCII is done here, and what Unicode
  says of other text is an argument.
\<close>

definition strings_ToLower :: "(string \<Rightarrow> string) \<Rightarrow> string \<Rightarrow> string" where
  "strings_ToLower unicode s =
     (if list_all (\<lambda>c. of_char c < (128 :: nat)) s
      then map (\<lambda>c. if (65 :: nat) \<le> of_char c \<and> of_char c \<le> (90 :: nat) then char_of (of_char c + 32 :: nat) else c) s
      else unicode s)"

definition strings_ToUpper :: "(bytes \<Rightarrow> bytes) \<Rightarrow> bytes \<Rightarrow> bytes" where
  "strings_ToUpper unicode s =
     (if list_all (\<lambda>b. b < 0x80) s then map (\<lambda>b. if 97 \<le> b \<and> b \<le> 122 then b - 32 else b) s else unicode s)"

definition ascii_space :: "u8 \<Rightarrow> bool" where
  "ascii_space b \<longleftrightarrow> b \<in> {9, 10, 11, 12, 13, 32}"

definition strings_TrimSpace :: "(bytes \<Rightarrow> bytes) \<Rightarrow> (bytes \<Rightarrow> bytes) \<Rightarrow> bytes \<Rightarrow> bytes" where
  "strings_TrimSpace trimFunc trimRightFunc s =
     (let s = dropWhile ascii_space s in
      if s \<noteq> [] \<and> hd s \<ge> 0x80 then trimFunc s
      else
        let s = rev (dropWhile ascii_space (rev s)) in
        if s \<noteq> [] \<and> last s \<ge> 0x80 then trimRightFunc s else s)"

section \<open>The log level\<close>

datatype log_level = LevelDebug | LevelInfo | LevelWarn | LevelError

definition init_level :: "(string \<Rightarrow> string) \<Rightarrow> string \<Rightarrow> log_level" where
  "init_level unicode env =
     (let levelStr = strings_ToLower unicode env in
      if levelStr = ''debug'' then LevelDebug
      else if levelStr = ''info'' \<or> levelStr = '''' then LevelInfo
      else if levelStr = ''warn'' \<or> levelStr = ''warning'' then LevelWarn
      else if levelStr = ''error'' then LevelError
      else LevelInfo)"

section \<open>The command line of the examples\<close>

datatype command = Usage | BadCommand | RunServer string | RunClient string

definition example1_main :: "string list \<Rightarrow> command" where
  "example1_main args =
     (if length args < 2 then Usage
      else if args ! 1 = ''server'' then RunServer (if length args > 2 then args ! 2 else ''127.0.0.1:8888'')
      else if args ! 1 = ''client'' then RunClient (if length args > 2 then args ! 2 else ''127.0.0.1:8888'')
      else BadCommand)"

text \<open>The second example has the same function.\<close>

definition example2_main :: "string list \<Rightarrow> command" where
  "example2_main args = example1_main args"

section \<open>The text of the second example\<close>

text \<open>
  The loop does not end for an empty text, which the caller excludes; a negative length makes the
  allocation panic. The limit that the runtime and the memory of the machine set to an
  allocation is not part of the model.
\<close>

partial_function (option) repeat_loop :: "bytes \<Rightarrow> nat \<Rightarrow> bytes \<Rightarrow> bytes option" where
  "repeat_loop text targetBytes result =
     (if length result < targetBytes then repeat_loop text targetBytes (result @ text) else Some result)"

definition repeatText :: "bytes \<Rightarrow> int \<Rightarrow> bytes option" where
  "repeatText text targetBytes =
     (if length text = 0 then Some []
      else if targetBytes < 0 then None
      else do {
        result \<leftarrow> repeat_loop text (nat targetBytes) [];
        Some (take (nat targetBytes) result)
      })"

section \<open>The callbacks\<close>

text \<open>
  A callback gets the stream of the last packet as its pair of keys, or nothing. The argument
  \<open>wake\<close> is the error of the socket that a write reports.
\<close>

definition with_stream :: "Listener \<Rightarrow> (u64 \<times> u32) option \<Rightarrow> 'a \<Rightarrow> 'a \<Rightarrow> (u64 \<Rightarrow> u32 \<Rightarrow> Conn \<Rightarrow> Stream \<Rightarrow> 'a) \<Rightarrow> 'a" where
  "with_stream l at onNil onMissing f =
     (case at of
        None \<Rightarrow> onNil
      | Some (cid, sid) \<Rightarrow>
          (case conn_at l cid of
             None \<Rightarrow> onMissing
           | Some c \<Rightarrow> (case lm_get (streams c) sid of None \<Rightarrow> onMissing | Some s \<Rightarrow> f cid sid c s)))"

abbreviation nil_panic :: "bool result" where
  "nil_panic \<equiv> Inl (Panic ''nil pointer dereference'')"

abbreviation read_bytes :: "bytes option \<Rightarrow> bytes" where
  "read_bytes d \<equiv> (case d of None \<Rightarrow> [] | Some b \<Rightarrow> b)"

text \<open>The reply: the results of the write are not looked at.\<close>

definition reply_and_close :: "Listener \<Rightarrow> u64 \<Rightarrow> Conn \<Rightarrow> Stream \<Rightarrow> bytes \<Rightarrow> io_error option \<Rightarrow> bool result \<times> Listener" where
  "reply_and_close l cid c s reply wake =
     (case Stream_Write c s reply wake of
        None \<Rightarrow> (Inl (Panic ''slice bounds out of range''), l)
      | Some (_, c) \<Rightarrow> (Inr True, put_conn l cid (Stream_Close c s)))"

definition example1_server :: "(bytes \<Rightarrow> bytes) \<Rightarrow> io_error option \<Rightarrow> Listener \<Rightarrow> (u64 \<times> u32) option \<Rightarrow> bool result \<times> Listener" where
  "example1_server unicode wake l at =
     with_stream l at (Inr True, l) (nil_panic, l) (\<lambda>cid sid c s.
       case Stream_Read c sid s of
         ((d, err), s, c) \<Rightarrow>
           let l = put_conn l cid c in
           if err \<noteq> None then (Inr False, l)
           else if length (read_bytes d) > 0
           then reply_and_close l cid c s (strings_ToUpper unicode (read_bytes d)) wake
           else (Inr True, l))"

definition example1_client :: "Listener \<Rightarrow> (u64 \<times> u32) option \<Rightarrow> bool result \<times> Listener" where
  "example1_client l at =
     with_stream l at (Inr True, l) (nil_panic, l) (\<lambda>cid sid c s.
       case Stream_Read c sid s of
         ((d, _), _, c) \<Rightarrow> (Inr (\<not> length (read_bytes d) > 0), put_conn l cid c))"

text \<open>The second example counts the bytes in a variable that the callback captures.\<close>

definition hello_server :: bytes where "hello_server = map of_char ''Hello from server! ''"
definition hello_client :: bytes where "hello_client = map of_char ''Hello from client! ''"

definition example2_server :: "io_error option \<Rightarrow> int \<Rightarrow> Listener \<Rightarrow> (u64 \<times> u32) option \<Rightarrow> bool result \<times> Listener \<times> int" where
  "example2_server wake n l at =
     with_stream l at (Inr True, l, n) (nil_panic, l, n) (\<lambda>cid sid c s.
       case Stream_Read c sid s of
         ((d, err), s, c) \<Rightarrow>
           let l = put_conn l cid c in
           if err \<noteq> None then (Inr False, l, n)
           else if length (read_bytes d) > 0 then
             let n = n + int (length (read_bytes d)) in
             if n = 20000 then
               (case repeatText hello_server 20000 of
                  None \<Rightarrow> (Inl (Panic ''makeslice: cap out of range''), l, n)
                | Some reply \<Rightarrow> (case reply_and_close l cid c s reply wake of (r, l) \<Rightarrow> (r, l, n)))
             else (Inr True, l, n)
           else (Inr True, l, n))"

definition example2_client :: "int \<Rightarrow> Listener \<Rightarrow> (u64 \<times> u32) option \<Rightarrow> bool result \<times> Listener \<times> int" where
  "example2_client n l at =
     with_stream l at (Inr True, l, n) (nil_panic, l, n) (\<lambda>cid sid c s.
       case Stream_Read c sid s of
         ((d, _), _, c) \<Rightarrow>
           let l = put_conn l cid c in
           if length (read_bytes d) > 0 then
             let n = n + int (length (read_bytes d)) in (Inr (n \<noteq> 20000), l, n)
           else (Inr True, l, n))"

section \<open>The programs\<close>

text \<open>Deferred calls run when the function returns and when it panics, but not while the loop runs.\<close>

definition close_after :: "loop_status \<times> Listener \<Rightarrow> loop_status \<times> Listener" where
  "close_after r = (case r of (Running w, l) \<Rightarrow> (Running w, l) | (status, l) \<Rightarrow> (status, snd (Listener_Close None None l)))"

definition example1_runServer ::
  "crypto_lib \<Rightarrow> prvKey result \<Rightarrow> (string option \<Rightarrow> string result) \<Rightarrow> (string \<Rightarrow> string result) \<Rightarrow> (bytes \<Rightarrow> bytes) \<Rightarrow>
   string \<Rightarrow> (round \<times> io_error option) list \<Rightarrow> (loop_status \<times> Listener) result" where
  "example1_runServer L gen listenUDP resolve unicode addr rds =
     and_then (Listen gen listenUDP [WithListenAddr resolve addr]) (\<lambda>l.
       Inr (close_after (Listener_Loop L l (map (\<lambda>(rd, wake). rd\<lparr>rd_callback := example1_server unicode wake\<rparr>) rds))))"

text \<open>The clients up to their loop; \<^verbatim>\<open>log.Fatal\<close> on an error ends the program.\<close>

definition client_start ::
  "crypto_lib \<Rightarrow> prvKey result \<Rightarrow> (string option \<Rightarrow> string result) \<Rightarrow> prvKey result \<Rightarrow> (string \<Rightarrow> string result) \<Rightarrow>
   string \<Rightarrow> bytes result \<Rightarrow> io_error option \<Rightarrow> Listener result" where
  "client_start L gen listenUDP genEp parseAddr serverAddr msg wake =
     and_then (Listen gen listenUDP []) (\<lambda>l.
       case Listener_DialString L genEp parseAddr l serverAddr of
         (Inl e, l) \<Rightarrow> Inl e
       | (Inr conn, l) \<Rightarrow>
           (case Conn_Stream conn 0 of
              (s, conn) \<Rightarrow>
                and_then msg (\<lambda>msg.
                  case Stream_Write conn s msg wake of
                    None \<Rightarrow> Inl (Panic ''slice bounds out of range'')
                  | Some ((n, Some _), conn) \<Rightarrow> Inl (Err ''write'')
                  | Some ((n, None), conn) \<Rightarrow> Inr (put_conn l (connId conn) conn))))"

definition example1_runClient ::
  "crypto_lib \<Rightarrow> prvKey result \<Rightarrow> (string option \<Rightarrow> string result) \<Rightarrow> prvKey result \<Rightarrow> (string \<Rightarrow> string result) \<Rightarrow>
   (bytes \<Rightarrow> bytes) \<Rightarrow> (bytes \<Rightarrow> bytes) \<Rightarrow> string \<Rightarrow> bytes \<Rightarrow> io_error option \<Rightarrow> round list \<Rightarrow> (loop_status \<times> Listener) result" where
  "example1_runClient L gen listenUDP genEp parseAddr trimFunc trimRightFunc serverAddr input wake rds =
     and_then (client_start L gen listenUDP genEp parseAddr serverAddr (Inr (strings_TrimSpace trimFunc trimRightFunc input)) wake) (\<lambda>l.
       Inr (close_after (Listener_Loop L l (map (\<lambda>rd. rd\<lparr>rd_callback := example1_client\<rparr>) rds))))"

text \<open>The loop with a captured count: the count after a round is what the callback of the round leaves.\<close>

fun counted_loop ::
  "crypto_lib \<Rightarrow> u64 \<Rightarrow> int \<Rightarrow> Listener \<Rightarrow>
   (round \<times> (int \<Rightarrow> Listener \<Rightarrow> (u64 \<times> u32) option \<Rightarrow> bool result \<times> Listener \<times> int)) list \<Rightarrow> loop_status \<times> Listener" where
  "counted_loop L wait n l [] = (Running wait, l)"
| "counted_loop L wait n l ((rd, f) # rds) =
     (let n' = (case Listener_Listen L (rd_gen rd) l (rd_read rd wait) (rd_readTime rd) of
                  (Inr s, l) \<Rightarrow> snd (snd (f n l s))
                | (Inl _, l) \<Rightarrow> n)
      in case loop_round L wait l (rd\<lparr>rd_callback := \<lambda>l s. case f n l s of (r, l, _) \<Rightarrow> (r, l)\<rparr>) of
           (Running wait, l) \<Rightarrow> counted_loop L wait n' l rds
         | (status, l) \<Rightarrow> (status, l))"

definition example2_runServer ::
  "crypto_lib \<Rightarrow> prvKey result \<Rightarrow> (string option \<Rightarrow> string result) \<Rightarrow> (string \<Rightarrow> string result) \<Rightarrow>
   string \<Rightarrow> (round \<times> io_error option) list \<Rightarrow> (loop_status \<times> Listener) result" where
  "example2_runServer L gen listenUDP resolve addr rds =
     and_then (Listen gen listenUDP [WithListenAddr resolve addr]) (\<lambda>l.
       Inr (close_after (counted_loop L MinDeadLine 0 l (map (\<lambda>(rd, wake). (rd, example2_server wake)) rds))))"

definition example2_runClient ::
  "crypto_lib \<Rightarrow> prvKey result \<Rightarrow> (string option \<Rightarrow> string result) \<Rightarrow> prvKey result \<Rightarrow> (string \<Rightarrow> string result) \<Rightarrow>
   string \<Rightarrow> io_error option \<Rightarrow> round list \<Rightarrow> (loop_status \<times> Listener) result" where
  "example2_runClient L gen listenUDP genEp parseAddr serverAddr wake rds =
     and_then (client_start L gen listenUDP genEp parseAddr serverAddr (or_panic (repeatText hello_client 20000)) wake) (\<lambda>l.
       Inr (close_after (counted_loop L MinDeadLine 0 l (map (\<lambda>rd. (rd, example2_client)) rds))))"

section \<open>The repeated text\<close>

lemma length_copies: "length (concat (replicate k t)) = k * length t"
  by (induction k) simp_all

lemma take_copies:
  assumes "n \<le> j * length t" and "n \<le> k * length t"
  shows "take n (concat (replicate j t)) = take n (concat (replicate k t))"
proof -
  have "take n (concat (replicate j t)) = take n (concat (replicate k t))" if "j \<le> k" "n \<le> j * length t" for j k
  proof -
    have "concat (replicate k t) = concat (replicate j t) @ concat (replicate (k - j) t)"
      using that(1) by (metis concat_append le_add_diff_inverse replicate_add)
    then show ?thesis using that(2) by (simp add: length_copies)
  qed
  then show ?thesis using assms by (metis nat_le_linear)
qed

text \<open>The loop ends, with enough copies of the text.\<close>

lemma repeat_loop_returns:
  assumes "t \<noteq> []"
  shows "\<exists>k. repeat_loop t n (concat (replicate j t)) = Some (concat (replicate k t)) \<and> n \<le> k * length t"
proof (induction "n - j * length t" arbitrary: j rule: less_induct)
  case less
  show ?case
  proof (cases "j * length t < n")
    case True
    have "n - Suc j * length t < n - j * length t" using True assms by (cases t) simp_all
    from less[OF this] obtain k where k: "repeat_loop t n (concat (replicate (Suc j) t)) = Some (concat (replicate k t))" "n \<le> k * length t" by blast
    have "concat (replicate j t) @ t = concat (replicate (Suc j) t)" 
      using arg_cong[OF replicate_append_same[of j t], of concat] by simp
    then show ?thesis using True k by (subst repeat_loop.simps) (auto simp: length_copies)
  next
    case False
    then show ?thesis by (subst repeat_loop.simps) (auto simp: length_copies)
  qed
qed

text \<open>
  C39: The text generator of the second example is equivalent to its reference: it returns, for every
  text and every length, the first bytes of as many copies of the text as bytes are asked for; an
  empty text gives no bytes, and only a negative length panics.
\<close>
theorem repeatText_reference:
  "repeatText t n =
     (if t = [] then Some []
      else if n < 0 then None
      else Some (take (nat n) (concat (replicate (nat n) t))))"
proof (cases "t = [] \<or> n < 0")
  case False
  then have nt: "t \<noteq> []" "\<not> n < 0" by simp_all
  obtain k where k: "repeat_loop t (nat n) [] = Some (concat (replicate k t))" "nat n \<le> k * length t"
    using repeat_loop_returns[OF nt(1), of "nat n" 0] by auto
  have "nat n \<le> nat n * length t" using nt(1) by (cases t) simp_all
  from take_copies[OF k(2) this] show ?thesis using nt k(1) by (simp add: repeatText_def)
qed (auto simp: repeatText_def)

section \<open>The reply of the first example\<close>

lemma SendBuffer_Close_stream:
  "snd_getOrCreateStream (SendBuffer_Close sb sid) sid =
     (let st = snd_getOrCreateStream sb sid in
      if snd_closeAtOffset st = None then st\<lparr>snd_closeAtOffset := Some (bytesSentOffset st + word_of_nat (length (queuedData st)))\<rparr> else st)"
  by (simp add: SendBuffer_Close_def Let_def)

text \<open>
  C40: The server of the first example answers the first segment it reads from a stream and closes the
  stream. If no close was requested on the stream before, as much of the segment in upper case
  is queued as the free space of the send buffer takes, which is all of it if there is room and
  nothing if the buffer is full; otherwise nothing is queued. A close is requested afterwards in
  any case. A message that arrives in two segments is therefore answered in part.
\<close>
theorem echo_answers_first_segment:
  assumes "conn_at l cid = Some c" and "lm_get (streams c) sid = Some s" and "st_streamID s = sid"
    and "Stream_Read c sid s = ((Some d, None), s', c1)" and "d \<noteq> []"
    and "snd_size (c_snd c) \<le> snd_capacity (c_snd c)"
  shows "\<exists>l' c'. example1_server unicode wake l (Some (cid, sid)) = (Inr True, l') \<and> conn_at l' cid = Some c' \<and>
    queuedData (snd_getOrCreateStream (c_snd c') sid) = queuedData (snd_getOrCreateStream (c_snd c) sid) @
      (if snd_closeAtOffset (snd_getOrCreateStream (c_snd c) sid) = None
       then take (nat (snd_capacity (c_snd c) - snd_size (c_snd c))) (strings_ToUpper unicode d) else []) \<and>
    snd_closeAtOffset (snd_getOrCreateStream (c_snd c') sid) \<noteq> None"
proof -
  let ?u = "strings_ToUpper unicode d" and ?st = "snd_getOrCreateStream (c_snd c) sid"
  have r: "c_snd c1 = c_snd c" "s' = s" "st_closedAtNano s = 0"
    using assms(4) by (auto simp: Stream_Read_def Let_def split: if_splits prod.splits option.splits)
  have closed: "SendBuffer_GetOffsetClosedAt (c_snd c) sid = snd_closeAtOffset ?st"
    by (auto simp: SendBuffer_GetOffsetClosedAt_def snd_getOrCreateStream_def NewStreamBuffer_def split: option.splits)
  let ?n = "min (snd_capacity (c_snd c) - snd_size (c_snd c)) (int (length ?u))"
  define sb where "sb = (if snd_closeAtOffset ?st = None \<and> ?u \<noteq> [] \<and> ?n \<noteq> 0 then
      (snd_put_stream (c_snd c) sid (?st\<lparr>queuedData := queuedData ?st @ take (nat ?n) ?u\<rparr>))\<lparr>snd_size := snd_size (c_snd c) + ?n\<rparr> else c_snd c)"
  have "\<exists>n. Stream_Write c1 s ?u wake = Some (n, c1\<lparr>c_snd := sb\<rparr>)"
    using assms(3) r closed QueueData_eq[OF assms(6), of sid ?u] by (cases wake) (auto simp: Stream_Write_def sb_def Let_def)
  then have "example1_server unicode wake l (Some (cid, sid)) =
      (Inr True, put_conn (put_conn l cid c1) cid (Stream_Close (c1\<lparr>c_snd := sb\<rparr>) s))"
    using assms(1,2,4,5) r(2) by (auto simp: example1_server_def with_stream_def reply_and_close_def Let_def simp del: lm_reads)
  moreover have "snd_getOrCreateStream sb sid = ?st\<lparr>queuedData := queuedData ?st @
      (if snd_closeAtOffset ?st = None then take (nat (snd_capacity (c_snd c) - snd_size (c_snd c))) ?u else [])\<rparr>"
    using assms(6) by (auto simp: sb_def min_def)
  ultimately show ?thesis
    using assms(3) by (intro exI conjI) (auto simp: lmc.get_put Stream_Close_def SendBuffer_Close_stream Let_def simp del: lm_reads)
qed

text \<open>The instance: \<^verbatim>\<open>hi\<close> is read from a stream on which nothing was written.\<close>

definition demo_echo :: "ReceiveBuffer \<Rightarrow> Conn" where
  "demo_echo rb = (mk_conn 5 ''peer'' (replicate 32 1) None None False False)\<lparr>streams := lm_put lm_new 0 stream0, c_rcv := rb\<rparr>"

theorem echo_answers_first_segment_witness:
  "\<exists>rb l' c'. example1_server id None (put_conn demo_fresh 5 (demo_echo rb)) (Some (5, 0)) = (Inr True, l') \<and> conn_at l' 5 = Some c' \<and>
     queuedData (snd_getOrCreateStream (c_snd c') 0) = [72, 73]"
proof -
  obtain rb where rb: "fst (ReceiveBuffer_RemoveOldestInOrder rb 0) = (0, Some [104, 105], 6)" "ReceiveBuffer_GetOffsetClosedAt rb 0 = None"
    using fresh_insert[of "[104, 105]" 6] by auto
  obtain rb' where r: "ReceiveBuffer_RemoveOldestInOrder rb 0 = ((0, Some [104, 105], 6), rb')" using rb(1) by (metis prod.collapse)
  let ?c = "demo_echo rb" and ?l = "put_conn demo_fresh 5 (demo_echo rb)"
  have u: "strings_ToUpper id [104, 105] = [72, 73]" by (simp add: strings_ToUpper_def)
  have "Stream_Read ?c 0 stream0 = ((Some [104, 105], None), stream0, ?c\<lparr>c_rcv := rb'\<rparr>)"
    using r rb(2) by (simp add: Stream_Read_def demo_echo_def Let_def)
  moreover have "conn_at ?l 5 = Some ?c" "lm_get (streams ?c) 0 = Some stream0"
    by (simp_all add: demo_echo_def demo_fresh_def put_conn_def al_put_def)
  moreover have "snd_size (c_snd ?c) = 0" "snd_capacity (c_snd ?c) = sndBufferCapacity" "0 \<le> sndBufferCapacity"
      "take (nat sndBufferCapacity) [72, 73 :: u8] = [72, 73]"
    by (simp_all add: demo_echo_def mk_conn_def NewSendBuffer_def sndBufferCapacity_def)
  moreover have "snd_getOrCreateStream (c_snd ?c) 0 = NewStreamBuffer"
    by (simp add: demo_echo_def mk_conn_def NewSendBuffer_def snd_getOrCreateStream_def)
  ultimately show ?thesis
    using echo_answers_first_segment[of ?l 5 ?c 0 stream0 "[104, 105]" stream0 "?c\<lparr>c_rcv := rb'\<rparr>" id None] u
    by (auto simp: NewStreamBuffer_def simp del: lm_reads)
qed

end
