(* ===== verification/Spec2Isabelle.thy ===== *)
theory Spec2Isabelle
  imports Codec Proto Linked_Map Sorted_Map Measurement Crypto_Layout Send_Buffer Receive_Buffer Crypto Conn
    Hex Net Listener Listener_Safety Listener_Cleanup Listener_System Handshake First_Flight Transport
    Session Session_System Session_Start Programs
begin

text \<open>
  A verification library for qotp, an encrypted, multiplexed transport protocol over UDP written
  in Go.

  \<^bold>\<open>The program.\<close> A listener (\<^verbatim>\<open>src/listener.go\<close>) owns one UDP socket (\<^verbatim>\<open>src/net.go\<close>) and a map of
  connections. A connection (\<^verbatim>\<open>src/conn.go\<close>) has a map of streams (\<^verbatim>\<open>src/stream.go\<close>), a send
  buffer (\<^verbatim>\<open>src/snd.go\<close>), a receive buffer (\<^verbatim>\<open>src/rcv.go\<close>) and a network estimator
  (\<^verbatim>\<open>src/measurement.go\<close>). The application writes to a stream; the bytes are queued in the send
  buffer. A flush of the listener asks each connection for one packet: an acknowledgement from the
  receive buffer and a slice of the queued bytes are encoded as a payload (\<^verbatim>\<open>src/proto.go\<close>) and
  sealed (\<^verbatim>\<open>src/codec.go\<close>, \<^verbatim>\<open>src/crypto.go\<close>). A received packet takes the way back: it is opened
  with the keys of the connection it names, the acknowledgement goes to the send buffer, the
  data to the receive buffer, and the application reads it in order. The two containers are a
  linked map (\<^verbatim>\<open>src/linkedmap.go\<close>) and a skip list (\<^verbatim>\<open>src/sortedmap.go\<close>).

  \<^bold>\<open>The theories.\<close>
  \<^item> \<^verbatim>\<open>Qotp_Prelude\<close>: Go's integers as words of their width, \<^verbatim>\<open>int\<close> as an integer, slices as lists,
    a nil slice as \<open>None\<close>, an error as \<open>Inl (Err m)\<close>, a panic as \<open>None\<close> or \<open>Inl (Panic m)\<close>.
  \<^item> \<^verbatim>\<open>Codec\<close> and \<^verbatim>\<open>Hex\<close>: the little-endian codecs, the offset varint and hexadecimal keys. Readers
    invert writers and leave the other bytes alone.
  \<^item> \<^verbatim>\<open>Proto\<close>: payload encoder and decoder and the window code. The decoder inverts the encoder and
    is total on arbitrary bytes; the decoded window is a lower bound from 128 bytes on.
  \<^item> \<^verbatim>\<open>Indexed_Chain\<close>, \<^verbatim>\<open>Map_Interface\<close>, \<^verbatim>\<open>Linked_Map\<close>, \<^verbatim>\<open>Sorted_Map\<close>: the containers on an explicit
    store of nodes, as the code has them, and their refinement to lists of entries. The locales of
    the interface are interpreted on the refined maps, and the buffers use only their laws.
  \<^item> \<^verbatim>\<open>Measurement\<close>: the estimator with its wrap-around; no division by zero, bounds of the timeout,
    the exact pacing delay on every branch.
  \<^item> \<^verbatim>\<open>Step_System\<close>: components as transition systems, with locales for an invariant that admissible
    calls keep and for calls that do not panic.
  \<^item> \<^verbatim>\<open>Send_Buffer\<close>, \<^verbatim>\<open>Receive_Buffer\<close>: the buffers and all sequences of calls on them: no byte is lost
    or duplicated at the sender, what is read is a prefix of the content, sizes are accounted for,
    and a stored segment that starts below the read position blocks its stream.
  \<^item> \<^verbatim>\<open>Crypto_Layout\<close>, \<^verbatim>\<open>Crypto\<close>: the five kinds of packets and the chained encryption. Packets are
    opened to what was sealed, an accepted data packet is the encryption of its content, and
    nonces repeat exactly as characterised there. \<^verbatim>\<open>src/pcap.go\<close> is modelled here as well.
  \<^item> \<^verbatim>\<open>Conn\<close>, \<^verbatim>\<open>Conn_Inv\<close>: streams, the reception of a payload, and the flush of a connection; a flush
    writes at most one packet within the MTU, sealed under a nonce of its own packet number, and
    keeps the invariant.
  \<^item> \<^verbatim>\<open>Net\<close>: the socket wrapper with its read deadline, and the don't-fragment option.
  \<^item> \<^verbatim>\<open>Listener\<close>: options, dialing, the reception of a packet, the flush over all connections with
    its clean-up, closing and the main loop.
  \<^item> \<^verbatim>\<open>Listener_Safety\<close>: a packet touches only the connection it names; data packets that have an
    effect are authentic; what dialing does; what an unauthenticated first packet does.
    \<^verbatim>\<open>Listener_Cleanup\<close> is the effect of the clean-up on the cursor that is a shared pointer.
  \<^item> \<^verbatim>\<open>Listener_System\<close>: all states a listener reaches by dialing, received packets, flushes and calls
    on streams: every connection is well formed, and no flush panics.
  \<^item> \<^verbatim>\<open>Handshake\<close>, \<^verbatim>\<open>First_Flight\<close>: two listeners and the packets between them: the plain handshake to
    the end, and data that is carried by the first packet to a known identity.
  \<^item> \<^verbatim>\<open>Transport\<close>: a send buffer and a receive buffer with the wire format between them, over a network
    that loses, repeats and reorders: prefix, no loss, and what reads return of the bytes that
    are acknowledged.
  \<^item> \<^verbatim>\<open>Session\<close>, \<^verbatim>\<open>Session_System\<close>, \<^verbatim>\<open>Session_Start\<close>: two listeners with one connection between them.
    Every flush, every packet that arrives and every call on a stream is matched by steps of two
    transports, so what one application reads is a prefix of what the other wrote; the plain
    handshake leads to the start of such a session.
  \<^item> \<^verbatim>\<open>Programs\<close>: the choice of the log level in \<^verbatim>\<open>src/main.go\<close> and the two programs under
    \<^verbatim>\<open>src/examples\<close>, as callbacks for the main loop.

  \<^bold>\<open>How the state corresponds.\<close> Structs are records with the fields of the source; a method
  \<^verbatim>\<open>M\<close> of a type \<^verbatim>\<open>T\<close> is the definition \<^verbatim>\<open>T_M\<close>, which returns the changed record. Connections and
  streams are values in the maps of their owner, and a pointer to one is its key. The two cursors
  of the flush point into a connection and into a stream; they are modelled by the place they
  point to and the value read there. Inner blocks of long functions are definitions of their own
  and carry the lines of their block in the map.

  \<^bold>\<open>Parameters.\<close> X25519 and the two ciphers are a record of functions; \<^verbatim>\<open>lib_ok\<close> states of them
  what the code relies on: sizes, agreement of the key exchange, and that opening inverts sealing
  and accepts only what was sealed. \<^verbatim>\<open>low_order_uniform\<close> adds that a public key of low order is
  refused for every private key. Concrete instances show that both can hold. Generated keys,
  results of the socket, parsed addresses, clock readings and the iteration order of a Go map are
  arguments.

  \<^bold>\<open>Bounds.\<close> Streams are shorter than \<open>2 ^ 48\<close> bytes, the limit of the wire format, and the MTU is
  between 119, the largest overhead, and 65535. Sessions are followed through the first epoch, that
  is for \<open>2 ^ 48\<close> packets of each side. The receive buffer keeps everything only while a
  segment overlaps at most one stored segment; the theorems that need this say so. What it keeps
  can be read unless a stored segment starts below the read position, which an overlap with bytes
  already read can cause. The loops over the nodes of the containers are partial functions whose
  value is \<open>None\<close> if they do not end, and the refinement theorems include that they end. The main
  loop is a function of the list of its rounds, so it ends with the list.

  \<^bold>\<open>Not modelled.\<close> Mutexes and goroutines: every operation is one step. Log output, which has no
  effect on the state: the set-up of the logger and \<^verbatim>\<open>gId\<close> in \<^verbatim>\<open>src/main.go\<close>, the \<^verbatim>\<open>debug\<close>
  methods, and what the example programs print. The limits of the Go runtime on the size of an
  allocation. The methods that only forward to the socket
  (\<^verbatim>\<open>Close\<close>, \<^verbatim>\<open>LocalAddrString\<close>, \<^verbatim>\<open>NotifyDataAvailable\<close>).
\<close>

end
